(* ===== verification/Bytes_Prelude.thy ===== *)
theory Bytes_Prelude
  imports Main "HOL-Library.Word" "HOL-Library.Sublist"
begin

text \<open>
  Shared vocabulary of the development: the C integer types as words, \<open>size_t\<close>
  arithmetic with its wrap-around written out, memory blocks as byte lists, the
  allocator as a parameter, big-endian integers, and the generic facts on lists, options
  and words that the component theories use.
\<close>

unbundle bit_operations_syntax

type_synonym byte = "8 word"
type_synonym u16 = "16 word"
type_synonym u32 = "32 word"
type_synonym u64 = "64 word"

text \<open>Rewrite rules that open the operations of a component on concrete inputs.\<close>

named_theorems cbs_defs
named_theorems cbb_defs
named_theorems reader_intros

subsection \<open>Sizes\<close>

text \<open>
  The build targets are 64-bit: a \<open>size_t\<close> is a natural number below \<open>size_mod\<close>, and an
  addition, multiplication or left shift on \<open>size_t\<close> is taken modulo \<open>size_mod\<close> where
  the source checks for overflow.
\<close>

abbreviation size_mod :: nat where
  "size_mod \<equiv> 18446744073709551616"

abbreviation INT_MAX :: nat where
  "INT_MAX \<equiv> 2147483647"

abbreviation UINT_MAX :: nat where
  "UINT_MAX \<equiv> 4294967295"

subsection \<open>Outcomes\<close>

text \<open>
  The outcome of a C function that can fail: \<open>Undef\<close> for undefined behaviour or a failed
  assertion, \<open>Fail\<close> for an error return, \<open>Ret\<close> for a normal one.
\<close>

datatype 'a c_result = Undef | Fail | Ret 'a

subsection \<open>Memory blocks\<close>

text \<open>
  A block of memory is the list of its bytes. A write at an offset keeps the bytes before
  and after; a write past the end would make the block longer, so an operation that keeps
  the length of its block has written inside it.
\<close>

definition write_at :: "'a list \<Rightarrow> nat \<Rightarrow> 'a list \<Rightarrow> 'a list" where
  "write_at m off bs = take off m @ bs @ drop (off + length bs) m"

lemma write_at_Nil [simp]: "write_at m off [] = m"
  by (simp add: write_at_def)

lemma length_write_at [simp]:
  "off + length bs \<le> length m \<Longrightarrow> length (write_at m off bs) = length m"
  by (simp add: write_at_def)

lemma length_write_at_iff:
  "off \<le> length m \<Longrightarrow> length (write_at m off bs) = length m \<longleftrightarrow> off + length bs \<le> length m"
  by (auto simp: write_at_def)

lemma take_write_at_le:
  "n \<le> off \<Longrightarrow> off \<le> length m \<Longrightarrow> take n (write_at m off bs) = take n m"
  by (simp add: write_at_def)

lemma take_write_at_end:
  "off \<le> length m \<Longrightarrow> take (off + length bs) (write_at m off bs) = take off m @ bs"
  by (simp add: write_at_def)

lemma write_at_append:
  "off + length as + length bs \<le> length m \<Longrightarrow>
   write_at (write_at m off as) (off + length as) bs = write_at m off (as @ bs)"
  by (simp add: write_at_def ac_simps)

lemma write_at_extend:
  "off \<le> length m \<Longrightarrow> write_at (write_at m off as) (off + length as) bs = write_at m off (as @ bs)"
  by (simp add: write_at_def ac_simps)

lemma length_write_at_ge: "off \<le> length m \<Longrightarrow> off + length bs \<le> length (write_at m off bs)"
  by (simp add: write_at_def)

lemma write_at_over:
  "off \<le> length m \<Longrightarrow> length cs \<le> length bs \<Longrightarrow>
     write_at (write_at m off (as @ cs)) (off + length as) bs = write_at m off (as @ bs)"
  by (simp add: write_at_def) (metis (no_types, lifting) add.assoc add.commute diff_add_inverse drop_drop le_add_diff_inverse)

lemma write_at_append_rev:
  "off + length as + length bs \<le> length m \<Longrightarrow>
   write_at (write_at m (off + length as) bs) off as = write_at m off (as @ bs)"
  by (simp add: write_at_def ac_simps)

lemma take_write_at:
  "off + length bs \<le> n \<Longrightarrow> n \<le> length m \<Longrightarrow> take n (write_at m off bs) = write_at (take n m) off bs"
  by (cases "n = off") (auto simp: write_at_def drop_take min_def not_le)

text \<open>
  The allocator is a parameter: a request for \<open>n\<close> bytes gives a block of \<open>n\<close> bytes with
  any content, or \<open>None\<close> where \<open>malloc\<close> returns NULL. The only fact used of a
  successful request is the size of the block.
\<close>

type_synonym allocator = "nat \<Rightarrow> byte list option"

definition allocates :: "allocator \<Rightarrow> bool" where
  "allocates al \<longleftrightarrow> (\<forall>n b. al n = Some b \<longrightarrow> length b = n)"

definition realloc :: "allocator \<Rightarrow> byte list \<Rightarrow> nat \<Rightarrow> byte list option" where
  "realloc al m n =
     (case al n of None \<Rightarrow> None
      | Some b \<Rightarrow> Some (take n m @ drop (length m) b))"

lemma allocatesD: "allocates al \<Longrightarrow> al n = Some b \<Longrightarrow> length b = n"
  by (simp add: allocates_def)

lemma realloc_length:
  "allocates al \<Longrightarrow> realloc al m n = Some m' \<Longrightarrow> length m' = n"
  by (auto simp: realloc_def min_def dest: allocatesD split: option.splits)

lemma realloc_take:
  "realloc al m n = Some m' \<Longrightarrow> k \<le> n \<Longrightarrow> k \<le> length m \<Longrightarrow> take k m' = take k m"
  by (auto simp: realloc_def min_def split: option.splits)

text \<open>An allocator that always succeeds, for concrete runs.\<close>

definition zero_alloc :: allocator where
  "zero_alloc n = Some (replicate n 0)"

lemma allocates_zero_alloc [simp]: "allocates zero_alloc"
  by (simp add: allocates_def zero_alloc_def)

subsection \<open>Words and bytes\<close>

lemma word_or_disjoint:
  fixes a b :: "'a::len word"
  assumes "\<And>n. \<not> bit a n \<or> \<not> bit b n"
  shows "a OR b = a + b"
  using assms by (simp add: disjunctive_add)

lemma unat_byte_less: "unat (b :: byte) < 256"
  using unsigned_less [of b] by simp

lemma unat_u32_less: "unat (v :: u32) < 4294967296"
  using unsigned_less [of v] by simp

lemma unat_u64_less: "unat (v :: u64) < size_mod"
  using unsigned_less [of v] by simp

lemma unat_drop_bit: "unat (drop_bit n (w :: 'a::len word)) = unat w div 2 ^ n"
  using unsigned_less [of w]
  by (simp only: unsigned_drop_bit_eq) (simp add: drop_bit_eq_div take_bit_nat_eq_self)

lemma drop_bit_eq_0_iff: "drop_bit n (w :: 'a::len word) = 0 \<longleftrightarrow> unat w < 2 ^ n"
proof -
  have "drop_bit n w = 0 \<longleftrightarrow> unat (drop_bit n w) = 0" by (simp only: unsigned_eq_0_iff)
  then show ?thesis by (simp only: unat_drop_bit div_eq_0_iff) simp
qed

lemma unat_take_bit: "unat (take_bit n (w :: 'a::len word)) = unat w mod 2 ^ n"
  by (subst unsigned_take_bit_eq) (simp add: take_bit_eq_mod)

lemma unat_and_mask: "m = mask n \<Longrightarrow> unat ((w :: 'a::len word) AND m) = unat w mod 2 ^ n"
  by (simp only: take_bit_eq_mask [symmetric] unat_take_bit)

lemma unat_push_bit: "unat (push_bit n (w :: 'a::len word)) = unat w * 2 ^ n mod 2 ^ LENGTH('a)"
  by (subst unsigned_push_bit_eq) (simp add: push_bit_eq_mult take_bit_eq_mod)

lemma unat_ucast_mod: "unat (ucast (w :: 'a::len word) :: 'b::len word) = unat w mod 2 ^ LENGTH('b)"
  by (subst unsigned_ucast_eq) (simp add: take_bit_eq_mod)

lemmas unat_bits = unat_push_bit unat_drop_bit unat_take_bit unat_ucast_mod

lemma and_push_mask:
  "(a :: 'a::len word) AND push_bit n (mask m) = push_bit n (take_bit m (drop_bit n a))"
  by (rule bit_word_eqI) (auto simp: bit_simps)

lemma nat_or_disjoint: "n < 2 ^ k \<Longrightarrow> c * 2 ^ k OR n = c * 2 ^ k + (n::nat)"
proof -
  assume n: "n < 2 ^ k"
  have "push_bit k c OR n = push_bit k c + n"
  proof (rule disjunctive_add [symmetric])
    fix i
    show "\<not> bit (push_bit k c) i \<or> \<not> bit n i"
    proof (cases "i < k")
      case False
      then have "n < 2 ^ i"
        using n by (meson le_less_trans leI power_increasing one_le_numeral less_le_trans)
      then show ?thesis by (simp add: bit_iff_odd)
    qed (simp add: bit_simps)
  qed
  then show ?thesis by (simp add: push_bit_eq_mult)
qed

lemma word_or_arith:
  "n < 2 ^ k \<Longrightarrow>
   (word_of_nat (c * 2 ^ k) :: 'a::len word) OR word_of_nat n = word_of_nat (c * 2 ^ k + n)"
  by (simp only: of_nat_or_eq [symmetric] nat_or_disjoint)

lemma shift8_or:
  fixes r :: "'a::len word" and b :: byte
  shows "push_bit 8 r OR ucast b = r * 256 + ucast b"
proof -
  have "push_bit 8 r OR ucast b = push_bit 8 r + ucast b"
    by (rule word_or_disjoint) (auto simp: bit_simps dest: bit_imp_le_length)
  then show ?thesis by (simp add: push_bit_eq_mult)
qed

subsection \<open>Big-endian integers\<close>

text \<open>\<open>be_nat\<close> reads a byte list as a big-endian number; \<open>be_bytes n v\<close> writes the low
  \<open>n\<close> bytes of \<open>v\<close>, last byte first, as the loops of the source do.\<close>

definition be_nat :: "byte list \<Rightarrow> nat" where
  "be_nat xs = foldl (\<lambda>a b. a * 256 + unat b) 0 xs"

primrec be_bytes :: "nat \<Rightarrow> nat \<Rightarrow> byte list" where
  "be_bytes 0 v = []"
| "be_bytes (Suc n) v = be_bytes n (v div 256) @ [word_of_nat v]"

lemma be_nat_Nil [simp]: "be_nat [] = 0"
  by (simp add: be_nat_def)

lemma be_nat_snoc [simp]: "be_nat (xs @ [b]) = be_nat xs * 256 + unat b"
  by (simp add: be_nat_def)

lemma be_nat_append: "be_nat (xs @ ys) = be_nat xs * 256 ^ length ys + be_nat ys"
proof (induction ys rule: rev_induct)
  case Nil
  then show ?case by simp
next
  case (snoc y ys)
  have "be_nat (xs @ ys @ [y]) = be_nat ((xs @ ys) @ [y])" by simp
  also have "\<dots> = be_nat (xs @ ys) * 256 + unat y" by (rule be_nat_snoc)
  finally show ?case using snoc by (simp add: algebra_simps)
qed

lemma be_nat_Cons: "be_nat (x # xs) = unat x * 256 ^ length xs + be_nat xs"
  using be_nat_append [of "[x]" xs] by (simp add: be_nat_def)

lemma be_nat_single [simp]: "be_nat [b] = unat b"
  by (simp add: be_nat_def)

lemma be_nat_eq_0: "be_nat xs = 0 \<longleftrightarrow> (\<forall>x \<in> set xs. x = 0)"
  by (induction xs) (auto simp: be_nat_Cons unat_eq_0)

lemma be_nat_less: "be_nat xs < 256 ^ length xs"
proof (induction xs rule: rev_induct)
  case Nil
  then show ?case by simp
next
  case (snoc b xs)
  have "unat b < 256" by (rule unat_byte_less)
  moreover from snoc have "(be_nat xs + 1) * 256 \<le> 256 ^ length xs * 256"
    by (intro mult_le_mono1) simp
  ultimately show ?case by (simp add: algebra_simps)
qed

lemma length_be_bytes [simp]: "length (be_bytes n v) = n"
  by (induction n arbitrary: v) simp_all

lemma be_bytes_eq_Nil [simp]: "be_bytes n v = [] \<longleftrightarrow> n = 0"
  using length_be_bytes [of n v] by (metis length_0_conv)

lemma unat_byte_of_nat: "unat (word_of_nat v :: byte) = v mod 256"
  by (simp add: unat_of_nat)

lemma be_nat_be_bytes: "be_nat (be_bytes n v) = v mod 256 ^ n"
proof (induction n arbitrary: v)
  case 0
  then show ?case by simp
next
  case (Suc n)
  have "v mod (256 * 256 ^ n) = 256 * (v div 256 mod 256 ^ n) + v mod 256"
    by (rule mod_mult2_eq)
  with Suc show ?case by (simp add: unat_byte_of_nat mult.commute)
qed

lemma low_byte: "(word_of_nat (n * 256 + unat b) :: byte) = b"
  unfolding word_unat_eq_iff unat_byte_of_nat using unat_byte_less [of b] by simp

lemma be_bytes_be_nat: "be_bytes (length xs) (be_nat xs) = xs"
proof (induction xs rule: rev_induct)
  case Nil
  then show ?case by simp
next
  case (snoc b xs)
  have b: "unat b < 256" by (rule unat_byte_less)
  then have "(be_nat xs * 256 + unat b) div 256 = be_nat xs" by simp
  then show ?case using snoc low_byte by simp
qed

lemma be_nat_inject: "length xs = length ys \<Longrightarrow> be_nat xs = be_nat ys \<Longrightarrow> xs = ys"
  by (metis be_bytes_be_nat)

text \<open>The accumulation loop \<open>result <<= 8; result |= data[i]\<close>.\<close>

definition be_word :: "'a::len word \<Rightarrow> byte list \<Rightarrow> 'a word" where
  "be_word r xs = foldl (\<lambda>r b. push_bit 8 r OR ucast b) r xs"

lemma be_word_Nil [simp]: "be_word r [] = r"
  by (simp add: be_word_def)

lemma be_word_Cons [simp]: "be_word r (b # xs) = be_word (push_bit 8 r OR ucast b) xs"
  by (simp add: be_word_def)

lemma be_word_of_nat:
  "be_word (0 :: 'a::len word) xs = word_of_nat (be_nat xs)"
proof (induction xs rule: rev_induct)
  case Nil
  then show ?case by simp
next
  case (snoc b xs)
  then have "be_word (0 :: 'a word) (xs @ [b]) = push_bit 8 (word_of_nat (be_nat xs)) OR ucast b"
    by (simp add: be_word_def)
  also have "\<dots> = word_of_nat (be_nat xs * 256 + unat b)"
    by (simp add: shift8_or)
  finally show ?case by simp
qed

lemma unat_be_word:
  assumes "8 * length xs \<le> LENGTH('a)"
  shows "unat (be_word (0 :: 'a::len word) xs) = be_nat xs"
proof -
  have "be_nat xs < 2 ^ (8 * length xs)"
    using be_nat_less [of xs] by (simp add: power_mult)
  also have "\<dots> \<le> 2 ^ LENGTH('a)" using assms by simp
  finally show ?thesis by (simp add: be_word_of_nat unat_of_nat)
qed

subsection \<open>Byte order\<close>

text \<open>\<open>CRYPTO_bswap2\<close>, \<open>CRYPTO_bswap4\<close> and \<open>CRYPTO_bswap8\<close>: the bytes of an integer in
  the opposite order.\<close>

definition bswap :: "nat \<Rightarrow> nat \<Rightarrow> nat" where
  "bswap n v = be_nat (rev (be_bytes n v))"

lemma bswap_bswap: "v < 256 ^ n \<Longrightarrow> bswap n (bswap n v) = v"
proof -
  assume v: "v < 256 ^ n"
  have "be_bytes n (be_nat (rev (be_bytes n v))) = rev (be_bytes n v)"
    using be_bytes_be_nat [of "rev (be_bytes n v)"] by simp
  then show ?thesis using v by (simp add: bswap_def be_nat_be_bytes)
qed

lemma bswap_less: "bswap n v < 256 ^ n"
  using be_nat_less [of "rev (be_bytes n v)"] by (simp add: bswap_def)

subsection \<open>Searching\<close>

text \<open>\<open>OPENSSL_memchr\<close>: the index of the first byte equal to \<open>c\<close>.\<close>

fun memchr :: "byte list \<Rightarrow> byte \<Rightarrow> nat option" where
  "memchr [] c = None"
| "memchr (b # bs) c = (if b = c then Some 0 else map_option Suc (memchr bs c))"

lemma memchr_None: "memchr bs c = None \<longleftrightarrow> c \<notin> set bs"
  by (induction bs) auto

lemma memchr_Some:
  "memchr bs c = Some i \<longleftrightarrow> i < length bs \<and> bs ! i = c \<and> c \<notin> set (take i bs)"
proof (induction bs arbitrary: i)
  case Nil
  then show ?case by simp
next
  case (Cons b bs)
  then show ?case by (cases i) auto
qed

end
