(* ===== verification/Nanopb.thy ===== *)
theory Nanopb
  imports Bytes_Prelude
begin

text \<open>
  \<open>nanopb\<close> (\<open>pb_encode.c\<close>, \<open>pb_decode.c\<close>): the Protocol Buffers wire format on buffer streams, below the
  tables of field descriptors. An input stream is the memory from \<open>state\<close> on with the number of bytes
  left; an output stream is the whole destination memory with the position \<open>state\<close>. The callback is
  \<open>buf_read\<close>, or \<open>buf_write\<close> respectively NULL for a stream that only counts. Integers are 64 bits wide
  (\<open>PB_WITHOUT_64BIT\<close> is not set), \<open>uint_fast8_t\<close> has 8 bits as on the targets.
\<close>

record pb_istream_t =
  is_state :: "byte list"
  bytes_left :: nat
  is_errmsg :: "string option"

record pb_ostream_t =
  os_callback :: bool
  os_mem :: "byte list"
  os_state :: nat
  max_size :: nat
  bytes_written :: nat
  os_errmsg :: "string option"

type_synonym 'a pb_reader = "pb_istream_t \<Rightarrow> 'a option \<times> pb_istream_t"
type_synonym pb_writer = "pb_ostream_t \<Rightarrow> bool \<times> pb_ostream_t"

text \<open>\<open>PB_SET_ERROR\<close> keeps the first message.\<close>

definition pb_fail :: "string \<Rightarrow> 'a pb_reader" where
  "pb_fail msg s = (None, s\<lparr>is_errmsg := Some (case is_errmsg s of Some m \<Rightarrow> m | None \<Rightarrow> msg)\<rparr>)"

definition pb_wfail :: "string \<Rightarrow> pb_writer" where
  "pb_wfail msg s = (False, s\<lparr>os_errmsg := Some (case os_errmsg s of Some m \<Rightarrow> m | None \<Rightarrow> msg)\<rparr>)"

definition pb_bind :: "'a pb_reader \<Rightarrow> ('a \<Rightarrow> 'b pb_reader) \<Rightarrow> 'b pb_reader" where
  "pb_bind f g s = (case f s of (None, s) \<Rightarrow> (None, s) | (Some x, s) \<Rightarrow> g x s)"

definition pb_return :: "'a \<Rightarrow> 'a pb_reader" where
  "pb_return x s = (Some x, s)"

definition pb_seq :: "pb_writer \<Rightarrow> pb_writer \<Rightarrow> pb_writer" where
  "pb_seq f g s = (case f s of (False, s) \<Rightarrow> (False, s) | (True, s) \<Rightarrow> g s)"

subsection \<open>Input streams\<close>

definition pb_istream_from_buffer :: "byte list \<Rightarrow> nat \<Rightarrow> pb_istream_t" where
  "pb_istream_from_buffer buf bufsize = \<lparr>is_state = buf, bytes_left = bufsize, is_errmsg = None\<rparr>"

definition buf_read :: "nat \<Rightarrow> pb_istream_t \<Rightarrow> byte list \<times> pb_istream_t" where
  "buf_read count s = (take count (is_state s), s\<lparr>is_state := drop count (is_state s)\<rparr>)"

text \<open>A NULL destination skips; the bytes are the result all the same.\<close>

definition pb_read :: "nat \<Rightarrow> byte list pb_reader" where
  "pb_read count s =
     (if count = 0 then (Some [], s)
      else if bytes_left s < count then pb_fail ''end-of-stream'' s
      else case buf_read count s of (bs, s) \<Rightarrow> (Some bs, s\<lparr>bytes_left := bytes_left s - count\<rparr>))"

definition pb_readbyte :: "byte pb_reader" where
  "pb_readbyte s =
     (if bytes_left s = 0 then pb_fail ''end-of-stream'' s
      else case buf_read 1 s of (bs, s) \<Rightarrow> (Some (bs ! 0), s\<lparr>bytes_left := bytes_left s - 1\<rparr>))"

lemma pb_readbyte_left: "pb_readbyte s = (Some b, s') \<Longrightarrow> bytes_left s' < bytes_left s"
  by (auto simp: pb_readbyte_def pb_fail_def buf_read_def split: if_splits)

lemma pb_read_left: "pb_read n s = (Some bs, s') \<Longrightarrow> bytes_left s' = bytes_left s - n \<and> n \<le> bytes_left s"
  by (auto simp: pb_read_def pb_fail_def buf_read_def split: if_splits)

text \<open>
  The loop of \<open>pb_decode_varint32_eof\<close>; the result is the value with the last byte and the bit position.
  The position is a \<open>uint_fast8_t\<close> and wraps.
\<close>

function varint32_loop :: "nat \<Rightarrow> u32 \<Rightarrow> (u32 \<times> byte \<times> nat) pb_reader" where
  "varint32_loop bitpos result s =
     (case pb_readbyte s of
        (None, s') \<Rightarrow> (None, s')
      | (Some byte, s') \<Rightarrow>
          let sign_extension = (if bitpos < 63 then 0xFF else 0x01);
              result' = (if bitpos \<ge> 32 then result else result OR push_bit bitpos (ucast (byte AND 0x7F)));
              bitpos' = (bitpos + 7) mod 256
          in if bitpos \<ge> 32 \<and> byte AND 0x7F \<noteq> 0 \<and> (drop_bit 31 result = 0 \<or> byte \<noteq> sign_extension)
             then pb_fail ''varint overflow'' s'
             else if byte AND 0x80 \<noteq> 0 then varint32_loop bitpos' result' s'
             else (Some (result', byte, bitpos'), s'))"
  by pat_completeness auto

termination varint32_loop
  by (relation "measure (\<lambda>(_, _, s). bytes_left s)") (auto dest: pb_readbyte_left [OF sym])

text \<open>The middle component says whether \<open>*eof\<close> is set.\<close>

definition pb_decode_varint32_eof :: "pb_istream_t \<Rightarrow> u32 option \<times> bool \<times> pb_istream_t" where
  "pb_decode_varint32_eof s =
     (case pb_readbyte s of
        (None, s) \<Rightarrow> (None, bytes_left s = 0, s)
      | (Some byte, s) \<Rightarrow>
          if byte AND 0x80 = 0 then (Some (ucast byte), False, s)
          else case varint32_loop 7 (ucast (byte AND 0x7F)) s of
                 (None, s) \<Rightarrow> (None, False, s)
               | (Some (result, byte, bitpos), s) \<Rightarrow>
                   if bitpos = 35 \<and> byte AND 0x70 \<noteq> 0
                   then (case pb_fail ''varint overflow'' s of (_ :: u32 option, s) \<Rightarrow> (None, False, s))
                   else (Some result, False, s))"

definition pb_decode_varint32 :: "u32 pb_reader" where
  "pb_decode_varint32 s = (case pb_decode_varint32_eof s of (v, _, s) \<Rightarrow> (v, s))"

function varint_loop :: "nat \<Rightarrow> u64 \<Rightarrow> u64 pb_reader" where
  "varint_loop bitpos result s =
     (if bitpos \<ge> 64 then pb_fail ''varint overflow'' s
      else case pb_readbyte s of
             (None, s') \<Rightarrow> (None, s')
           | (Some byte, s') \<Rightarrow>
               let result' = result OR push_bit bitpos (ucast (byte AND 0x7F))
               in if byte AND 0x80 \<noteq> 0 then varint_loop (bitpos + 7) result' s' else (Some result', s'))"
  by pat_completeness auto

termination varint_loop
  by (relation "measure (\<lambda>(bitpos, _, _). 64 - bitpos)") auto

definition pb_decode_varint :: "u64 pb_reader" where
  "pb_decode_varint = varint_loop 0 0"

function pb_skip_varint :: "unit pb_reader" where
  "pb_skip_varint s =
     (case pb_read 1 s of
        (None, s') \<Rightarrow> (None, s')
      | (Some bs, s') \<Rightarrow> if bs ! 0 AND 0x80 \<noteq> 0 then pb_skip_varint s' else (Some (), s'))"
  by pat_completeness auto

termination pb_skip_varint
  by (relation "measure bytes_left") (auto dest!: pb_read_left [OF sym])

definition pb_skip_string :: "unit pb_reader" where
  "pb_skip_string = pb_bind pb_decode_varint32 (\<lambda>len. pb_bind (pb_read (unat len)) (\<lambda>_. pb_return ()))"

subsection \<open>Fields\<close>

definition PB_WT_VARINT :: u32 where "PB_WT_VARINT = 0"
definition PB_WT_64BIT :: u32 where "PB_WT_64BIT = 1"
definition PB_WT_STRING :: u32 where "PB_WT_STRING = 2"
definition PB_WT_32BIT :: u32 where "PB_WT_32BIT = 5"

lemmas wire_types = PB_WT_VARINT_def PB_WT_64BIT_def PB_WT_STRING_def PB_WT_32BIT_def

text \<open>The wire type and the tag number, and \<open>*eof\<close>.\<close>

definition pb_decode_tag :: "pb_istream_t \<Rightarrow> (u32 \<times> u32) option \<times> bool \<times> pb_istream_t" where
  "pb_decode_tag s =
     (case pb_decode_varint32_eof s of
        (None, eof, s) \<Rightarrow> (None, eof, s)
      | (Some temp, _, s) \<Rightarrow>
          if temp = 0 then (None, True, s) else (Some (temp AND 7, drop_bit 3 temp), False, s))"

definition pb_skip_field :: "u32 \<Rightarrow> unit pb_reader" where
  "pb_skip_field wire_type =
     (if wire_type = PB_WT_VARINT then pb_skip_varint
      else if wire_type = PB_WT_64BIT then pb_bind (pb_read 8) (\<lambda>_. pb_return ())
      else if wire_type = PB_WT_STRING then pb_skip_string
      else if wire_type = PB_WT_32BIT then pb_bind (pb_read 4) (\<lambda>_. pb_return ())
      else pb_fail ''invalid wire_type'')"

text \<open>\<open>read_raw_value\<close>: \<open>size\<close> is the number of bytes read so far, \<open>buf\<close> what they are.\<close>

function raw_varint_loop :: "nat \<Rightarrow> byte list \<Rightarrow> byte list pb_reader" where
  "raw_varint_loop limit buf s =
     (if length buf + 1 > limit then (None, s)
      else case pb_read 1 s of
             (None, s') \<Rightarrow> (None, s')
           | (Some bs, s') \<Rightarrow>
               if bs ! 0 AND 0x80 \<noteq> 0 then raw_varint_loop limit (buf @ [bs ! 0]) s' else (Some (buf @ [bs ! 0]), s'))"
  by pat_completeness auto

termination raw_varint_loop
  by (relation "measure (\<lambda>(limit, buf, s). bytes_left s)") (auto dest!: pb_read_left [OF sym])

definition read_raw_value :: "u32 \<Rightarrow> nat \<Rightarrow> byte list pb_reader" where
  "read_raw_value wire_type limit =
     (if wire_type = PB_WT_VARINT then raw_varint_loop limit []
      else if wire_type = PB_WT_64BIT then pb_read 8
      else if wire_type = PB_WT_32BIT then pb_read 4
      else pb_fail ''invalid wire_type'')"

text \<open>A substream covers the next \<open>size\<close> bytes; the parent goes on at its own \<open>state\<close> once it is closed.\<close>

definition pb_make_string_substream :: "pb_istream_t pb_reader" where
  "pb_make_string_substream =
     pb_bind pb_decode_varint32 (\<lambda>len s.
       if bytes_left s < unat len then pb_fail ''parent stream too short'' s
       else (Some (s\<lparr>bytes_left := unat len\<rparr>), s\<lparr>bytes_left := bytes_left s - unat len\<rparr>))"

definition pb_close_string_substream :: "pb_istream_t \<Rightarrow> unit pb_reader" where
  "pb_close_string_substream substream s =
     (if bytes_left substream \<noteq> 0
      then (case pb_read (bytes_left substream) substream of
              (None, _) \<Rightarrow> (None, s)
            | (Some _, substream) \<Rightarrow> (Some (), s\<lparr>is_state := is_state substream, is_errmsg := is_errmsg substream\<rparr>))
      else (Some (), s\<lparr>is_state := is_state substream, is_errmsg := is_errmsg substream\<rparr>))"

definition pb_decode_svarint :: "u64 pb_reader" where
  "pb_decode_svarint =
     pb_bind pb_decode_varint (\<lambda>value. pb_return (if value AND 1 \<noteq> 0 then NOT (drop_bit 1 value) else drop_bit 1 value))"

definition pb_decode_fixed32 :: "u32 pb_reader" where
  "pb_decode_fixed32 = pb_bind (pb_read 4) (\<lambda>bytes.
     pb_return (push_bit 0 (ucast (bytes ! 0)) OR push_bit 8 (ucast (bytes ! 1)) OR
       push_bit 16 (ucast (bytes ! 2)) OR push_bit 24 (ucast (bytes ! 3))))"

definition pb_decode_fixed64 :: "u64 pb_reader" where
  "pb_decode_fixed64 = pb_bind (pb_read 8) (\<lambda>bytes.
     pb_return (push_bit 0 (ucast (bytes ! 0)) OR push_bit 8 (ucast (bytes ! 1)) OR
       push_bit 16 (ucast (bytes ! 2)) OR push_bit 24 (ucast (bytes ! 3)) OR
       push_bit 32 (ucast (bytes ! 4)) OR push_bit 40 (ucast (bytes ! 5)) OR
       push_bit 48 (ucast (bytes ! 6)) OR push_bit 56 (ucast (bytes ! 7))))"

definition pb_dec_bool :: "bool pb_reader" where
  "pb_dec_bool = pb_bind pb_decode_varint32 (\<lambda>value. pb_return (value \<noteq> 0))"

text \<open>
  The integer decoders convert to a field of \<open>data_size\<close> bytes; the result is the field's value in 64
  bits, extended by its sign or by zeros.
\<close>

definition signed_field :: "nat \<Rightarrow> u64 \<Rightarrow> u64 option" where
  "signed_field data_size value =
     (if data_size = 8 then Some value
      else if data_size = 4 then Some (scast (ucast value :: u32))
      else if data_size = 2 then Some (scast (ucast value :: u16))
      else if data_size = 1 then Some (scast (ucast value :: byte))
      else None)"

definition unsigned_field :: "nat \<Rightarrow> u64 \<Rightarrow> u64 option" where
  "unsigned_field data_size value =
     (if data_size = 8 then Some value
      else if data_size = 4 then Some (ucast (ucast value :: u32))
      else if data_size = 2 then Some (ucast (ucast value :: u16))
      else if data_size = 1 then Some (ucast (ucast value :: byte))
      else None)"

definition store_field :: "u64 option \<Rightarrow> u64 \<Rightarrow> u64 pb_reader" where
  "store_field clamped value =
     (case clamped of
        None \<Rightarrow> pb_fail ''invalid data_size''
      | Some clamped \<Rightarrow> if clamped \<noteq> value then pb_fail ''integer too large'' else pb_return clamped)"

definition pb_dec_varint :: "nat \<Rightarrow> u64 pb_reader" where
  "pb_dec_varint data_size = pb_bind pb_decode_varint (\<lambda>value.
     let svalue = (if data_size = 8 then value else scast (ucast value :: u32))
     in store_field (signed_field data_size svalue) svalue)"

definition pb_dec_uvarint :: "nat \<Rightarrow> u64 pb_reader" where
  "pb_dec_uvarint data_size = pb_bind pb_decode_varint (\<lambda>value. store_field (unsigned_field data_size value) value)"

definition pb_dec_svarint :: "nat \<Rightarrow> u64 pb_reader" where
  "pb_dec_svarint data_size = pb_bind pb_decode_svarint (\<lambda>value. store_field (signed_field data_size value) value)"

subsection \<open>Output streams\<close>

definition pb_ostream_from_buffer :: "byte list \<Rightarrow> nat \<Rightarrow> pb_ostream_t" where
  "pb_ostream_from_buffer buf bufsize =
     \<lparr>os_callback = True, os_mem = buf, os_state = 0, max_size = bufsize, bytes_written = 0, os_errmsg = None\<rparr>"

definition PB_OSTREAM_SIZING :: pb_ostream_t where
  "PB_OSTREAM_SIZING =
     \<lparr>os_callback = False, os_mem = [], os_state = 0, max_size = 0, bytes_written = 0, os_errmsg = None\<rparr>"

definition buf_write :: "byte list \<Rightarrow> nat \<Rightarrow> pb_ostream_t \<Rightarrow> pb_ostream_t" where
  "buf_write buf count s =
     s\<lparr>os_mem := write_at (os_mem s) (os_state s) (take count buf), os_state := os_state s + count\<rparr>"

definition pb_write :: "byte list \<Rightarrow> nat \<Rightarrow> pb_writer" where
  "pb_write buf count s =
     (let total = (bytes_written s + count) mod size_mod
      in if count > 0 \<and> os_callback s
         then (if total < bytes_written s \<or> total > max_size s then pb_wfail ''stream full'' s
               else (True, (buf_write buf count s)\<lparr>bytes_written := total\<rparr>))
         else (True, s\<lparr>bytes_written := total\<rparr>))"

function varint_bytes :: "u64 \<Rightarrow> byte list" where
  "varint_bytes value =
     (if value \<noteq> 0 then (ucast (value AND 0x7F) OR 0x80) # varint_bytes (drop_bit 7 value) else [])"
  by pat_completeness auto

termination varint_bytes
proof (relation "measure unat", goal_cases)
  case (2 v)
  hence "0 < unat v" by (simp add: unat_gt_0)
  thus ?case by (simp add: unat_drop_bit)
qed simp

definition pb_encode_varint :: "u64 \<Rightarrow> pb_writer" where
  "pb_encode_varint value =
     (if value \<le> 0x7F then pb_write [ucast value] 1
      else let buffer = varint_bytes value; i = length buffer
           in pb_write (buffer[i - 1 := buffer ! (i - 1) AND 0x7F]) i)"

definition pb_encode_svarint :: "u64 \<Rightarrow> pb_writer" where
  "pb_encode_svarint value = pb_encode_varint (if value <s 0 then NOT (push_bit 1 value) else push_bit 1 value)"

definition pb_encode_fixed32 :: "u32 \<Rightarrow> pb_writer" where
  "pb_encode_fixed32 val =
     pb_write [ucast (val AND 0xFF), ucast (drop_bit 8 val AND 0xFF), ucast (drop_bit 16 val AND 0xFF), ucast (drop_bit 24 val AND 0xFF)] 4"

definition pb_encode_fixed64 :: "u64 \<Rightarrow> pb_writer" where
  "pb_encode_fixed64 val =
     pb_write [ucast (val AND 0xFF), ucast (drop_bit 8 val AND 0xFF), ucast (drop_bit 16 val AND 0xFF), ucast (drop_bit 24 val AND 0xFF),
       ucast (drop_bit 32 val AND 0xFF), ucast (drop_bit 40 val AND 0xFF), ucast (drop_bit 48 val AND 0xFF), ucast (drop_bit 56 val AND 0xFF)] 8"

definition pb_encode_tag :: "u32 \<Rightarrow> u32 \<Rightarrow> pb_writer" where
  "pb_encode_tag wiretype field_number = pb_encode_varint (push_bit 3 (ucast field_number) OR ucast wiretype)"

definition pb_encode_string :: "byte list \<Rightarrow> pb_writer" where
  "pb_encode_string buffer = pb_seq (pb_encode_varint (word_of_nat (length buffer))) (pb_write buffer (length buffer))"

definition pb_enc_bool :: "bool \<Rightarrow> pb_writer" where
  "pb_enc_bool src = pb_encode_varint (if src then 1 else 0)"

definition store_int :: "u64 option \<Rightarrow> (u64 \<Rightarrow> pb_writer) \<Rightarrow> pb_writer" where
  "store_int value f = (case value of None \<Rightarrow> pb_wfail ''invalid data_size'' | Some v \<Rightarrow> f v)"

definition pb_enc_varint :: "nat \<Rightarrow> u64 \<Rightarrow> pb_writer" where
  "pb_enc_varint data_size src = store_int (signed_field data_size src) pb_encode_varint"

definition pb_enc_uvarint :: "nat \<Rightarrow> u64 \<Rightarrow> pb_writer" where
  "pb_enc_uvarint data_size src = store_int (unsigned_field data_size src) pb_encode_varint"

definition pb_enc_svarint :: "nat \<Rightarrow> u64 \<Rightarrow> pb_writer" where
  "pb_enc_svarint data_size src = store_int (signed_field data_size src) pb_encode_svarint"

text \<open>
  \<open>pb_encode_submessage\<close>; \<open>encode\<close> stands for \<open>pb_encode\<close> on the fields of the submessage, which runs once on
  a stream that only counts and once on the real one.
\<close>

definition pb_encode_submessage :: "pb_writer \<Rightarrow> pb_writer" where
  "pb_encode_submessage encode s =
     (case encode PB_OSTREAM_SIZING of
        (False, sub) \<Rightarrow> (False, s\<lparr>os_errmsg := os_errmsg sub\<rparr>)
      | (True, sub) \<Rightarrow>
          let len = bytes_written sub
          in case pb_encode_varint (word_of_nat len) s of
               (False, s) \<Rightarrow> (False, s)
             | (True, s) \<Rightarrow>
                 if \<not> os_callback s then pb_write [] len s
                 else if (bytes_written s + len) mod size_mod > max_size s then pb_wfail ''stream full'' s
                 else case encode \<lparr>os_callback = True, os_mem = os_mem s, os_state = os_state s, max_size = len,
                                  bytes_written = 0, os_errmsg = None\<rparr> of
                        (status, sub) \<Rightarrow>
                          let s = s\<lparr>bytes_written := (bytes_written s + bytes_written sub) mod size_mod, os_mem := os_mem sub,
                                    os_state := os_state sub, os_errmsg := os_errmsg sub\<rparr>
                          in if bytes_written sub \<noteq> len then pb_wfail ''submsg size changed'' s else (status, s))"

declare varint32_loop.simps [simp del] varint_loop.simps [simp del] pb_skip_varint.simps [simp del] raw_varint_loop.simps [simp del]
  varint_bytes.simps [simp del]

end
