(* ===== verification/Nanopb_Varint.thy ===== *)
theory Nanopb_Varint
  imports Nanopb
begin

text \<open>
  Varints: their canonical bytes \<open>leb\<close>, the encoder, and the 64-bit and 32-bit decoders. \<open>reads g bs x\<close> is the
  contract of a reader.
\<close>

subsection \<open>Varints\<close>

text \<open>The canonical varint of a number: groups of 7 bits, the lowest first, the top bit set on all but the last.\<close>

fun leb :: "nat \<Rightarrow> byte list" where
  "leb n = (if n < 128 then [word_of_nat n] else word_of_nat (n mod 128 + 128) # leb (n div 128))"

declare leb.simps [simp del]

lemma leb_not_Nil [simp]: "leb n \<noteq> []"
  by (subst leb.simps) simp

lemma length_leb: "n < 128 ^ k \<Longrightarrow> 0 < k \<Longrightarrow> length (leb n) \<le> k"
proof (induction n arbitrary: k rule: leb.induct)
  case (1 n)
  show ?case
  proof (cases "n < 128")
    case True
    then show ?thesis using 1 by (simp add: leb.simps [of n])
  next
    case False
    obtain j where k: "k = Suc j" using 1(3) by (cases k) auto
    have k: "k = Suc j" "0 < j" using False 1(2) by (cases j; simp add: k)+
    have "n div 128 < 128 ^ j" using 1(2) by (simp add: k(1) less_mult_imp_div_less mult.commute)
    from "1.IH" [OF False this k(2)] show ?thesis using False by (simp add: leb.simps [of n] k(1))
  qed
qed

lemma length_leb_u64: "length (leb (unat (v :: u64))) \<le> 10"
  using unat_u64_less [of v] by (intro length_leb) simp_all

lemma unat_low7: "unat ((v :: 'a::len word) AND 0x7F) = unat v mod 128"
  using unat_and_mask [of "0x7F" 7 v] by (simp add: mask_eq_exp_minus_1)

lemma byte_top: "(b :: byte) AND 0x80 = 0 \<longleftrightarrow> unat b < 128"
proof -
  have "(0x80 :: byte) = push_bit 7 (mask 1)" by (simp add: mask_eq_exp_minus_1)
  hence "b AND 0x80 = push_bit 7 (take_bit 1 (drop_bit 7 b))" by (simp only: and_push_mask)
  hence "unat (b AND 0x80) = unat b div 128 mod 2 * 128 mod 256" by (simp only: unat_bits) simp
  moreover have "unat b div 128 < 2" using unat_byte_less [of b] by simp
  ultimately have "unat (b AND 0x80) = 0 \<longleftrightarrow> unat b < 128" by (auto simp: div_eq_0_iff)
  thus ?thesis by (simp only: unsigned_eq_0_iff)
qed

lemma group_byte: "(ucast ((v :: u64) AND 0x7F) :: byte) = word_of_nat (unat v mod 128)"
  unfolding word_unat_eq_iff unat_ucast_mod unat_low7 by (simp add: unat_of_nat)

lemma group_marked: "(word_of_nat (n mod 128) :: byte) OR 0x80 = word_of_nat (n mod 128 + 128)"
  using word_or_arith [of "n mod 128" 7 1, where 'a = 8] by (simp add: or.commute add.commute)

lemma varint_bytes_Nil [simp]: "varint_bytes v = [] \<longleftrightarrow> v = 0"
  by (subst varint_bytes.simps) simp

lemma varint_bytes_0 [simp]: "varint_bytes 0 = []"
  by simp

lemma varint_bytes_leb:
  "v \<noteq> 0 \<Longrightarrow> (varint_bytes v)[length (varint_bytes v) - 1 := varint_bytes v ! (length (varint_bytes v) - 1) AND 0x7F] = leb (unat v)"
proof (induction v rule: varint_bytes.induct)
  case (1 v)
  have step: "varint_bytes v = word_of_nat (unat v mod 128 + 128) # varint_bytes (drop_bit 7 v)"
    using 1(2) by (subst varint_bytes.simps) (simp add: group_byte group_marked)
  have d: "unat (drop_bit 7 v) = unat v div 128" by (simp add: unat_drop_bit)
  show ?case
  proof (cases "drop_bit 7 v = 0")
    case True
    hence n: "unat v < 128" using drop_bit_eq_0_iff [of 7 v] by simp
    have "(word_of_nat (unat v + 128) :: byte) AND 0x7F = word_of_nat (unat v)"
      unfolding word_unat_eq_iff unat_low7 unat_of_nat using n by (simp add: mod_mod_cancel)
    thus ?thesis using n by (simp add: step True leb.simps)
  next
    case False
    hence n: "\<not> unat v < 128" using drop_bit_eq_0_iff [of 7 v] by simp
    obtain k where k: "length (varint_bytes (drop_bit 7 v)) = Suc k" using False by (cases "varint_bytes (drop_bit 7 v)") auto
    show ?thesis using 1(1) [OF 1(2) False] n by (simp add: step leb.simps [of "unat v"] d k)
  qed
qed

lemma pb_encode_varint_leb: "pb_encode_varint v = pb_write (leb (unat v)) (length (leb (unat v)))"
proof (cases "v \<le> 0x7F")
  case True
  hence "unat v < 128" using word_le_nat_alt [of v "0x7F"] by simp
  moreover have "(ucast v :: byte) = word_of_nat (unat v)" by simp
  ultimately show ?thesis using True by (simp add: pb_encode_varint_def leb.simps)
next
  case False
  hence "v \<noteq> 0" by auto
  from varint_bytes_leb [OF this] show ?thesis using False
    by (simp add: pb_encode_varint_def Let_def) (metis length_list_update)
qed

subsection \<open>Readers\<close>

text \<open>
  \<open>reads g bs x\<close>: on a stream that starts with \<open>bs\<close>, the reader gives \<open>x\<close> and consumes \<open>bs\<close>, whatever follows.
\<close>

definition window :: "pb_istream_t \<Rightarrow> byte list" where
  "window s = take (bytes_left s) (is_state s)"

definition advance :: "nat \<Rightarrow> pb_istream_t \<Rightarrow> pb_istream_t" where
  "advance n s = s\<lparr>is_state := drop n (is_state s), bytes_left := bytes_left s - n\<rparr>"

definition in_stream :: "pb_istream_t \<Rightarrow> bool" where
  "in_stream s \<longleftrightarrow> bytes_left s \<le> length (is_state s)"

definition reads :: "'a pb_reader \<Rightarrow> byte list \<Rightarrow> 'a \<Rightarrow> bool" where
  "reads g bs x \<longleftrightarrow> (\<forall>s rest. in_stream s \<longrightarrow> window s = bs @ rest \<longrightarrow> g s = (Some x, advance (length bs) s))"

lemma readsD: "reads g bs x \<Longrightarrow> in_stream s \<Longrightarrow> window s = bs @ rest \<Longrightarrow> g s = (Some x, advance (length bs) s)"
  by (simp add: reads_def)

lemma advance_0 [simp]: "advance 0 s = s"
  by (simp add: advance_def)

lemma advance_advance [simp]: "advance m (advance n s) = advance (n + m) s"
  by (simp add: advance_def add.commute)

lemma window_length: "in_stream s \<Longrightarrow> window s = bs @ rest \<Longrightarrow> bytes_left s = length bs + length rest"
  by (metis in_stream_def length_append length_take min.absorb2 window_def)

lemma in_stream_advance [simp]: "in_stream s \<Longrightarrow> in_stream (advance n s)"
  by (auto simp: in_stream_def advance_def)

lemma window_advance: "window (advance n s) = drop n (window s)"
  by (simp add: window_def advance_def drop_take)

lemma window_take: "window s = bs @ rest \<Longrightarrow> in_stream s \<Longrightarrow> take (length bs) (is_state s) = bs"
  by (metis append_eq_conv_conj le_add1 min.absorb1 take_take window_def window_length)

lemma reads_return: "reads (pb_return x) [] x"
  by (simp add: reads_def pb_return_def)

lemma reads_bind: "reads f as x \<Longrightarrow> reads (g x) bs y \<Longrightarrow> reads (pb_bind f g) (as @ bs) y"
  unfolding reads_def pb_bind_def by (auto simp: window_advance)

lemma reads_read: "reads (pb_read (length bs)) bs bs"
  unfolding reads_def
proof (intro allI impI)
  fix s rest
  assume s: "in_stream s" "window s = bs @ rest"
  show "pb_read (length bs) s = (Some bs, advance (length bs) s)"
    using window_length [OF s] window_take [OF s(2,1)]
    by (simp add: pb_read_def buf_read_def advance_def)
qed

lemma reads_byte: "reads pb_readbyte [b] b"
  unfolding reads_def
proof (intro allI impI)
  fix s rest
  assume s: "in_stream s" "window s = [b] @ rest"
  have "take 1 (is_state s) = [b]" using window_take [OF s(2,1)] by simp
  thus "pb_readbyte s = (Some b, advance (length [b]) s)"
    using window_length [OF s] by (simp add: pb_readbyte_def buf_read_def advance_def)
qed

text \<open>A group of 7 bits put above what has been read.\<close>

lemma push_group: "push_bit j (ucast ((b :: byte) AND 0x7F) :: 'a::len word) = word_of_nat (unat b mod 128 * 2 ^ j)"
proof -
  have "(ucast (b AND 0x7F) :: 'a word) = word_of_nat (unat b mod 128)"
    by (simp only: unat_low7 [symmetric] of_nat_unat)
  thus ?thesis by (simp add: push_bit_of_nat push_bit_eq_mult)
qed

lemma or_group:
  "r < 2 ^ j \<Longrightarrow> (word_of_nat r :: 'a::len word) OR push_bit j (ucast ((b :: byte) AND 0x7F)) = word_of_nat (r + unat b mod 128 * 2 ^ j)"
  using word_or_arith [of r j "unat b mod 128"] by (simp add: push_group or.commute add.commute)

lemma leb_byte: "n < 128 \<Longrightarrow> unat (word_of_nat n :: byte) = n" "unat (word_of_nat (n mod 128 + 128) :: byte) = n mod 128 + 128"
proof -
  have "n mod 128 + 128 < 256" using mod_less_divisor [of 128 n] by linarith
  thus "unat (word_of_nat (n mod 128 + 128) :: byte) = n mod 128 + 128" by (simp only: unat_of_nat) simp
qed (simp add: unat_of_nat)

lemma groups_split: "r + (m::nat) mod 128 * 2 ^ j + m div 128 * 2 ^ (j + 7) = r + m * 2 ^ j"
proof -
  have "m div 128 * 2 ^ (j + 7) = m div 128 * 128 * 2 ^ j" by (simp add: power_add)
  hence "m mod 128 * 2 ^ j + m div 128 * 2 ^ (j + 7) = (m div 128 * 128 + m mod 128) * 2 ^ j"
    by (simp only: add_mult_distrib add.commute)
  thus ?thesis by (simp only: div_mult_mod_eq add.assoc)
qed

lemma groups_bound: "r < 2 ^ j \<Longrightarrow> r + (m::nat) mod 128 * 2 ^ j < 2 ^ (j + 7)"
proof -
  assume r: "r < 2 ^ j"
  have "m mod 128 * 2 ^ j \<le> 127 * 2 ^ j" by (intro mult_le_mono1) (simp add: Suc_le_eq [symmetric])
  hence "r + m mod 128 * 2 ^ j < 128 * 2 ^ j" using r by linarith
  thus ?thesis by (simp add: power_add)
qed

lemma reads_varint_loop:
  assumes "bitpos < 64" and top: "unat b < 128 \<Longrightarrow> bs = [] \<and> x = r OR push_bit bitpos (ucast (b AND 0x7F))"
    and more: "128 \<le> unat b \<Longrightarrow> reads (varint_loop (bitpos + 7) (r OR push_bit bitpos (ucast (b AND 0x7F)))) bs x"
  shows "reads (varint_loop bitpos r) (b # bs) x"
  unfolding reads_def
proof (intro allI impI)
  fix s rest
  assume s: "in_stream s" "window s = (b # bs) @ rest"
  have rb: "pb_readbyte s = (Some b, advance 1 s)" using readsD [OF reads_byte s(1), of b "bs @ rest"] s(2) by simp
  have w: "window (advance 1 s) = bs @ rest" using s(2) by (simp add: window_advance)
  show "varint_loop bitpos r s = (Some x, advance (length (b # bs)) s)"
  proof (cases "unat b < 128")
    case True
    thus ?thesis using top [OF True] assms(1) rb by (subst varint_loop.simps) (simp add: byte_top)
  next
    case False
    thus ?thesis using readsD [OF more in_stream_advance [OF s(1)] w] assms(1) rb
      by (subst varint_loop.simps) (simp add: byte_top Let_def)
  qed
qed

lemma reads_varint_from:
  "r < 2 ^ j \<Longrightarrow> r + m * 2 ^ j < 2 ^ 64 \<Longrightarrow> 0 < m \<or> j = 0 \<Longrightarrow>
     reads (varint_loop j (word_of_nat r)) (leb m) (word_of_nat (r + m * 2 ^ j))"
proof (induction m arbitrary: r j rule: leb.induct)
  case (1 m)
  have j: "j < 64"
  proof (rule ccontr)
    assume "\<not> j < 64"
    hence "(2::nat) ^ 64 \<le> 2 ^ j" by (intro power_increasing) simp_all
    moreover have "(2::nat) ^ j \<le> m * 2 ^ j" using 1(4) \<open>\<not> j < 64\<close> by auto
    ultimately show False using 1(3) by linarith
  qed
  show ?case
  proof (cases "m < 128")
    case True
    thus ?thesis unfolding leb.simps [of m] if_P [OF True]
      by (intro reads_varint_loop [OF j]) (simp_all add: or_group [OF 1(2)] leb_byte)
  next
    case False
    let ?r = "r + m mod 128 * 2 ^ j"
    have "?r + m div 128 * 2 ^ (j + 7) < 2 ^ 64" "0 < m div 128 \<or> j + 7 = 0" using 1(3) False by (simp_all only: groups_split) simp
    hence "reads (varint_loop (j + 7) (word_of_nat ?r)) (leb (m div 128)) (word_of_nat (?r + m div 128 * 2 ^ (j + 7)))"
      by (rule "1.IH" [OF False groups_bound [OF 1(2)]])
    hence "reads (varint_loop (j + 7) (word_of_nat ?r)) (leb (m div 128)) (word_of_nat (r + m * 2 ^ j))"
      by (simp only: groups_split)
    moreover have "word_of_nat r OR push_bit j (ucast (word_of_nat (m mod 128 + 128) AND (0x7F :: byte))) = (word_of_nat ?r :: u64)"
      by (simp only: or_group [OF 1(2)] leb_byte mod_add_self2 mod_mod_trivial)
    ultimately have "reads (varint_loop (j + 7) (word_of_nat r OR push_bit j (ucast (word_of_nat (m mod 128 + 128) AND (0x7F :: byte)))))
        (leb (m div 128)) (word_of_nat (r + m * 2 ^ j))" by (simp only:)
    note more = this
    have top: "\<not> unat (word_of_nat (m mod 128 + 128) :: byte) < 128" by (simp only: leb_byte)
    have "reads (varint_loop j (word_of_nat r)) (word_of_nat (m mod 128 + 128) # leb (m div 128)) (word_of_nat (r + m * 2 ^ j))"
      apply (rule reads_varint_loop [OF j _ more])
      using top apply blast
      done
    thus ?thesis by (simp only: leb.simps [of m] if_not_P [OF False])
  qed
qed

lemma reads_varint: "reads pb_decode_varint (leb (unat v)) v"
  using reads_varint_from [of 0 0 "unat v"] unat_u64_less [of v] by (simp add: pb_decode_varint_def)

subsection \<open>32-bit varints\<close>

lemma byte_mid: "unat (b :: byte) < 128 \<Longrightarrow> b AND 0x70 = 0 \<longleftrightarrow> unat b < 16"
proof -
  assume b: "unat b < 128"
  have "(0x70 :: byte) = push_bit 4 (mask 3)" by (simp add: mask_eq_exp_minus_1)
  hence "b AND 0x70 = push_bit 4 (take_bit 3 (drop_bit 4 b))" by (simp only: and_push_mask)
  hence "unat (b AND 0x70) = unat b div 16 mod 8 * 16 mod 256" by (simp only: unat_bits) simp
  moreover have "unat b div 16 < 8" using b by simp
  ultimately have "unat (b AND 0x70) = 0 \<longleftrightarrow> unat b < 16" by (auto simp: div_eq_0_iff)
  thus ?thesis by (simp only: unsigned_eq_0_iff)
qed

lemma low7_0: "(b :: byte) AND 0x7F = 0 \<longleftrightarrow> unat b mod 128 = 0"
  by (simp only: unat_low7 [symmetric] unsigned_eq_0_iff)

text \<open>The test the loop makes for a byte above bit 31.\<close>

definition too_large :: "nat \<Rightarrow> u32 \<Rightarrow> byte \<Rightarrow> bool" where
  "too_large j r b \<longleftrightarrow> 32 \<le> j \<and> unat b mod 128 \<noteq> 0 \<and> (drop_bit 31 r = 0 \<or> b \<noteq> (if j < 63 then 0xFF else 0x01))"

lemma varint32_step:
  assumes "in_stream s" "window s = b # rest"
  shows "varint32_loop j r s =
     (let r' = (if 32 \<le> j then r else r OR push_bit j (ucast (b AND 0x7F))); s' = advance 1 s
      in if too_large j r b then pb_fail ''varint overflow'' s'
         else if 128 \<le> unat b then varint32_loop ((j + 7) mod 256) r' s' else (Some (r', b, (j + 7) mod 256), s'))"
proof -
  have "pb_readbyte s = (Some b, advance 1 s)" using readsD [OF reads_byte assms(1), of b rest] assms(2) by simp
  moreover have "32 \<le> j \<and> b AND 0x7F \<noteq> 0 \<and> (drop_bit 31 r = 0 \<or> b \<noteq> (if j < 63 then 0xFF else 0x01)) \<longleftrightarrow> too_large j r b"
    by (simp only: too_large_def low7_0)
  ultimately show ?thesis by (subst varint32_loop.simps) (simp only: option.case prod.case Let_def byte_top not_less)
qed

lemma varint32_exact:
  "r < 2 ^ j \<Longrightarrow> r + m * 2 ^ j < 2 ^ 32 \<Longrightarrow> 0 < m \<Longrightarrow> in_stream s \<Longrightarrow> window s = leb m @ rest \<Longrightarrow>
     \<exists>b i. varint32_loop j (word_of_nat r) s = (Some (word_of_nat (r + m * 2 ^ j), b, i), advance (length (leb m)) s) \<and>
       unat b < 128 \<and> (i = 35 \<longrightarrow> unat b < 16)"
proof (induction m arbitrary: r j s rule: leb.induct)
  case (1 m)
  have j: "j < 32"
  proof (rule ccontr)
    assume "\<not> j < 32"
    hence "(2::nat) ^ 32 \<le> 2 ^ j" by (intro power_increasing) simp_all
    moreover have "(2::nat) ^ j \<le> m * 2 ^ j" using 1(4) by simp
    ultimately show False using 1(3) by linarith
  qed
  show ?case
  proof (cases "m < 128")
    case True
    have w: "window s = word_of_nat m # rest" using 1(6) True by (simp add: leb.simps [of m])
    have "m < 16" if "j = 28" using 1(3) that by simp
    thus ?thesis using j True
      by (simp add: varint32_step [OF 1(5) w] too_large_def or_group [OF 1(2)] leb_byte leb.simps [of m] Let_def)
  next
    case False
    let ?b = "word_of_nat (m mod 128 + 128) :: byte" and ?r = "r + m mod 128 * 2 ^ j"
    have w: "window s = ?b # (leb (m div 128) @ rest)" using 1(6) False by (simp add: leb.simps [of m])
    have g: "word_of_nat r OR push_bit j (ucast (?b AND 0x7F)) = (word_of_nat ?r :: u32)"
      by (simp only: or_group [OF 1(2)] leb_byte mod_add_self2 mod_mod_trivial)
    have "varint32_loop j (word_of_nat r) s = varint32_loop (j + 7) (word_of_nat ?r) (advance 1 s)"
      using j by (simp add: varint32_step [OF 1(5) w] too_large_def g leb_byte Let_def del: of_nat_add)
    moreover have b: "?r + m div 128 * 2 ^ (j + 7) < 2 ^ 32" using 1(3) by (simp only: groups_split)
    have d: "0 < m div 128" using False by simp
    have w': "window (advance 1 s) = leb (m div 128) @ rest" using w by (simp add: window_advance)
    have "\<exists>b i. varint32_loop (j + 7) (word_of_nat ?r) (advance 1 s) =
        (Some (word_of_nat (r + m * 2 ^ j), b, i), advance (length (leb (m div 128))) (advance 1 s)) \<and> unat b < 128 \<and> (i = 35 \<longrightarrow> unat b < 16)"
      using "1.IH" [OF False groups_bound [OF 1(2)] b d in_stream_advance [OF 1(5)] w'] by (simp only: groups_split)
    moreover have "advance (length (leb (m div 128))) (advance 1 s) = advance (length (leb m)) s"
      using False by (simp add: leb.simps [of m])
    ultimately show ?thesis by (simp only:)
  qed
qed

text \<open>Above bit 31, whatever is not zero ends in a byte that is refused.\<close>

lemma varint32_refused:
  "35 \<le> j \<Longrightarrow> m * 2 ^ j < 2 ^ 63 \<Longrightarrow> 0 < m \<Longrightarrow> in_stream s \<Longrightarrow> window s = leb m @ rest \<Longrightarrow> fst (varint32_loop j r s) = None"
proof (induction m arbitrary: j s r rule: leb.induct)
  case (1 m)
  have j: "j < 63"
  proof (rule ccontr)
    assume "\<not> j < 63"
    hence "(2::nat) ^ 63 \<le> 2 ^ j" by (intro power_increasing) simp_all
    moreover have "(2::nat) ^ j \<le> m * 2 ^ j" using 1(4) by simp
    ultimately show False using 1(3) by linarith
  qed
  show ?case
  proof (cases "m < 128")
    case True
    have w: "window s = word_of_nat m # rest" using 1(6) True by (simp add: leb.simps [of m])
    have "(word_of_nat m :: byte) \<noteq> 0xFF" using leb_byte(1) [OF True] True by auto
    thus ?thesis using 1(2,4) j True by (simp add: varint32_step [OF 1(5) w] too_large_def leb_byte pb_fail_def Let_def)
  next
    case False
    let ?b = "word_of_nat (m mod 128 + 128) :: byte"
    have w: "window s = ?b # (leb (m div 128) @ rest)" using 1(6) False by (simp add: leb.simps [of m])
    have "m div 128 * 2 ^ (j + 7) \<le> m * 2 ^ j" using groups_split [of 0 m j] by linarith
    moreover have "window (advance 1 s) = leb (m div 128) @ rest" using w by (simp add: window_advance)
    ultimately have "fst (varint32_loop (j + 7) r (advance 1 s)) = None" for r
      using "1.IH" [OF False, of "j + 7" "advance 1 s" r] 1 False by simp
    thus ?thesis using 1(2) j by (simp add: varint32_step [OF 1(5) w] leb_byte pb_fail_def Let_def del: of_nat_add)
  qed
qed

lemma varint32_out_of_range:
  "r < 2 ^ j \<Longrightarrow> 2 ^ 32 \<le> r + m * 2 ^ j \<Longrightarrow> r + m * 2 ^ j < 2 ^ 63 \<Longrightarrow> j \<in> {7, 14, 21, 28} \<Longrightarrow> in_stream s \<Longrightarrow>
     window s = leb m @ rest \<Longrightarrow>
     fst (varint32_loop j (word_of_nat r) s) = None \<or>
       (\<exists>x b s'. varint32_loop j (word_of_nat r) s = (Some (x, b, 35), s') \<and> 16 \<le> unat b \<and> unat b < 128)"
proof (induction m arbitrary: r j s rule: leb.induct)
  case (1 m)
  have j: "j < 32" "j \<le> 28" using 1(5) by auto
  show ?case
  proof (cases "m < 128")
    case True
    have w: "window s = word_of_nat m # rest" using 1(7) True by (simp add: leb.simps [of m])
    have "j = 28 \<and> 16 \<le> m" using 1(2,3,5) True by auto
    thus ?thesis using True
      by (simp add: varint32_step [OF 1(6) w] too_large_def leb_byte Let_def)
  next
    case False
    let ?b = "word_of_nat (m mod 128 + 128) :: byte" and ?r = "r + m mod 128 * 2 ^ j"
    have w: "window s = ?b # (leb (m div 128) @ rest)" using 1(7) False by (simp add: leb.simps [of m])
    have g: "word_of_nat r OR push_bit j (ucast (?b AND 0x7F)) = (word_of_nat ?r :: u32)"
      by (simp only: or_group [OF 1(2)] leb_byte mod_add_self2 mod_mod_trivial)
    have e: "varint32_loop j (word_of_nat r) s = varint32_loop (j + 7) (word_of_nat ?r) (advance 1 s)"
      using j by (simp add: varint32_step [OF 1(6) w] too_large_def g leb_byte Let_def del: of_nat_add)
    have w': "window (advance 1 s) = leb (m div 128) @ rest" using w by (simp add: window_advance)
    have b: "2 ^ 32 \<le> ?r + m div 128 * 2 ^ (j + 7)" "?r + m div 128 * 2 ^ (j + 7) < 2 ^ 63"
      using 1(3,4) by (simp_all only: groups_split)
    show ?thesis
    proof (cases "j = 28")
      case True
      have "fst (varint32_loop (j + 7) (word_of_nat ?r) (advance 1 s)) = None"
        by (rule varint32_refused [OF _ _ _ in_stream_advance [OF 1(6)] w']) (use True b False in simp_all)
      thus ?thesis unfolding e by simp
    next
      case j28: False
      hence "j + 7 \<in> {7, 14, 21, 28}" using 1(5) by auto
      from "1.IH" [OF False groups_bound [OF 1(2)] b this in_stream_advance [OF 1(6)] w'] show ?thesis by (simp only: e)
    qed
  qed
qed

text \<open>From the fifth group on, a varint of \<open>2 ^ 35\<close> or more leaves its upper groups to be checked.\<close>

lemma varint32_low:
  "r < 2 ^ j \<Longrightarrow> 2 ^ 35 \<le> r + m * 2 ^ j \<Longrightarrow> j \<in> {7, 14, 21, 28} \<Longrightarrow> in_stream s \<Longrightarrow> window s = leb m @ rest \<Longrightarrow>
     \<exists>k. varint32_loop j (word_of_nat r) s = varint32_loop 35 (word_of_nat ((r + m * 2 ^ j) mod 2 ^ 35)) (advance k s) \<and>
       window (advance k s) = leb ((r + m * 2 ^ j) div 2 ^ 35) @ rest \<and> k + length (leb ((r + m * 2 ^ j) div 2 ^ 35)) = length (leb m)"
proof (induction m arbitrary: r j s rule: leb.induct)
  case (1 m)
  have j: "j < 32" using 1(4) by auto
  have "\<not> m < 128"
  proof
    assume "m < 128"
    hence "r + m * 2 ^ j < 2 ^ (j + 7)" using groups_bound [OF 1(2), of m] by simp
    also have "\<dots> \<le> 2 ^ 35" using 1(4) by auto
    finally show False using 1(3) by simp
  qed
  note False = this
  let ?b = "word_of_nat (m mod 128 + 128) :: byte" and ?r = "r + m mod 128 * 2 ^ j" and ?n = "r + m * 2 ^ j"
  have w: "window s = ?b # (leb (m div 128) @ rest)" using 1(6) False by (simp add: leb.simps [of m])
  have g: "word_of_nat r OR push_bit j (ucast (?b AND 0x7F)) = (word_of_nat ?r :: u32)"
    by (simp only: or_group [OF 1(2)] leb_byte mod_add_self2 mod_mod_trivial)
  have e: "varint32_loop j (word_of_nat r) s = varint32_loop (j + 7) (word_of_nat ?r) (advance 1 s)"
    using j by (simp add: varint32_step [OF 1(5) w] too_large_def g leb_byte Let_def del: of_nat_add)
  have w': "window (advance 1 s) = leb (m div 128) @ rest" using w by (simp add: window_advance)
  have len: "length (leb m) = Suc (length (leb (m div 128)))" using False by (simp add: leb.simps [of m])
  show ?case
  proof (cases "j = 28")
    case True
    have n: "?n = ?r + m div 128 * 2 ^ 35" using groups_split [of r m j] True by simp
    have "?r < 2 ^ 35" using groups_bound [OF 1(2), of m] True by simp
    hence "?n mod 2 ^ 35 = ?r" "?n div 2 ^ 35 = m div 128" unfolding n by simp_all
    thus ?thesis using e w' len True by (intro exI [of _ 1]) (simp del: of_nat_add)
  next
    case j28: False
    hence j': "j + 7 \<in> {7, 14, 21, 28}" using 1(4) by auto
    have b: "2 ^ 35 \<le> ?r + m div 128 * 2 ^ (j + 7)" using 1(3) by (simp only: groups_split)
    from "1.IH" [OF False groups_bound [OF 1(2)] b j' in_stream_advance [OF 1(5)] w'] obtain k where
      "varint32_loop (j + 7) (word_of_nat ?r) (advance 1 s) = varint32_loop 35 (word_of_nat (?n mod 2 ^ 35)) (advance k (advance 1 s))"
      "window (advance k (advance 1 s)) = leb (?n div 2 ^ 35) @ rest" "k + length (leb (?n div 2 ^ 35)) = length (leb (m div 128))"
      unfolding groups_split by blast
    thus ?thesis unfolding e using len by (intro exI [of _ "Suc k"]) simp
  qed
qed

text \<open>
  The bytes above bit 34 of a number with bit 63 set, where \<open>gs\<close> are the groups below bit 63. They are
  accepted when bit 31 of the result is set and every group is 0 or all ones.
\<close>

lemma varint32_high:
  "j + 7 * length gs = 63 \<Longrightarrow> 32 \<le> j \<Longrightarrow> \<forall>g \<in> set gs. g < 128 \<Longrightarrow> in_stream s \<Longrightarrow>
     window s = map (\<lambda>g. word_of_nat (g + 128)) gs @ 1 # rest \<Longrightarrow>
     (if drop_bit 31 r \<noteq> 0 \<and> set gs \<subseteq> {0, 127} then varint32_loop j r s = (Some (r, 1, 70), advance (Suc (length gs)) s)
      else fst (varint32_loop j r s) = None)"
proof (induction gs arbitrary: j s)
  case Nil
  have w: "window s = 1 # rest" using Nil.prems(5) by simp
  show ?case using Nil.prems(1) by (simp add: varint32_step [OF Nil.prems(4) w] too_large_def pb_fail_def Let_def)
next
  case (Cons g gs)
  let ?b = "word_of_nat (g + 128) :: byte"
  have w: "window s = ?b # (map (\<lambda>g. word_of_nat (g + 128)) gs @ 1 # rest)" using Cons.prems(5) by simp
  have w': "window (advance 1 s) = map (\<lambda>g. word_of_nat (g + 128)) gs @ 1 # rest" unfolding window_advance w by simp
  have g: "g < 128" using Cons.prems(3) by simp
  hence u: "unat ?b = g + 128" by (simp only: unat_of_nat) simp
  hence ff: "?b = 0xFF \<longleftrightarrow> g = 127" by (simp add: word_unat_eq_iff)
  have j: "j < 63" "32 \<le> j" "(j + 7) mod 256 = j + 7" using Cons.prems(1,2) by simp_all
  have "too_large j r ?b \<longleftrightarrow> g \<noteq> 0 \<and> (drop_bit 31 r = 0 \<or> g \<noteq> 127)"
    using j(1,2) g by (simp only: too_large_def u ff if_True) simp
  hence step: "varint32_loop j r s = (if g \<noteq> 0 \<and> (drop_bit 31 r = 0 \<or> g \<noteq> 127) then pb_fail ''varint overflow'' (advance 1 s)
      else varint32_loop (j + 7) r (advance 1 s))"
    using j by (simp add: varint32_step [OF Cons.prems(4) w] Let_def u del: of_nat_add)
  have IH: "if drop_bit 31 r \<noteq> 0 \<and> set gs \<subseteq> {0, 127}
      then varint32_loop (j + 7) r (advance 1 s) = (Some (r, 1, 70), advance (Suc (length gs)) (advance 1 s))
      else fst (varint32_loop (j + 7) r (advance 1 s)) = None"
    by (rule Cons.IH) (use Cons.prems w' in simp_all)
  show ?case
  proof (cases "g \<noteq> 0 \<and> (drop_bit 31 r = 0 \<or> g \<noteq> 127)")
    case True
    thus ?thesis by (auto simp: step pb_fail_def)
  next
    case False
    hence c: "drop_bit 31 r \<noteq> 0 \<and> set (g # gs) \<subseteq> {0, 127} \<longleftrightarrow> drop_bit 31 r \<noteq> 0 \<and> set gs \<subseteq> {0, 127}" by auto
    have a: "advance (Suc (length gs)) (advance 1 s) = advance (Suc (length (g # gs))) s" by simp
    show ?thesis using IH unfolding c step if_not_P [OF False] a .
  qed
qed

lemma leb_groups:
  assumes "2 ^ 28 \<le> m" and "m < 2 ^ 29"
  shows "leb m = map (\<lambda>g. word_of_nat (g + 128)) [m mod 128, m div 2 ^ 7 mod 128, m div 2 ^ 14 mod 128, m div 2 ^ 21 mod 128] @ [1]"
proof -
  have s: "leb n = word_of_nat (n mod 128 + 128) # leb (n div 128)" if "128 \<le> n" for n using that by (simp add: leb.simps [of n])
  have d: "m div 128 div 128 = m div 2 ^ 14" "m div 2 ^ 14 div 128 = m div 2 ^ 21" "m div 2 ^ 21 div 128 = m div 2 ^ 28"
    "m div 128 = m div 2 ^ 7"
    by (simp_all add: div_mult2_eq [symmetric])
  have b: "128 \<le> m" "128 \<le> m div 2 ^ 7" "128 \<le> m div 2 ^ 14" "128 \<le> m div 2 ^ 21"
    using assms(1) by (simp_all add: less_eq_div_iff_mult_less_eq)
  have "m div 2 ^ 28 = 1" using assms by (intro div_nat_eqI) simp_all
  hence l: "leb (m div 2 ^ 28) = [1]" by (simp add: leb.simps)
  show ?thesis
    by (simp only: s [OF b(1)] d(4) s [OF b(2)] d(1) [unfolded d(4)] s [OF b(3)] d(2) s [OF b(4)] d(3) l list.map append.simps)
qed

text \<open>
  The numbers whose canonical varint \<open>pb_decode_varint32\<close> accepts: those of 32 bits, and those with bits 63
  and 31 set in which every whole group of 7 bits between them is 0 or all ones. The negative 32-bit numbers,
  sent as their 64-bit extension, are among the latter; bits 32 to 34 may be anything.
\<close>

definition accepts32 :: "nat \<Rightarrow> bool" where
  "accepts32 n \<longleftrightarrow>
     n < 2 ^ 32 \<or> 2 ^ 63 \<le> n \<and> odd (n div 2 ^ 31) \<and> (\<forall>j \<in> {35, 42, 49, 56}. n div 2 ^ j mod 128 \<in> {0, 127})"

lemma bit31: "odd (n div 2 ^ 31) \<longleftrightarrow> drop_bit 31 (word_of_nat n :: u32) \<noteq> 0"
proof -
  have "n mod (2 ^ 31 * 2) = 2 ^ 31 * (n div 2 ^ 31 mod 2) + n mod 2 ^ 31" by (rule mod_mult2_eq)
  moreover have "n mod 2 ^ 31 < 2 ^ 31" by simp
  ultimately have "2 ^ 31 \<le> n mod 2 ^ 32 \<longleftrightarrow> odd (n div 2 ^ 31)" by (cases "odd (n div 2 ^ 31)") (simp_all add: odd_iff_mod_2_eq_one)
  thus ?thesis by (simp only: drop_bit_eq_0_iff unat_of_nat not_less) simp
qed

lemma accepts32_negative:
  assumes "2 ^ 64 - 2 ^ 31 \<le> n" and "n < 2 ^ 64"
  shows "accepts32 n"
proof -
  have d: "n div 2 ^ j = 2 ^ (64 - j) - 1" if "j \<in> {31, 35, 42, 49, 56}" for j
    by (rule div_nat_eqI) (use assms that in auto)
  have "n div 2 ^ 31 = 2 ^ 33 - 1" using d [of 31] by simp
  hence "odd (n div 2 ^ 31)" by (simp only:) simp
  moreover have "\<forall>j \<in> {35, 42, 49, 56}. n div 2 ^ j mod 128 \<in> {0, 127}" using d by simp
  moreover have "2 ^ 63 \<le> n" using assms by simp
  ultimately show ?thesis unfolding accepts32_def by blast
qed

lemma varint32_large:
  assumes n: "2 ^ 63 \<le> n" "n < 2 ^ 64" and s: "in_stream s" "window s = leb (n div 128) @ rest"
  shows "if accepts32 n
    then varint32_loop 7 (word_of_nat (n mod 128)) s = (Some (word_of_nat n, 1, 70), advance (length (leb (n div 128))) s)
    else fst (varint32_loop 7 (word_of_nat (n mod 128)) s) = None"
proof -
  let ?m = "n div 2 ^ 35" and ?r = "word_of_nat (n mod 2 ^ 35) :: u32"
  let ?gs = "[?m mod 128, ?m div 2 ^ 7 mod 128, ?m div 2 ^ 14 mod 128, ?m div 2 ^ 21 mod 128]"
  have nn: "n mod 128 + n div 128 * 2 ^ 7 = n" by simp
  have "2 ^ 35 \<le> n" using n(1) by simp
  then obtain k where k: "varint32_loop 7 (word_of_nat (n mod 128)) s = varint32_loop 35 ?r (advance k s)"
    "window (advance k s) = leb ?m @ rest" "k + length (leb ?m) = length (leb (n div 128))"
    using varint32_low [of "n mod 128" 7 "n div 128" s rest, unfolded nn] s by auto
  have "2 ^ 28 \<le> ?m" "?m < 2 ^ 29" using n by (simp_all add: less_eq_div_iff_mult_less_eq less_mult_imp_div_less)
  note l = leb_groups [OF this]
  have r: "?r = word_of_nat n"
  proof -
    have "n mod 2 ^ 35 = take_bit 35 n" by (rule take_bit_eq_mod [symmetric])
    thus ?thesis unfolding word_of_nat_eq_iff by (simp only: take_bit_take_bit) simp
  qed
  have "set ?gs \<subseteq> {0, 127} \<longleftrightarrow> (\<forall>j \<in> {35, 42, 49, 56}. n div 2 ^ j mod 128 \<in> {0, 127})"
    by (simp add: div_mult2_eq [symmetric])
  hence acc: "drop_bit 31 ?r \<noteq> 0 \<and> set ?gs \<subseteq> {0, 127} \<longleftrightarrow> accepts32 n" using n(1) unfolding r accepts32_def bit31 by auto
  have "window (advance k s) = map (\<lambda>g. word_of_nat (g + 128)) ?gs @ 1 # rest" unfolding k(2) l by simp
  note high = varint32_high [OF _ _ _ in_stream_advance [OF s(1)] this]
  have h: "if accepts32 n then varint32_loop 35 ?r (advance k s) = (Some (?r, 1, 70), advance (Suc (length ?gs)) (advance k s))
      else fst (varint32_loop 35 ?r (advance k s)) = None" unfolding acc [symmetric] by (rule high) simp_all
  have "advance (Suc (length ?gs)) (advance k s) = advance (length (leb (n div 128))) s"
    unfolding k(3) [symmetric] l by simp
  thus ?thesis using h unfolding k(1) r by simp
qed

text \<open>What \<open>pb_decode_varint32_eof\<close> does with a canonical varint.\<close>

lemma varint32_eof_leb:
  assumes s: "in_stream s" "window s = leb n @ rest"
  shows "n < 2 ^ 64 \<Longrightarrow> accepts32 n \<Longrightarrow>
      pb_decode_varint32_eof s = (Some (word_of_nat n), False, advance (length (leb n)) s)"
    and "n < 2 ^ 64 \<Longrightarrow> \<not> accepts32 n \<Longrightarrow> fst (pb_decode_varint32_eof s) = None \<and> fst (snd (pb_decode_varint32_eof s)) = False"
proof -
  have byte: "pb_readbyte s = (Some b, advance 1 s)" if "window s = b # w" for b w
    using readsD [OF reads_byte s(1), of b w] that by simp
  let ?b = "word_of_nat (n mod 128 + 128) :: byte" and ?r = "n mod 128" and ?m = "n div 128"
  have big: "pb_decode_varint32_eof s =
      (case varint32_loop 7 (word_of_nat ?r) (advance 1 s) of
         (None, s) \<Rightarrow> (None, False, s)
       | (Some (result, b, bitpos), s) \<Rightarrow>
           if bitpos = 35 \<and> b AND 0x70 \<noteq> 0
           then (case pb_fail ''varint overflow'' s of (_ :: u32 option, s) \<Rightarrow> (None, False, s))
           else (Some result, False, s))" and w: "window (advance 1 s) = leb ?m @ rest"
    and len: "advance (length (leb ?m)) (advance 1 s) = advance (length (leb n)) s" if "\<not> n < 128"
  proof -
    have "window s = ?b # (leb ?m @ rest)" using s(2) that by (simp add: leb.simps [of n])
    from byte [OF this] this that show "window (advance 1 s) = leb ?m @ rest"
      "advance (length (leb ?m)) (advance 1 s) = advance (length (leb n)) s"
      by (simp_all add: window_advance leb.simps [of n])
    have "(ucast (?b AND 0x7F) :: u32) = word_of_nat ?r"
      using push_group [of 0 ?b, where 'a = 32] leb_byte(2) [of n] by (simp del: of_nat_add)
    moreover have "\<not> ?b AND 0x80 = 0" by (simp only: byte_top leb_byte)
    ultimately show "pb_decode_varint32_eof s =
      (case varint32_loop 7 (word_of_nat ?r) (advance 1 s) of
         (None, s) \<Rightarrow> (None, False, s)
       | (Some (result, b, bitpos), s) \<Rightarrow>
           if bitpos = 35 \<and> b AND 0x70 \<noteq> 0
           then (case pb_fail ''varint overflow'' s of (_ :: u32 option, s) \<Rightarrow> (None, False, s))
           else (Some result, False, s))"
      using \<open>pb_readbyte s = (Some ?b, advance 1 s)\<close> by (simp only: pb_decode_varint32_eof_def option.case prod.case if_False)
  qed
  have n: "?r + ?m * 2 ^ 7 = n" by simp
  have r: "?r < 2 ^ 7" by simp
  note s1 = in_stream_advance [OF s(1), of 1]
  show "pb_decode_varint32_eof s = (Some (word_of_nat n), False, advance (length (leb n)) s)"
    if h: "n < 2 ^ 64" "accepts32 n"
  proof (cases "n < 128")
    case True
    have "window s = word_of_nat n # rest" using s(2) True by (simp add: leb.simps [of n])
    from byte [OF this] show ?thesis using True leb_byte(1) [OF True]
      by (simp add: pb_decode_varint32_eof_def byte_top leb.simps [of n]) (simp add: word_unat_eq_iff unat_ucast_mod unat_of_nat)
  next
    case False
    show ?thesis
    proof (cases "n < 2 ^ 32")
      case True
      have "0 < ?m" using False by simp
      from varint32_exact [OF r _ this s1 w [OF False], unfolded n, OF True] obtain b i where
        "varint32_loop 7 (word_of_nat ?r) (advance 1 s) = (Some (word_of_nat n, b, i), advance (length (leb ?m)) (advance 1 s))"
        "unat b < 128" "i = 35 \<longrightarrow> unat b < 16" by blast
      thus ?thesis using big [OF False] len [OF False] by (auto simp: byte_mid)
    next
      case False32: False
      hence "2 ^ 63 \<le> n" using h(2) by (simp add: accepts32_def)
      from varint32_large [OF this h(1) s1 w [OF False]] show ?thesis using big [OF False] len [OF False] h(2) by simp
    qed
  qed
  show "fst (pb_decode_varint32_eof s) = None \<and> fst (snd (pb_decode_varint32_eof s)) = False" if h: "n < 2 ^ 64" "\<not> accepts32 n"
  proof -
    have h32: "2 ^ 32 \<le> n" using h(2) by (simp add: accepts32_def)
    hence nb: "\<not> n < 128" by simp
    have "fst (varint32_loop 7 (word_of_nat ?r) (advance 1 s)) = None \<or>
      (\<exists>x b s'. varint32_loop 7 (word_of_nat ?r) (advance 1 s) = (Some (x, b, 35), s') \<and> 16 \<le> unat b \<and> unat b < 128)"
    proof (cases "n < 2 ^ 63")
      case True
      from varint32_out_of_range [OF r _ _ _ s1 w [OF nb], unfolded n, OF h32 True] show ?thesis by simp
    next
      case False
      then show ?thesis using varint32_large [OF _ h(1) s1 w [OF nb]] h(2) by simp
    qed
    then consider "fst (varint32_loop 7 (word_of_nat ?r) (advance 1 s)) = None"
      | x b s' where "varint32_loop 7 (word_of_nat ?r) (advance 1 s) = (Some (x, b, 35), s')" "16 \<le> unat b" "unat b < 128" by auto
    thus ?thesis
    proof cases
      case 1
      thus ?thesis using big [OF nb] by (cases "varint32_loop 7 (word_of_nat ?r) (advance 1 s)") auto
    next
      case 2
      thus ?thesis using big [OF nb] by (simp add: byte_mid pb_fail_def)
    qed
  qed
qed

lemma reads_varint32: "n < 2 ^ 32 \<Longrightarrow> reads pb_decode_varint32 (leb n) (word_of_nat n)"
  by (simp add: reads_def pb_decode_varint32_def varint32_eof_leb accepts32_def)

lemma reads_varint32_word: "reads pb_decode_varint32 (leb (unat (v :: u32))) v"
  using reads_varint32 [of "unat v"] unat_u32_less [of v] by simp

subsection \<open>Over-long varints\<close>

text \<open>Empty groups do not change the value; the bit position wraps after 256 bits in the 32-bit decoder.\<close>

lemma varint32_zeros:
  "j < 256 \<Longrightarrow> in_stream s \<Longrightarrow> window s = replicate n 0x80 @ rest \<Longrightarrow>
     varint32_loop j 0 s = varint32_loop ((j + 7 * n) mod 256) 0 (advance n s)"
proof (induction n arbitrary: j s)
  case (Suc n)
  have w: "window s = 0x80 # (replicate n 0x80 @ rest)" using Suc.prems(3) by simp
  have "varint32_loop j 0 s = varint32_loop ((j + 7) mod 256) 0 (advance 1 s)"
    by (simp add: varint32_step [OF Suc.prems(2) w] too_large_def)
  also have "\<dots> = varint32_loop (((j + 7) mod 256 + 7 * n) mod 256) 0 (advance n (advance 1 s))"
    by (rule Suc.IH) (use Suc.prems(2) w in \<open>simp_all add: window_advance\<close>)
  also have "((j + 7) mod 256 + 7 * n) mod 256 = (j + 7 * Suc n) mod 256" by (simp add: mod_simps add.assoc)
  finally show ?case by simp
qed simp

lemma varint_zeros:
  "in_stream s \<Longrightarrow> window s = replicate n 0x80 @ rest \<Longrightarrow> j + 7 * n < 64 + 7 \<Longrightarrow>
     varint_loop j 0 s = varint_loop (j + 7 * n) 0 (advance n s)"
proof (induction n arbitrary: j s)
  case (Suc n)
  have w: "window s = 0x80 # (replicate n 0x80 @ rest)" using Suc.prems(2) by simp
  have "pb_readbyte s = (Some 0x80, advance 1 s)" using readsD [OF reads_byte Suc.prems(1), of "0x80"] w by simp
  then have "varint_loop j 0 s = varint_loop (j + 7) 0 (advance 1 s)" using Suc.prems(3) by (subst varint_loop.simps) simp
  also have "\<dots> = varint_loop (j + 7 + 7 * n) 0 (advance n (advance 1 s))"
    by (rule Suc.IH) (use Suc.prems w in \<open>simp_all add: window_advance\<close>)
  finally show ?case by (simp add: add.assoc)
qed simp

lemma varint32_overlong:
  assumes s: "in_stream s" "window s = replicate (Suc k) 0x80 @ [b]" and b: "unat b < 128"
  defines "j \<equiv> 7 * Suc k mod 256"
  shows "fst (pb_decode_varint32 s) =
    (if j < 32 then (if j = 28 \<and> 16 \<le> unat b then None else Some (push_bit j (ucast b))) else if b = 0 then Some 0 else None)"
proof -
  let ?w = "replicate k 0x80 @ [b]"
  have rb: "pb_readbyte s = (Some 0x80, advance 1 s)" using readsD [OF reads_byte s(1), of "0x80" ?w] s(2) by simp
  note s1 = in_stream_advance [OF s(1), of 1]
  have w1: "window (advance 1 s) = ?w" using s(2) by (simp add: window_advance)
  have j: "(7 + 7 * k) mod 256 = j" "j < 256" by (simp_all add: j_def)
  define t where "t = advance k (advance 1 s)"
  have l: "varint32_loop 7 0 (advance 1 s) = varint32_loop j 0 t"
    unfolding t_def using varint32_zeros [OF _ s1 w1, of 7] j(1) by simp
  have t: "in_stream t" "window t = b # []" unfolding t_def window_advance [of k] w1 using s(1) by simp_all
  have low: "b AND 0x7F = b" unfolding word_unat_eq_iff unat_low7 using b by simp
  have z: "unat b mod 128 = 0 \<longleftrightarrow> b = 0" using b by (simp add: unsigned_eq_0_iff)
  have tl: "too_large j 0 b \<longleftrightarrow> 32 \<le> j \<and> b \<noteq> 0" by (simp only: too_large_def z) simp
  have nb: "\<not> 128 \<le> unat b" using b by simp
  define i where "i = (j + 7) mod 256"
  have i: "i = 35 \<longleftrightarrow> j = 28" 
  proof (cases "j + 7 < 256")
    case False
    hence "i = j + 7 - 256" using j(2) by (simp add: i_def le_mod_geq)
    thus ?thesis using False j(2) by simp
  qed (simp add: i_def)
  have step: "varint32_loop j 0 t =
      (if 32 \<le> j \<and> b \<noteq> 0 then pb_fail ''varint overflow'' (advance 1 t)
       else (Some (if 32 \<le> j then 0 else push_bit j (ucast b), b, i), advance 1 t))"
    unfolding varint32_step [OF t] Let_def tl low if_not_P [OF nb] i_def by simp
  have "pb_decode_varint32_eof s =
      (case varint32_loop j 0 t of
         (None, s) \<Rightarrow> (None, False, s)
       | (Some (result, b, bitpos), s) \<Rightarrow>
           if bitpos = 35 \<and> b AND 0x70 \<noteq> 0
           then (case pb_fail ''varint overflow'' s of (_ :: u32 option, s) \<Rightarrow> (None, False, s))
           else (Some result, False, s))"
    using rb l by (simp add: pb_decode_varint32_eof_def)
  then have e: "fst (pb_decode_varint32 s) = (if 32 \<le> j \<and> b \<noteq> 0 \<or> i = 35 \<and> b AND 0x70 \<noteq> 0 then None
      else Some (if 32 \<le> j then 0 else push_bit j (ucast b)))"
    unfolding step by (simp add: pb_decode_varint32_def pb_fail_def Let_def)
  show ?thesis unfolding e i byte_mid [OF b] by (cases "j < 32") auto
qed

lemma varint_overlong:
  assumes s: "in_stream s" "window s = replicate (Suc k) 0x80 @ [b]" and b: "unat b < 128"
  shows "fst (pb_decode_varint s) = (if k < 9 then Some (push_bit (7 * Suc k) (ucast b)) else None)"
proof (cases "k < 9")
  case True
  have l: "varint_loop 0 0 s = varint_loop (7 * Suc k) 0 (advance (Suc k) s)"
    using varint_zeros [OF s(1,2), of 0] True by simp
  have "window (advance (Suc k) s) = [b] @ []" using s(2) by (simp add: window_advance)
  then have "pb_readbyte (advance (Suc k) s) = (Some b, advance 1 (advance (Suc k) s))"
    using readsD [OF reads_byte in_stream_advance [OF s(1)]] by simp
  moreover have "b AND 0x7F = b" unfolding word_unat_eq_iff unat_low7 using b by simp
  ultimately show ?thesis using True b byte_top [of b] unfolding pb_decode_varint_def l by (subst varint_loop.simps) simp
next
  case False
  have "replicate (Suc k) (0x80 :: byte) = replicate 10 0x80 @ replicate (Suc k - 10) 0x80"
    using False by (simp add: replicate_add [symmetric] del: replicate_Suc)
  then have "window s = replicate 10 0x80 @ replicate (Suc k - 10) 0x80 @ [b]" using s(2) by simp
  from varint_zeros [OF s(1) this, of 0] have "varint_loop 0 0 s = varint_loop 70 0 (advance 10 s)" by simp
  then show ?thesis using False unfolding pb_decode_varint_def by (subst (asm) (2) varint_loop.simps) (simp add: pb_fail_def)
qed

end
