(* ===== verification/Nanopb_Codec.thy ===== *)
theory Nanopb_Codec
  imports Nanopb_Varint
begin

text \<open>
  The other values of the wire format: numbers of fixed width, zigzag, skipping, substreams; \<open>writes f bs\<close> is
  the contract of a writer, for buffers and for streams that only count.
\<close>

subsection \<open>Fixed-width numbers and zigzag\<close>

lemma bit_octet: "bit (ucast (drop_bit j (v :: 'a::len word) AND 0xFF) :: byte) i \<longleftrightarrow> i < 8 \<and> bit v (j + i)"
proof -
  have "(0xFF :: 'a word) = mask 8" by (simp add: mask_eq_exp_minus_1)
  hence "drop_bit j v AND 0xFF = take_bit 8 (drop_bit j v)" by (simp only: take_bit_eq_mask)
  thus ?thesis by (auto simp: bit_simps dest: bit_imp_le_length)
qed

lemma bit_octet_0: "bit (ucast ((v :: 'a::len word) AND 0xFF) :: byte) i \<longleftrightarrow> i < 8 \<and> bit v i"
  using bit_octet [of 0 v i] by simp

lemma bit_piece:
  "bit (push_bit j (ucast (ucast (drop_bit j (v :: 'a::len word) AND 0xFF) :: byte)) :: 'a word) n \<longleftrightarrow> j \<le> n \<and> n < j + 8 \<and> bit v n"
proof -
  have "bit (push_bit j (ucast (b :: byte)) :: 'a word) n \<longleftrightarrow> j \<le> n \<and> n < LENGTH('a) \<and> bit b (n - j)" for b
    by (auto simp: bit_push_bit_iff bit_unsigned_iff)
  from this [of "ucast (drop_bit j v AND 0xFF)"] show ?thesis unfolding bit_octet by (auto dest: bit_imp_le_length)
qed

lemma bit_piece_0:
  "bit (push_bit 0 (ucast (ucast ((v :: 'a::len word) AND 0xFF) :: byte)) :: 'a word) n \<longleftrightarrow> n < 8 \<and> bit v n"
  using bit_piece [of 0 v n] by simp

definition fixed32_bytes :: "u32 \<Rightarrow> byte list" where
  "fixed32_bytes val = [ucast (val AND 0xFF), ucast (drop_bit 8 val AND 0xFF), ucast (drop_bit 16 val AND 0xFF), ucast (drop_bit 24 val AND 0xFF)]"

definition fixed64_bytes :: "u64 \<Rightarrow> byte list" where
  "fixed64_bytes val = [ucast (val AND 0xFF), ucast (drop_bit 8 val AND 0xFF), ucast (drop_bit 16 val AND 0xFF), ucast (drop_bit 24 val AND 0xFF),
       ucast (drop_bit 32 val AND 0xFF), ucast (drop_bit 40 val AND 0xFF), ucast (drop_bit 48 val AND 0xFF), ucast (drop_bit 56 val AND 0xFF)]"

lemma reads_map: "reads f bs x \<Longrightarrow> reads (pb_bind f (\<lambda>y. pb_return (g y))) bs (g x)"
  using reads_bind [OF _ reads_return] by fastforce

lemma reads_fixed32: "reads pb_decode_fixed32 (fixed32_bytes v) v"
proof -
  have "length (fixed32_bytes v) = 4" by (simp add: fixed32_bytes_def)
  from reads_read [of "fixed32_bytes v", unfolded this] have "reads (pb_read 4) (fixed32_bytes v) (fixed32_bytes v)" .
  from reads_map [OF this] have r: "reads (pb_bind (pb_read 4) (\<lambda>y. pb_return (g y))) (fixed32_bytes v) (g (fixed32_bytes v))" for g :: "byte list \<Rightarrow> u32" .
  have "push_bit 0 (ucast (fixed32_bytes v ! 0)) OR push_bit 8 (ucast (fixed32_bytes v ! 1)) OR
       push_bit 16 (ucast (fixed32_bytes v ! 2)) OR push_bit 24 (ucast (fixed32_bytes v ! 3)) = push_bit 0 (ucast (ucast (v AND 0xFF) :: byte)) OR
       push_bit 8 (ucast (ucast (drop_bit 8 v AND 0xFF) :: byte)) OR
       push_bit 16 (ucast (ucast (drop_bit 16 v AND 0xFF) :: byte)) OR
       push_bit 24 (ucast (ucast (drop_bit 24 v AND 0xFF) :: byte))"
    by (simp only: fixed32_bytes_def) simp
  also have "\<dots> = v"
    by (rule bit_word_eqI) (simp only: bit_or_iff bit_piece bit_piece_0, auto)
  finally have "push_bit 0 (ucast (fixed32_bytes v ! 0)) OR push_bit 8 (ucast (fixed32_bytes v ! 1)) OR
       push_bit 16 (ucast (fixed32_bytes v ! 2)) OR push_bit 24 (ucast (fixed32_bytes v ! 3)) = v" .
  thus ?thesis using r [of "\<lambda>bytes. push_bit 0 (ucast (bytes ! 0)) OR push_bit 8 (ucast (bytes ! 1)) OR
       push_bit 16 (ucast (bytes ! 2)) OR push_bit 24 (ucast (bytes ! 3))"] by (simp only: pb_decode_fixed32_def)
qed

lemma reads_fixed64: "reads pb_decode_fixed64 (fixed64_bytes v) v"
proof -
  have "length (fixed64_bytes v) = 8" by (simp add: fixed64_bytes_def)
  from reads_read [of "fixed64_bytes v", unfolded this] have "reads (pb_read 8) (fixed64_bytes v) (fixed64_bytes v)" .
  from reads_map [OF this] have r: "reads (pb_bind (pb_read 8) (\<lambda>y. pb_return (g y))) (fixed64_bytes v) (g (fixed64_bytes v))" for g :: "byte list \<Rightarrow> u64" .
  have "push_bit 0 (ucast (fixed64_bytes v ! 0)) OR push_bit 8 (ucast (fixed64_bytes v ! 1)) OR
       push_bit 16 (ucast (fixed64_bytes v ! 2)) OR push_bit 24 (ucast (fixed64_bytes v ! 3)) OR
       push_bit 32 (ucast (fixed64_bytes v ! 4)) OR push_bit 40 (ucast (fixed64_bytes v ! 5)) OR
       push_bit 48 (ucast (fixed64_bytes v ! 6)) OR push_bit 56 (ucast (fixed64_bytes v ! 7)) = push_bit 0 (ucast (ucast (v AND 0xFF) :: byte)) OR
       push_bit 8 (ucast (ucast (drop_bit 8 v AND 0xFF) :: byte)) OR
       push_bit 16 (ucast (ucast (drop_bit 16 v AND 0xFF) :: byte)) OR
       push_bit 24 (ucast (ucast (drop_bit 24 v AND 0xFF) :: byte)) OR
       push_bit 32 (ucast (ucast (drop_bit 32 v AND 0xFF) :: byte)) OR
       push_bit 40 (ucast (ucast (drop_bit 40 v AND 0xFF) :: byte)) OR
       push_bit 48 (ucast (ucast (drop_bit 48 v AND 0xFF) :: byte)) OR
       push_bit 56 (ucast (ucast (drop_bit 56 v AND 0xFF) :: byte))"
    by (simp only: fixed64_bytes_def) simp
  also have "\<dots> = v"
    by (rule bit_word_eqI) (simp only: bit_or_iff bit_piece bit_piece_0, auto)
  finally have "push_bit 0 (ucast (fixed64_bytes v ! 0)) OR push_bit 8 (ucast (fixed64_bytes v ! 1)) OR
       push_bit 16 (ucast (fixed64_bytes v ! 2)) OR push_bit 24 (ucast (fixed64_bytes v ! 3)) OR
       push_bit 32 (ucast (fixed64_bytes v ! 4)) OR push_bit 40 (ucast (fixed64_bytes v ! 5)) OR
       push_bit 48 (ucast (fixed64_bytes v ! 6)) OR push_bit 56 (ucast (fixed64_bytes v ! 7)) = v" .
  thus ?thesis using r [of "\<lambda>bytes. push_bit 0 (ucast (bytes ! 0)) OR push_bit 8 (ucast (bytes ! 1)) OR
       push_bit 16 (ucast (bytes ! 2)) OR push_bit 24 (ucast (bytes ! 3)) OR
       push_bit 32 (ucast (bytes ! 4)) OR push_bit 40 (ucast (bytes ! 5)) OR
       push_bit 48 (ucast (bytes ! 6)) OR push_bit 56 (ucast (bytes ! 7))"] by (simp only: pb_decode_fixed64_def)
qed

definition zigzag :: "u64 \<Rightarrow> u64" where
  "zigzag v = (if v <s 0 then NOT (push_bit 1 v) else push_bit 1 v)"

lemma zigzag_back: "(if zigzag v AND 1 \<noteq> 0 then NOT (drop_bit 1 (zigzag v)) else drop_bit 1 (zigzag v)) = v"
proof -
  have neg: "v <s 0 \<longleftrightarrow> bit v 63" using bit_last_iff [of v] by (simp add: word_sless_alt)
  have shl: "bit (push_bit 1 v) i \<longleftrightarrow> 0 < i \<and> i < 64 \<and> bit v (i - 1)" for i
    by (auto simp: bit_push_bit_iff simp del: push_bit_Suc)
  have one: "w AND 1 \<noteq> 0 \<longleftrightarrow> bit w 0" for w :: u64 by (simp add: and_one_eq bit_0 odd_iff_mod_2_eq_one)
  have low: "bit (zigzag v) 0 \<longleftrightarrow> v <s 0" by (simp add: zigzag_def bit_simps bit_0)
  show ?thesis
  proof (cases "v <s 0")
    case True
    have "NOT (drop_bit 1 (NOT (push_bit 1 v))) = v"
    proof (rule bit_word_eqI)
      fix n
      assume "n < LENGTH(64)"
      thus "bit (NOT (drop_bit 1 (NOT (push_bit 1 v)))) n = bit v n" using True neg by (cases "n = 63") (auto simp only: bit_not_iff bit_drop_bit_eq o_def shl possible_bit_word, auto)
    qed
    moreover have "zigzag v AND 1 \<noteq> 0" using one low True by blast
    moreover have "zigzag v = NOT (push_bit 1 v)" using True by (simp add: zigzag_def)
    ultimately show ?thesis by (metis (no_types))
  next
    case False
    have "drop_bit 1 (push_bit 1 v) = v"
    proof (rule bit_word_eqI)
      fix n
      assume "n < LENGTH(64)"
      thus "bit (drop_bit 1 (push_bit 1 v)) n = bit v n" using False neg by (cases "n = 63") (auto simp only: bit_not_iff bit_drop_bit_eq o_def shl possible_bit_word, auto)
    qed
    moreover have "\<not> zigzag v AND 1 \<noteq> 0" using one low False by blast
    moreover have "zigzag v = push_bit 1 v" using False by (simp add: zigzag_def)
    ultimately show ?thesis by (metis (no_types))
  qed
qed

lemma reads_svarint: "reads pb_decode_svarint (leb (unat (zigzag v))) v"
  using reads_map [OF reads_varint, of "\<lambda>value. if value AND 1 \<noteq> 0 then NOT (drop_bit 1 value) else drop_bit 1 value" "zigzag v"]
  by (simp only: pb_decode_svarint_def zigzag_back)

lemma pb_encode_svarint_zigzag: "pb_encode_svarint v = pb_encode_varint (zigzag v)"
  by (simp add: pb_encode_svarint_def zigzag_def)

subsection \<open>Skipping, substreams\<close>

lemma reads_skip_varint: "reads pb_skip_varint (leb n) ()"
proof (induction n rule: leb.induct)
  case (1 n)
  show ?case unfolding reads_def
  proof (intro allI impI)
    fix s rest
    assume s: "in_stream s" "window s = leb n @ rest"
    obtain b w where b: "window s = b # w" "leb n = b # tl (leb n)" "unat b < 128 \<longleftrightarrow> n < 128" "tl (leb n) = (if n < 128 then [] else leb (n div 128))"
      using s(2) by (cases "n < 128") (auto simp: leb.simps [of n] leb_byte simp del: of_nat_add)
    have "pb_read 1 s = (Some [b], advance 1 s)" using readsD [OF reads_read s(1), of "[b]" w] b(1) by simp
    moreover have "window s = b # tl (leb n) @ rest" using s(2) b(2) by (metis append_Cons)
    hence "window (advance 1 s) = tl (leb n) @ rest" by (simp add: window_advance)
    ultimately show "pb_skip_varint s = (Some (), advance (length (leb n)) s)"
      using b readsD [OF "1.IH" in_stream_advance [OF s(1)], of 1 rest]
      by (subst pb_skip_varint.simps) (auto simp: byte_top leb.simps [of n])
  qed
qed

lemma reads_skip_string:
  assumes "length bs < 2 ^ 32"
  shows "reads pb_skip_string (leb (length bs) @ bs) ()"
proof -
  have "reads (pb_read (unat (word_of_nat (length bs) :: u32))) bs bs" using reads_read [of bs] assms by (simp add: unat_of_nat)
  note skip = reads_map [OF this, of "\<lambda>_. ()"]
  show ?thesis unfolding pb_skip_string_def by (rule reads_bind [OF reads_varint32 [OF assms]]) (rule skip)
qed

text \<open>The substream of a length-prefixed string covers the string, and the parent goes on behind it.\<close>

lemma make_substream:
  assumes s: "in_stream s" "window s = leb (length bs) @ bs @ rest" and len: "length bs < 2 ^ 32"
  shows "\<exists>sub s'. pb_make_string_substream s = (Some sub, s') \<and> in_stream sub \<and> window sub = bs \<and> bytes_left sub = length bs \<and>
     is_errmsg sub = is_errmsg s \<and>
     (\<forall>n \<le> length bs. pb_close_string_substream (advance n sub) s' = (Some (), advance (length (leb (length bs) @ bs)) s))"
proof -
  let ?s1 = "advance (length (leb (length bs))) s"
  let ?sub = "?s1\<lparr>bytes_left := length bs\<rparr>" and ?s' = "?s1\<lparr>bytes_left := bytes_left ?s1 - length bs\<rparr>"
  have u: "unat (word_of_nat (length bs) :: u32) = length bs" using len by (simp add: unat_of_nat)
  have s1: "in_stream ?s1" "window ?s1 = bs @ rest" using s by (simp_all add: window_advance)
  have left: "bytes_left ?s1 = length bs + length rest" by (rule window_length [OF s1])
  have mk: "pb_make_string_substream s = (Some ?sub, ?s')"
    using readsD [OF reads_varint32 [OF len] s] left by (simp add: pb_make_string_substream_def pb_bind_def u)
  have sub: "in_stream ?sub" "window ?sub = bs" using s1 left window_take [OF s1(2,1)] by (auto simp: in_stream_def window_def)
  have "pb_close_string_substream (advance n ?sub) ?s' = (Some (), advance (length (leb (length bs) @ bs)) s)" if n: "n \<le> length bs" for n
  proof -
    have d: "in_stream (advance n ?sub)" "window (advance n ?sub) = drop n bs @ []" using sub by (simp_all add: window_advance)
    have l: "bytes_left (advance n ?sub) = length (drop n bs)" by (simp add: advance_def)
    have "pb_read (bytes_left (advance n ?sub)) (advance n ?sub) = (Some (drop n bs), advance (length (drop n bs)) (advance n ?sub))"
      using readsD [OF reads_read d] l by simp
    thus ?thesis using n left
      by (cases "n = length bs") (auto simp: pb_close_string_substream_def advance_def add.commute)
  qed
  thus ?thesis using mk sub by (intro exI [of _ ?sub] exI [of _ ?s']) (simp add: advance_def)
qed

subsection \<open>Writers\<close>

text \<open>
  \<open>out_stream\<close>: what is left of \<open>max_size\<close> lies inside the destination. \<open>put bs\<close> is the stream with \<open>bs\<close> written,
  \<open>contained\<close> says that a failed call touched nothing outside the room that was left. No object has
  \<open>object_max\<close> bytes or more (\<open>PTRDIFF_MAX\<close>).
\<close>

abbreviation object_max :: nat where
  "object_max \<equiv> 9223372036854775808"

definition out_stream :: "pb_ostream_t \<Rightarrow> bool" where
  "out_stream s \<longleftrightarrow> os_errmsg s = None \<and>
     (os_callback s \<longrightarrow> bytes_written s \<le> max_size s \<and> max_size s < object_max \<and>
        os_state s + (max_size s - bytes_written s) \<le> length (os_mem s))"

definition has_room :: "pb_ostream_t \<Rightarrow> nat \<Rightarrow> bool" where
  "has_room s n \<longleftrightarrow> \<not> os_callback s \<or> bytes_written s + n \<le> max_size s"

definition put :: "byte list \<Rightarrow> pb_ostream_t \<Rightarrow> pb_ostream_t" where
  "put bs s =
     (if os_callback s
      then s\<lparr>os_mem := write_at (os_mem s) (os_state s) bs, os_state := os_state s + length bs,
             bytes_written := bytes_written s + length bs\<rparr>
      else s\<lparr>bytes_written := (bytes_written s + length bs) mod size_mod\<rparr>)"

definition contained :: "pb_ostream_t \<Rightarrow> pb_ostream_t \<Rightarrow> bool" where
  "contained s s' \<longleftrightarrow> length (os_mem s') = length (os_mem s) \<and> take (os_state s) (os_mem s') = take (os_state s) (os_mem s) \<and>
     drop (os_state s + (max_size s - bytes_written s)) (os_mem s') = drop (os_state s + (max_size s - bytes_written s)) (os_mem s)"

definition writes :: "pb_writer \<Rightarrow> byte list \<Rightarrow> bool" where
  "writes f bs \<longleftrightarrow> length bs < object_max \<and>
     (\<forall>s. out_stream s \<longrightarrow>
        (if has_room s (length bs) then f s = (True, put bs s) else fst (f s) = False \<and> contained s (snd (f s))))"

lemma writesD: "writes f bs \<Longrightarrow> out_stream s \<Longrightarrow> has_room s (length bs) \<Longrightarrow> f s = (True, put bs s)"
  by (simp add: writes_def)

lemma writes_fails: "writes f bs \<Longrightarrow> out_stream s \<Longrightarrow> \<not> has_room s (length bs) \<Longrightarrow> fst (f s) = False \<and> contained s (snd (f s))"
  by (simp add: writes_def)

lemma contained_refl [simp]: "contained s s"
  by (simp add: contained_def)

lemma contained_errmsg [simp]: "contained s (s'\<lparr>os_errmsg := e\<rparr>) = contained s s'"
  by (simp add: contained_def)

lemma put_Nil [simp]: "put [] s = (if os_callback s then s else s\<lparr>bytes_written := bytes_written s mod size_mod\<rparr>)"
  by (simp add: put_def)

lemma put_put: "out_stream s \<Longrightarrow> put bs (put as s) = put (as @ bs) s"
proof (cases "os_callback s")
  case True
  assume "out_stream s"
  hence "os_state s \<le> length (os_mem s)" using True by (simp add: out_stream_def)
  hence "write_at (write_at (os_mem s) (os_state s) as) (os_state s + length as) bs = write_at (os_mem s) (os_state s) (as @ bs)"
    by (rule write_at_extend)
  thus ?thesis using True by (simp add: put_def)
qed (simp add: put_def mod_simps add.assoc)

lemma out_stream_put: "out_stream s \<Longrightarrow> has_room s (length bs) \<Longrightarrow> out_stream (put bs s)"
  by (auto simp: out_stream_def has_room_def put_def)

lemma has_room_put: "has_room (put as s) n \<longleftrightarrow> has_room s (length as + n)"
  by (auto simp: has_room_def put_def)

lemma drop_write_at: "off + length bs \<le> n \<Longrightarrow> n \<le> length m \<Longrightarrow> drop n (write_at m off bs) = drop n m"
proof -
  assume n: "off + length bs \<le> n" "n \<le> length m"
  then obtain k where k: "n = off + length bs + k" using le_Suc_ex by blast
  have "drop n (write_at m off bs) = drop (length bs + k) (bs @ drop (off + length bs) m)"
    using n by (simp add: k write_at_def)
  also have "\<dots> = drop n m" by (simp add: k add.commute add.left_commute)
  finally show ?thesis .
qed

lemma contained_put:
  assumes "out_stream s" "os_callback s" "has_room s (length bs)" "contained (put bs s) s'"
  shows "contained s s'"
proof -
  let ?m = "os_mem s" and ?p = "os_state s" and ?e = "os_state s + (max_size s - bytes_written s)"
  have fit: "?p + length bs \<le> ?e" "?e \<le> length ?m" using assms(1-3) by (auto simp: out_stream_def has_room_def)
  have left: "?p + length bs + (max_size s - (bytes_written s + length bs)) = ?e"
    using assms(2,3) by (simp add: has_room_def)
  have w: "length (os_mem s') = length ?m" "take (?p + length bs) (os_mem s') = take (?p + length bs) (write_at ?m ?p bs)"
    "drop ?e (os_mem s') = drop ?e (write_at ?m ?p bs)"
    using assms(2-4) fit by (simp_all add: contained_def put_def has_room_def left add.commute)
  have "take ?p (os_mem s') = take ?p ?m"
    using arg_cong [OF w(2), of "take ?p"] fit by (simp add: write_at_def)
  moreover have "drop ?e (os_mem s') = drop ?e ?m"
    using w(3) fit by (simp add: drop_write_at)
  ultimately show ?thesis using w(1) by (simp add: contained_def)
qed

lemma writes_write: "length bs < object_max \<Longrightarrow> writes (pb_write bs (length bs)) bs"
  unfolding writes_def
proof (intro conjI allI impI)
  fix s
  assume n: "length bs < object_max" and s: "out_stream s"
  show "if has_room s (length bs) then pb_write bs (length bs) s = (True, put bs s)
        else fst (pb_write bs (length bs) s) = False \<and> contained s (snd (pb_write bs (length bs) s))"
  proof (cases "os_callback s \<and> bs \<noteq> []")
    case True
    have "bytes_written s + length bs < size_mod" using n s True by (simp add: out_stream_def)
    hence total: "(bytes_written s + length bs) mod size_mod = bytes_written s + length bs" by simp
    show ?thesis using True unfolding pb_write_def Let_def total
      by (auto simp: has_room_def put_def pb_wfail_def buf_write_def)
  next
    case False
    thus ?thesis using s by (auto simp: pb_write_def Let_def has_room_def put_def out_stream_def)
  qed
qed simp

lemma writes_seq:
  assumes f: "writes f as" and g: "writes g bs" and n: "length (as @ bs) < object_max"
  shows "writes (pb_seq f g) (as @ bs)"
  unfolding writes_def
proof (intro conjI allI impI)
  fix s
  assume s: "out_stream s"
  show "if has_room s (length (as @ bs)) then pb_seq f g s = (True, put (as @ bs) s)
        else fst (pb_seq f g s) = False \<and> contained s (snd (pb_seq f g s))"
  proof (cases "has_room s (length as)")
    case False
    hence "\<not> has_room s (length (as @ bs))" by (auto simp: has_room_def)
    moreover obtain s' where "f s = (False, s')" "contained s s'"
      using writes_fails [OF f s False] by (cases "f s") auto
    ultimately show ?thesis by (simp add: pb_seq_def)
  next
    case True
    note a = writesD [OF f s True] and s1 = out_stream_put [OF s True]
    show ?thesis
    proof (cases "has_room s (length (as @ bs))")
      case True
      hence "has_room (put as s) (length bs)" by (simp add: has_room_put)
      from writesD [OF g s1 this] True a show ?thesis by (simp add: pb_seq_def put_put [OF s])
    next
      case False
      hence r: "\<not> has_room (put as s) (length bs)" by (simp add: has_room_put)
      from False have "os_callback s" by (simp add: has_room_def)
      with writes_fails [OF g s1 r] a False contained_put [OF s _ True] show ?thesis by (simp add: pb_seq_def)
    qed
  qed
qed (use n in simp)

lemma leb_size: "length (leb (unat (v :: u64))) < object_max"
  using length_leb_u64 [of v] by simp

lemma writes_varint: "writes (pb_encode_varint v) (leb (unat v))"
  unfolding pb_encode_varint_leb by (rule writes_write [OF leb_size])

lemma writes_svarint: "writes (pb_encode_svarint v) (leb (unat (zigzag v)))"
  by (simp add: pb_encode_svarint_zigzag writes_varint)

lemma length_fixed32: "length (fixed32_bytes v) = 4" and length_fixed64: "length (fixed64_bytes w) = 8"
  by (simp_all add: fixed32_bytes_def fixed64_bytes_def)

lemma writes_fixed32: "writes (pb_encode_fixed32 v) (fixed32_bytes v)"
  using writes_write [of "fixed32_bytes v"] unfolding length_fixed32 by (simp only: pb_encode_fixed32_def fixed32_bytes_def)

lemma writes_fixed64: "writes (pb_encode_fixed64 v) (fixed64_bytes v)"
  using writes_write [of "fixed64_bytes v"] unfolding length_fixed64 by (simp only: pb_encode_fixed64_def fixed64_bytes_def)

lemma writes_length: "n < size_mod \<Longrightarrow> writes (pb_encode_varint (word_of_nat n)) (leb n)"
  using writes_varint [of "word_of_nat n"] by (simp add: unat_of_nat)

lemma writes_string:
  assumes "length (leb (length bs) @ bs) < object_max"
  shows "writes (pb_encode_string bs) (leb (length bs) @ bs)"
  unfolding pb_encode_string_def using assms by (intro writes_seq writes_length writes_write) simp_all

lemma unat_tag:
  assumes "w < 8"
  shows "unat (push_bit 3 (ucast (tag :: u32)) OR ucast w :: u64) = unat tag * 8 + unat (w :: u32)"
proof -
  have w: "unat w < 2 ^ 3" using assms word_less_nat_alt [of w 8] by simp
  have "push_bit 3 (ucast tag :: u64) = word_of_nat (unat tag * 2 ^ 3)" by (simp add: push_bit_eq_mult unsigned_ucast_eq)
  moreover have "(ucast w :: u64) = word_of_nat (unat w)" by simp
  ultimately have "push_bit 3 (ucast tag) OR ucast w = (word_of_nat (unat tag * 2 ^ 3 + unat w) :: u64)"
    by (simp only: word_or_arith [OF w])
  hence "unat (push_bit 3 (ucast tag) OR ucast w :: u64) = (unat tag * 2 ^ 3 + unat w) mod 2 ^ 64" by (simp only: unat_of_nat len_of_numeral_defs) simp
  thus ?thesis using unat_u32_less [of tag] w by simp
qed

lemma writes_tag: "w < 8 \<Longrightarrow> writes (pb_encode_tag w tag) (leb (unat tag * 8 + unat w))"
  unfolding pb_encode_tag_def using writes_varint by (metis unat_tag)

text \<open>A submessage is its length and its bytes, whatever way they are produced.\<close>

lemma writes_submessage:
  assumes enc: "writes enc bs" and n: "length (leb (length bs) @ bs) < object_max"
  shows "writes (pb_encode_submessage enc) (leb (length bs) @ bs)"
  unfolding writes_def
proof (intro conjI allI impI)
  fix s
  assume s: "out_stream s"
  let ?l = "leb (length bs)"
  have sz: "out_stream PB_OSTREAM_SIZING" "has_room PB_OSTREAM_SIZING m" for m
    by (simp_all add: out_stream_def has_room_def PB_OSTREAM_SIZING_def)
  have pre: "enc PB_OSTREAM_SIZING = (True, put bs PB_OSTREAM_SIZING)" "bytes_written (put bs PB_OSTREAM_SIZING) = length bs"
    using writesD [OF enc sz] n by (simp_all add: put_def PB_OSTREAM_SIZING_def)
  have len: "writes (pb_encode_varint (word_of_nat (length bs))) ?l" using n by (intro writes_length) simp
  show "if has_room s (length (?l @ bs)) then pb_encode_submessage enc s = (True, put (?l @ bs) s)
        else fst (pb_encode_submessage enc s) = False \<and> contained s (snd (pb_encode_submessage enc s))"
  proof (cases "has_room s (length ?l)")
    case False
    hence r: "\<not> has_room s (length (?l @ bs))" by (auto simp: has_room_def)
    obtain s' where "pb_encode_varint (word_of_nat (length bs)) s = (False, s')" "contained s s'"
      using writes_fails [OF len s False] by (cases "pb_encode_varint (word_of_nat (length bs)) s") auto
    thus ?thesis using r pre by (simp add: pb_encode_submessage_def Let_def)
  next
    case True
    note l = writesD [OF len s True] and s1 = out_stream_put [OF s True]
    let ?s1 = "put ?l s"
    show ?thesis
    proof (cases "os_callback s")
      case False
      hence "has_room s (length (?l @ bs))" by (simp add: has_room_def)
      thus ?thesis using False pre l
        by (simp add: pb_encode_submessage_def Let_def put_def pb_write_def mod_simps add.assoc)
    next
      case cb: True
      have bound: "bytes_written s + length ?l \<le> max_size s" "max_size s < object_max" using True s cb by (auto simp: has_room_def out_stream_def)
      have bw: "bytes_written ?s1 = bytes_written s + length ?l" "max_size ?s1 = max_size s" "os_callback ?s1" using cb by (simp_all add: put_def)
      show ?thesis
      proof (cases "has_room s (length (?l @ bs))")
        case fit: True
        let ?sub = "\<lparr>os_callback = True, os_mem = os_mem ?s1, os_state = os_state ?s1, max_size = length bs, bytes_written = 0, os_errmsg = None\<rparr>"
        have "out_stream ?sub" "has_room ?sub (length bs)" using s1 fit cb bound n by (auto simp: out_stream_def has_room_def put_def)
        from writesD [OF enc this] have w: "enc ?sub = (True, put bs ?sub)" .
        have "(bytes_written ?s1 + length bs) mod size_mod = bytes_written ?s1 + length bs" "\<not> bytes_written ?s1 + length bs > max_size s"
          using fit cb bound by (simp_all add: has_room_def bw)
        moreover have "os_errmsg ?s1 = None" using s1 by (simp add: out_stream_def)
        moreover have "put (?l @ bs) s = put bs ?s1" using put_put [OF s] by simp
        ultimately show ?thesis using fit pre l w bw by (simp add: pb_encode_submessage_def Let_def) (simp add: put_def)
      next
        case over: False
        have "bytes_written ?s1 + length bs < size_mod" using bound bw n by simp
        hence "(bytes_written ?s1 + length bs) mod size_mod > max_size ?s1" using over cb bw by (simp add: has_room_def)
        moreover have "contained s ?s1" using contained_put [OF s cb True] by simp
        ultimately show ?thesis using over pre l bw(3) by (simp add: pb_encode_submessage_def Let_def pb_wfail_def)
      qed
    qed
  qed
qed (use n in simp)

end
