(* ===== verification/Nanopb_Fields.thy ===== *)
theory Nanopb_Fields
  imports Nanopb_Codec
begin

text \<open>
  Integer fields of every width, and messages as sequences of fields: writing them, and reading them in the
  loop of \<open>pb_decode_noinit\<close>, which skips the fields the receiver does not know.
\<close>

subsection \<open>Integer fields\<close>

lemma narrow_sign: "LENGTH('b) \<le> LENGTH('a) \<Longrightarrow> (ucast (scast (x :: 'b::len word) :: 'a::len word) :: 'b word) = x"
  by (rule bit_word_eqI) (auto simp: bit_unsigned_iff bit_signed_iff)

lemma narrow_sign32: "LENGTH('b) \<le> 32 \<Longrightarrow> scast (ucast (scast (x :: 'b::len word) :: u64) :: u32) = (scast x :: u64)"
  by (rule bit_word_eqI) (auto simp: bit_unsigned_iff bit_signed_iff min_def not_le)

lemma narrow_zero: "LENGTH('b) \<le> LENGTH('a) \<Longrightarrow> (ucast (ucast (x :: 'b::len word) :: 'a::len word) :: 'b word) = x"
  by (rule bit_word_eqI) (auto simp: bit_unsigned_iff)

lemma signed_field_again:
  assumes "signed_field n src = Some v"
  shows "signed_field n (if n = 8 then v else scast (ucast v :: u32)) = Some v" "signed_field n v = Some v" "n \<noteq> 8 \<Longrightarrow> scast (ucast v :: u32) = v"
proof -
  show 2: "signed_field n v = Some v" using assms by (auto simp: signed_field_def narrow_sign split: if_splits)
  show 3: "scast (ucast v :: u32) = v" if "n \<noteq> 8" using assms that by (auto simp: signed_field_def narrow_sign32 split: if_splits)
  show "signed_field n (if n = 8 then v else scast (ucast v :: u32)) = Some v" using 2 3 by (cases "n = 8") simp_all
qed

lemma unsigned_field_again: "unsigned_field n src = Some v \<Longrightarrow> unsigned_field n v = Some v"
  by (auto simp: unsigned_field_def narrow_zero split: if_splits)

text \<open>What a field of any width is written as is read back as its value.\<close>

lemma int_field_codec:
  assumes "signed_field n src = Some v"
  shows "writes (pb_enc_varint n src) (leb (unat v))" "reads (pb_dec_varint n) (leb (unat v)) v"
    "writes (pb_enc_svarint n src) (leb (unat (zigzag v)))" "reads (pb_dec_svarint n) (leb (unat (zigzag v))) v"
proof -
  note a = signed_field_again [OF assms]
  show "writes (pb_enc_varint n src) (leb (unat v))" "writes (pb_enc_svarint n src) (leb (unat (zigzag v)))"
    using assms by (simp_all add: pb_enc_varint_def pb_enc_svarint_def store_int_def writes_varint writes_svarint)
  have sv: "(if n = 8 then v else scast (ucast v :: u32)) = v" using a(3) by simp
  have "reads (let svalue = (if n = 8 then v else scast (ucast v :: u32)) in store_field (signed_field n svalue) svalue) [] v"
    unfolding sv Let_def a(2) by (simp add: store_field_def reads_return)
  from reads_bind [where f = pb_decode_varint and g = "\<lambda>v. let svalue = (if n = 8 then v else scast (ucast v :: u32)) in store_field (signed_field n svalue) svalue",
      OF reads_varint [of v] this] show "reads (pb_dec_varint n) (leb (unat v)) v"
    by (simp add: pb_dec_varint_def)
  have "reads (store_field (signed_field n v) v) [] v" unfolding a(2) by (simp add: store_field_def reads_return)
  from reads_bind [where f = pb_decode_svarint and g = "\<lambda>v. store_field (signed_field n v) v", OF reads_svarint [of v] this]
  show "reads (pb_dec_svarint n) (leb (unat (zigzag v))) v" by (simp add: pb_dec_svarint_def)
qed

lemma uint_field_codec:
  assumes "unsigned_field n src = Some v"
  shows "writes (pb_enc_uvarint n src) (leb (unat v))" "reads (pb_dec_uvarint n) (leb (unat v)) v"
proof -
  show "writes (pb_enc_uvarint n src) (leb (unat v))"
    using assms by (simp add: pb_enc_uvarint_def store_int_def writes_varint)
  have "reads (store_field (unsigned_field n v) v) [] v"
    unfolding unsigned_field_again [OF assms] by (simp add: store_field_def reads_return)
  from reads_bind [where f = pb_decode_varint and g = "\<lambda>v. store_field (unsigned_field n v) v", OF reads_varint [of v] this]
  show "reads (pb_dec_uvarint n) (leb (unat v)) v" by (simp add: pb_dec_uvarint_def)
qed

lemma bool_codec: "writes (pb_enc_bool b) (leb (if b then 1 else 0))" "reads pb_dec_bool (leb (if b then 1 else 0)) b"
proof -
  show "writes (pb_enc_bool b) (leb (if b then 1 else 0))" using writes_varint [of "if b then 1 else 0"] by (cases b) (simp_all add: pb_enc_bool_def)
  have "reads pb_decode_varint32 (leb (if b then 1 else 0)) (if b then 1 else 0)"
    using reads_varint32 [of "if b then 1 else 0"] by (cases b) simp_all
  from reads_map [OF this, of "\<lambda>v. v \<noteq> 0"] show "reads pb_dec_bool (leb (if b then 1 else 0)) b" by (cases b) (simp_all add: pb_dec_bool_def)
qed

subsection \<open>Sequences of fields\<close>

text \<open>
  A field of the wire format is a tag number with a value. \<open>pb_put_fields\<close> writes them one after the other
  with the operations above, \<open>pb_get_fields\<close> reads them in the loop of \<open>pb_decode_noinit\<close>: a field whose tag
  the receiver knows is decoded by its wire type, any other is skipped.
\<close>

datatype pb_value = Varint u64 | Fixed64 u64 | Delimited "byte list" | Fixed32 u32

fun wire_type :: "pb_value \<Rightarrow> u32" where
  "wire_type (Varint v) = PB_WT_VARINT"
| "wire_type (Fixed64 v) = PB_WT_64BIT"
| "wire_type (Delimited bs) = PB_WT_STRING"
| "wire_type (Fixed32 v) = PB_WT_32BIT"

fun pb_put_value :: "pb_value \<Rightarrow> pb_writer" where
  "pb_put_value (Varint v) = pb_encode_varint v"
| "pb_put_value (Fixed64 v) = pb_encode_fixed64 v"
| "pb_put_value (Delimited bs) = pb_encode_string bs"
| "pb_put_value (Fixed32 v) = pb_encode_fixed32 v"

fun pb_put_fields :: "(u32 \<times> pb_value) list \<Rightarrow> pb_writer" where
  "pb_put_fields [] s = (True, s)"
| "pb_put_fields ((tag, v) # fs) s = pb_seq (pb_seq (pb_encode_tag (wire_type v) tag) (pb_put_value v)) (pb_put_fields fs) s"

definition pb_get_string :: "byte list pb_reader" where
  "pb_get_string s =
     (case pb_make_string_substream s of
        (None, s) \<Rightarrow> (None, s)
      | (Some sub, s) \<Rightarrow>
          (case pb_read (bytes_left sub) sub of
             (None, _) \<Rightarrow> (None, s)
           | (Some bs, sub) \<Rightarrow>
               (case pb_close_string_substream sub s of (None, s) \<Rightarrow> (None, s) | (Some _, s) \<Rightarrow> (Some bs, s))))"

definition pb_get_value :: "u32 \<Rightarrow> pb_value pb_reader" where
  "pb_get_value wt =
     (if wt = PB_WT_VARINT then pb_bind pb_decode_varint (\<lambda>v. pb_return (Varint v))
      else if wt = PB_WT_64BIT then pb_bind pb_decode_fixed64 (\<lambda>v. pb_return (Fixed64 v))
      else if wt = PB_WT_STRING then pb_bind pb_get_string (\<lambda>v. pb_return (Delimited v))
      else if wt = PB_WT_32BIT then pb_bind pb_decode_fixed32 (\<lambda>v. pb_return (Fixed32 v))
      else pb_fail ''invalid wire_type'')"

text \<open>No reader gives bytes back, so the loop ends on every input.\<close>

definition shrinks :: "'a pb_reader \<Rightarrow> bool" where
  "shrinks g \<longleftrightarrow> (\<forall>s. bytes_left (snd (g s)) \<le> bytes_left s)"

lemma shrinksD: "shrinks g \<Longrightarrow> g s = (x, s') \<Longrightarrow> bytes_left s' \<le> bytes_left s"
  by (metis shrinks_def snd_conv)

lemma shrinks_basic: "shrinks (pb_return x)" "shrinks (pb_fail msg)" "shrinks (pb_read n)" "shrinks pb_readbyte"
  by (auto simp: shrinks_def pb_return_def pb_fail_def pb_read_def pb_readbyte_def buf_read_def)

lemma shrinks_bind: "shrinks f \<Longrightarrow> (\<And>x. shrinks (g x)) \<Longrightarrow> shrinks (pb_bind f g)"
proof -
  assume f: "shrinks f" and g: "\<And>x. shrinks (g x)"
  show ?thesis unfolding shrinks_def
  proof
    fix s
    obtain x s' where x: "f s = (x, s')" by fastforce
    have le: "bytes_left s' \<le> bytes_left s" by (rule shrinksD [OF f x])
    have "bytes_left (snd (g y s')) \<le> bytes_left s" for y using g le by (meson shrinks_def le_trans)
    thus "bytes_left (snd (pb_bind f g s)) \<le> bytes_left s" using le by (cases x) (simp_all add: pb_bind_def x)
  qed
qed

lemma shrinks_varint32_loop: "bytes_left (snd (varint32_loop j r s)) \<le> bytes_left s"
proof (induction j r s rule: varint32_loop.induct)
  case (1 j r s)
  obtain x s' where x: "pb_readbyte s = (x, s')" by fastforce
  have le: "bytes_left s' \<le> bytes_left s" by (rule shrinksD [OF shrinks_basic(4) x])
  show ?case
  proof (cases x)
    case (Some b)
    note IH = "1.IH" [OF x [symmetric] Some refl refl refl]
    show ?thesis using IH le by (subst varint32_loop.simps) (auto simp: x Some Let_def pb_fail_def)
  qed (use x le in \<open>subst varint32_loop.simps, simp\<close>)
qed

lemma shrinks_varint_loop: "bytes_left (snd (varint_loop j r s)) \<le> bytes_left s"
proof (induction j r s rule: varint_loop.induct)
  case (1 j r s)
  obtain x s' where x: "pb_readbyte s = (x, s')" by fastforce
  have le: "bytes_left s' \<le> bytes_left s" by (rule shrinksD [OF shrinks_basic(4) x])
  show ?case
  proof (cases "64 \<le> j \<or> x = None")
    case False
    then obtain b where b: "x = Some b" "\<not> 64 \<le> j" by auto
    note IH = "1.IH" [OF b(2) x [symmetric] b(1) refl]
    show ?thesis using IH le b by (subst varint_loop.simps) (auto simp: x Let_def)
  qed (use x le in \<open>subst varint_loop.simps, auto simp: pb_fail_def\<close>)
qed

lemma shrinks_skip_varint: "bytes_left (snd (pb_skip_varint s)) \<le> bytes_left s"
proof (induction s rule: pb_skip_varint.induct)
  case (1 s)
  obtain x s' where x: "pb_read 1 s = (x, s')" by fastforce
  have le: "bytes_left s' \<le> bytes_left s" by (rule shrinksD [OF shrinks_basic(3) x])
  show ?case
  proof (cases x)
    case (Some b)
    show ?thesis using "1.IH" [OF x [symmetric] Some] le Some by (subst pb_skip_varint.simps) (auto simp: x simp del: One_nat_def)
  qed (use x le in \<open>subst pb_skip_varint.simps, simp\<close>)
qed

lemma varint32_eof_less: "pb_decode_varint32_eof s = (Some v, e, s') \<Longrightarrow> bytes_left s' < bytes_left s"
  and varint32_eof_le: "bytes_left (snd (snd (pb_decode_varint32_eof s))) \<le> bytes_left s"
proof -
  obtain x s1 where x: "pb_readbyte s = (x, s1)" by fastforce
  have le: "bytes_left s1 \<le> bytes_left s" by (rule shrinksD [OF shrinks_basic(4) x])
  have lt: "bytes_left s1 < bytes_left s" if "x = Some b" for b using pb_readbyte_left x that by blast
  have loop: "bytes_left (snd (varint32_loop j r s1)) \<le> bytes_left s1" for j r by (rule shrinks_varint32_loop)
  have end_le: "bytes_left (snd (snd (pb_decode_varint32_eof s))) \<le> bytes_left s1"
  proof (cases x)
    case (Some b)
    obtain y s2 where y: "varint32_loop 7 (ucast (b AND 0x7F)) s1 = (y, s2)" by fastforce
    have "bytes_left s2 \<le> bytes_left s1" using loop [of 7 "ucast (b AND 0x7F)"] y by simp
    thus ?thesis using y by (auto simp: pb_decode_varint32_eof_def x Some pb_fail_def split: option.splits)
  qed (simp add: pb_decode_varint32_eof_def x)
  show "bytes_left (snd (snd (pb_decode_varint32_eof s))) \<le> bytes_left s" using end_le le by simp
  show "bytes_left s' < bytes_left s" if r: "pb_decode_varint32_eof s = (Some v, e, s')"
  proof (cases x)
    case None
    thus ?thesis using r by (simp add: pb_decode_varint32_eof_def x)
  next
    case (Some b)
    from lt [OF this] end_le r show ?thesis by simp
  qed
qed

lemma pb_decode_tag_less: "pb_decode_tag s = (Some t, e, s') \<Longrightarrow> bytes_left s' < bytes_left s"
  by (auto simp: pb_decode_tag_def dest: varint32_eof_less split: option.splits prod.splits if_splits)

lemma shrinks_readers: "shrinks pb_decode_varint32" "shrinks pb_decode_varint" "shrinks pb_skip_varint" "shrinks pb_make_string_substream"
  "shrinks pb_skip_string" "shrinks (pb_skip_field wt)"
proof -
  show v32: "shrinks pb_decode_varint32"
    unfolding shrinks_def pb_decode_varint32_def using varint32_eof_le by (auto split: prod.splits) (metis snd_conv)
  show "shrinks pb_decode_varint" by (simp add: shrinks_def pb_decode_varint_def shrinks_varint_loop)
  show sv: "shrinks pb_skip_varint" by (simp add: shrinks_def shrinks_skip_varint)
  show "shrinks pb_make_string_substream" unfolding pb_make_string_substream_def
    by (rule shrinks_bind [OF v32]) (simp add: shrinks_def pb_fail_def)
  show ss: "shrinks pb_skip_string" unfolding pb_skip_string_def by (intro shrinks_bind v32 shrinks_basic)
  show "shrinks (pb_skip_field wt)" unfolding pb_skip_field_def using sv ss by (auto intro: shrinks_bind shrinks_basic)
qed

lemma shrinks_get_value: "shrinks (pb_get_value wt)"
proof -
  have "shrinks pb_get_string" unfolding shrinks_def
  proof
    fix s
    obtain x s' where x: "pb_make_string_substream s = (x, s')" by fastforce
    have "bytes_left s' \<le> bytes_left s" by (rule shrinksD [OF shrinks_readers(4) x])
    thus "bytes_left (snd (pb_get_string s)) \<le> bytes_left s"
      by (auto simp: pb_get_string_def x pb_close_string_substream_def split: option.splits prod.splits)
  qed
  thus ?thesis unfolding pb_get_value_def pb_decode_fixed32_def pb_decode_fixed64_def
    using shrinks_readers by (auto intro!: shrinks_bind shrinks_basic)
qed

function pb_get_fields :: "(u32 \<Rightarrow> bool) \<Rightarrow> (u32 \<times> pb_value) list pb_reader" where
  "pb_get_fields known s =
     (if bytes_left s = 0 then (Some [], s)
      else case pb_decode_tag s of
        (None, eof, s') \<Rightarrow> (if eof then Some [] else None, s')
      | (Some (wt, tag), _, s') \<Rightarrow>
          if known tag
          then (case pb_get_value wt s' of
                  (None, s'') \<Rightarrow> (None, s'')
                | (Some v, s'') \<Rightarrow>
                    (case pb_get_fields known s'' of (fs, t) \<Rightarrow> (map_option (\<lambda>fs. (tag, v) # fs) fs, t)))
          else (case pb_skip_field wt s' of
                  (None, s'') \<Rightarrow> (None, s'')
                | (Some _, s'') \<Rightarrow> pb_get_fields known s''))"
  by pat_completeness auto

termination pb_get_fields
  by (relation "measure (\<lambda>(_, s). bytes_left s)")
    (auto dest!: pb_decode_tag_less [OF sym] shrinksD [OF shrinks_get_value sym] shrinksD [OF shrinks_readers(6) sym])

declare pb_get_fields.simps [simp del]

text \<open>The bytes of a sequence of fields, and the fields that can be sent.\<close>

fun value_bytes :: "pb_value \<Rightarrow> byte list" where
  "value_bytes (Varint v) = leb (unat v)"
| "value_bytes (Fixed64 v) = fixed64_bytes v"
| "value_bytes (Delimited bs) = leb (length bs) @ bs"
| "value_bytes (Fixed32 v) = fixed32_bytes v"

fun fields_bytes :: "(u32 \<times> pb_value) list \<Rightarrow> byte list" where
  "fields_bytes [] = []"
| "fields_bytes ((tag, v) # fs) = (leb (unat tag * 8 + unat (wire_type v)) @ value_bytes v) @ fields_bytes fs"

fun sendable :: "u32 \<times> pb_value \<Rightarrow> bool" where
  "sendable (tag, v) \<longleftrightarrow> tag \<noteq> 0 \<and> unat tag < 2 ^ 29 \<and> (case v of Delimited bs \<Rightarrow> length bs < 2 ^ 32 | _ \<Rightarrow> True)"

lemma wire_type_less: "wire_type v < 8" "unat (wire_type v) < 8"
  by (cases v; simp add: wire_types)+

lemma writes_value: "length (value_bytes v) < object_max \<Longrightarrow> writes (pb_put_value v) (value_bytes v)"
  by (cases v) (simp_all add: writes_varint writes_fixed32 writes_fixed64 writes_string)

lemma put_Nil_stream: "out_stream s \<Longrightarrow> bytes_written s < size_mod \<Longrightarrow> put [] s = s"
  by (simp add: put_def)

lemma writes_fields: "length (fields_bytes fs) < object_max \<Longrightarrow> fs \<noteq> [] \<Longrightarrow> writes (pb_put_fields fs) (fields_bytes fs)"
proof (induction fs rule: fields_bytes.induct)
  case (2 tag v fs)
  let ?f = "pb_seq (pb_encode_tag (wire_type v) tag) (pb_put_value v)" and ?b = "leb (unat tag * 8 + unat (wire_type v)) @ value_bytes v"
  have f: "writes ?f ?b" using "2.prems"(1) by (intro writes_seq writes_tag writes_value wire_type_less) simp_all
  show ?case
  proof (cases "fs = []")
    case True
    have "pb_put_fields ((tag, v) # fs) = ?f" by (rule ext) (simp add: True pb_seq_def split: prod.splits bool.splits)
    thus ?thesis using f by (simp add: True)
  next
    case False
    have "pb_put_fields ((tag, v) # fs) = pb_seq ?f (pb_put_fields fs)" by (rule ext) simp
    moreover have "writes (pb_put_fields fs) (fields_bytes fs)" using 2 False by simp
    ultimately show ?thesis using writes_seq [OF f] "2.prems"(1) by simp
  qed
qed simp

lemma decode_tag:
  assumes "in_stream s" "window s = leb (unat tag * 8 + unat w) @ rest" "tag \<noteq> 0" "unat tag < 2 ^ 29" "unat w < 8"
  shows "pb_decode_tag s = (Some (w, tag), False, advance (length (leb (unat tag * 8 + unat w))) s)"
proof -
  let ?n = "unat tag * 8 + unat w"
  have n: "?n < 2 ^ 32" using assms(4,5) by simp
  have u: "unat (word_of_nat ?n :: u32) = ?n" using n by (simp only: unat_of_nat len_of_numeral_defs) simp
  have "unat tag \<noteq> 0" using assms(3) by (simp add: unat_eq_0)
  hence "(word_of_nat ?n :: u32) \<noteq> 0" using u by (metis add_is_0 mult_is_0 unsigned_0 zero_neq_numeral)
  moreover have "(word_of_nat ?n :: u32) AND 7 = w"
    unfolding word_unat_eq_iff using unat_and_mask [of "7 :: u32" 3 "word_of_nat ?n"] u assms(5)
    by (simp add: mask_eq_exp_minus_1)
  moreover have "drop_bit 3 (word_of_nat ?n :: u32) = tag"
    unfolding word_unat_eq_iff unat_drop_bit u using assms(5) by simp
  moreover have "pb_decode_varint32_eof s = (Some (word_of_nat ?n), False, advance (length (leb ?n)) s)"
    using varint32_eof_leb(1) [OF assms(1,2)] n by (simp only: accepts32_def) simp
  ultimately show ?thesis by (simp only: pb_decode_tag_def option.case prod.case if_False)
qed

lemma reads_get_string:
  assumes "length bs < 2 ^ 32"
  shows "reads pb_get_string (leb (length bs) @ bs) bs"
  unfolding reads_def
proof (intro allI impI)
  fix s rest
  assume s: "in_stream s" "window s = (leb (length bs) @ bs) @ rest"
  obtain sub s' where m: "pb_make_string_substream s = (Some sub, s')" "in_stream sub" "window sub = bs" "bytes_left sub = length bs"
    "\<forall>n \<le> length bs. pb_close_string_substream (advance n sub) s' = (Some (), advance (length (leb (length bs) @ bs)) s)"
    using make_substream [OF s(1) _ assms, of rest] s(2) by auto
  have "pb_read (bytes_left sub) sub = (Some bs, advance (length bs) sub)"
    using readsD [OF reads_read m(2), of bs "[]"] m(3,4) by simp
  thus "pb_get_string s = (Some bs, advance (length (leb (length bs) @ bs)) s)"
    using m by (simp add: pb_get_string_def)
qed

lemma reads_value:
  assumes "sendable (tag, v)"
  shows "reads (pb_get_value (wire_type v)) (value_bytes v) v" "reads (pb_skip_field (wire_type v)) (value_bytes v) ()"
proof -
  have fixed: "reads (pb_bind (pb_read 4) (\<lambda>_. pb_return ())) (fixed32_bytes w) ()" "reads (pb_bind (pb_read 8) (\<lambda>_. pb_return ())) (fixed64_bytes x) ()" for w x
    using reads_map [OF reads_read [of "fixed32_bytes w"], of "\<lambda>_. ()"] reads_map [OF reads_read [of "fixed64_bytes x"], of "\<lambda>_. ()"]
    by (simp_all only: length_fixed32 length_fixed64)
  show "reads (pb_get_value (wire_type v)) (value_bytes v) v"
    using assms reads_map [OF reads_varint] reads_map [OF reads_fixed64] reads_map [OF reads_fixed32] reads_map [OF reads_get_string]
    by (cases v) (auto simp: pb_get_value_def wire_types)
  show "reads (pb_skip_field (wire_type v)) (value_bytes v) ()"
    using assms reads_skip_varint reads_skip_string fixed
    by (cases v) (simp_all add: pb_skip_field_def wire_types)
qed

lemma get_fields:
  "\<forall>f \<in> set fs. sendable f \<Longrightarrow> in_stream s \<Longrightarrow> window s = fields_bytes fs \<Longrightarrow>
     pb_get_fields known s = (Some (filter (\<lambda>f. known (fst f)) fs), advance (length (fields_bytes fs)) s)"
proof (induction fs arbitrary: s rule: fields_bytes.induct)
  case 1
  have "bytes_left s = 0" using window_length [of s "[]" "[]"] 1 by simp
  thus ?case by (subst pb_get_fields.simps) simp
next
  case (2 tag v fs)
  let ?t = "leb (unat tag * 8 + unat (wire_type v))"
  have ok: "tag \<noteq> 0" "unat tag < 2 ^ 29" "sendable (tag, v)" "\<forall>f \<in> set fs. sendable f" using "2.prems"(1) by auto
  have w: "window s = ?t @ value_bytes v @ fields_bytes fs" using "2.prems"(3) by simp
  let ?s1 = "advance (length ?t) s" and ?s2 = "advance (length ?t + length (value_bytes v)) s"
  have t: "pb_decode_tag s = (Some (wire_type v, tag), False, ?s1)" by (rule decode_tag [OF "2.prems"(2) w ok(1,2) wire_type_less(2)])
  have w1: "in_stream ?s1" "window ?s1 = value_bytes v @ fields_bytes fs" using "2.prems"(2) w by (simp_all add: window_advance)
  have s2: "in_stream ?s2" "window ?s2 = fields_bytes fs" using "2.prems"(2) w by (simp_all add: window_advance)
  have v: "pb_get_value (wire_type v) ?s1 = (Some v, ?s2)" "pb_skip_field (wire_type v) ?s1 = (Some (), ?s2)"
    using readsD [OF reads_value(1) [OF ok(3)] w1] readsD [OF reads_value(2) [OF ok(3)] w1] by simp_all
  have "bytes_left s \<noteq> 0" using window_length [OF "2.prems"(2) w] by simp
  thus ?case using "2.IH" [OF ok(4) s2] t v by (subst pb_get_fields.simps) (simp add: add.assoc)
qed

lemma buffer_stream: "bufsize \<le> length buf \<Longrightarrow> bufsize < object_max \<Longrightarrow> out_stream (pb_ostream_from_buffer buf bufsize)"
  by (simp add: out_stream_def pb_ostream_from_buffer_def)

lemma sizing_stream: "out_stream PB_OSTREAM_SIZING" "has_room PB_OSTREAM_SIZING n"
  by (simp_all add: out_stream_def has_room_def PB_OSTREAM_SIZING_def)

lemma sizing_fields:
  "length (fields_bytes fs) < object_max \<Longrightarrow>
     \<exists>sz. pb_put_fields fs PB_OSTREAM_SIZING = (True, sz) \<and> bytes_written sz = length (fields_bytes fs)"
  using writesD [OF writes_fields sizing_stream, of fs]
  by (cases "fs = []") (simp_all add: put_def PB_OSTREAM_SIZING_def)

lemma buffer_fields:
  assumes "length (fields_bytes fs) \<le> bufsize" "bufsize \<le> length buf" "bufsize < object_max"
  shows "\<exists>s. pb_put_fields fs (pb_ostream_from_buffer buf bufsize) = (True, s) \<and> os_mem s = write_at buf 0 (fields_bytes fs) \<and>
     bytes_written s = length (fields_bytes fs)"
proof (cases "fs = []")
  case False
  have "writes (pb_put_fields fs) (fields_bytes fs)" using assms False by (intro writes_fields) simp_all
  from writesD [OF this buffer_stream [OF assms(2,3)]] show ?thesis
    using assms(1) by (simp add: has_room_def put_def pb_ostream_from_buffer_def)
qed (simp add: pb_ostream_from_buffer_def)

lemma buffer_window: "window (pb_istream_from_buffer (bs @ rest) (length bs)) = bs" "in_stream (pb_istream_from_buffer (bs @ rest) (length bs))"
  by (simp_all add: window_def in_stream_def pb_istream_from_buffer_def)

end
