(* ===== verification/Bio_Pair.thy ===== *)
theory Bio_Pair
  imports Bytes_Prelude
begin

text \<open>
  \<open>crypto/bio/pair.c\<close>: two connected endpoints. What one end writes goes into its ring buffer, from which
  the other end reads. The \<open>peer\<close> pointers of a pair point to each other, so an operation takes the
  two endpoints; \<open>peer\<close> says whether the pointer is set. Buffers are smaller than half of the address
  space, so sums of positions do not wrap. The loops are partial functions: \<open>None\<close> is a loop that does
  not end. The error queue is not part of the state.
\<close>

record bio_bio_st =
  peer :: bool
  closed :: bool
  b_len :: nat
  b_offset :: nat
  b_size :: nat
  b_buf :: "byte list option"
  request :: nat

datatype retry_flags = No_retry | Retry_read | Retry_write

record bio =
  bio_init :: bool
  bio_shutdown :: int
  bio_retry :: retry_flags
  bio_ptr :: bio_bio_st

subsection \<open>Creating and destroying\<close>

text \<open>\<open>BIO_new\<close> with the method of \<open>pair.c\<close>; \<open>ok\<close> says whether the two structures are allocated.\<close>

definition bio_new :: "bio \<Rightarrow> bio" where
  "bio_new bio = bio\<lparr>bio_ptr := \<lparr>peer = False, closed = False, b_len = 0, b_offset = 0, b_size = 17 * 1024,
     b_buf = None, request = 0\<rparr>\<rparr>"

definition BIO_new :: "bool \<Rightarrow> bio option" where
  "BIO_new ok =
     (if ok then Some (bio_new \<lparr>bio_init = False, bio_shutdown = 1, bio_retry = No_retry, bio_ptr = undefined\<rparr>)
      else None)"

definition bio_unlink :: "bio \<Rightarrow> bio" where
  "bio_unlink bio = bio\<lparr>bio_init := False, bio_ptr := (bio_ptr bio)\<lparr>peer := False, b_len := 0, b_offset := 0\<rparr>\<rparr>"

definition bio_destroy_pair :: "bio \<Rightarrow> bio \<Rightarrow> bio \<times> bio" where
  "bio_destroy_pair bio peer_bio =
     (if \<not> peer (bio_ptr bio) then (bio, peer_bio) else (bio_unlink bio, bio_unlink peer_bio))"

text \<open>\<open>bio_free\<close> gives the endpoint that remains.\<close>

definition bio_free :: "bio \<Rightarrow> bio \<Rightarrow> bio" where
  "bio_free bio peer_bio = snd (bio_destroy_pair bio peer_bio)"

definition give_buffer :: "allocator \<Rightarrow> nat \<Rightarrow> bio \<Rightarrow> bool \<times> bio" where
  "give_buffer al writebuf_len bio =
     (case b_buf (bio_ptr bio) of
        Some _ \<Rightarrow> (True, bio)
      | None \<Rightarrow>
          let b = (if writebuf_len \<noteq> 0 then (bio_ptr bio)\<lparr>b_size := writebuf_len\<rparr> else bio_ptr bio)
          in case al (b_size b) of
               None \<Rightarrow> (False, bio\<lparr>bio_ptr := b\<rparr>)
             | Some m \<Rightarrow> (True, bio\<lparr>bio_ptr := b\<lparr>b_buf := Some m, b_len := 0, b_offset := 0\<rparr>\<rparr>))"

definition link_peer :: "bio \<Rightarrow> bio" where
  "link_peer bio = bio\<lparr>bio_init := True, bio_ptr := (bio_ptr bio)\<lparr>peer := True, closed := False, request := 0\<rparr>\<rparr>"

definition bio_make_pair :: "allocator \<Rightarrow> nat \<Rightarrow> nat \<Rightarrow> bio \<Rightarrow> bio \<Rightarrow> bool \<times> bio \<times> bio" where
  "bio_make_pair al writebuf1_len writebuf2_len bio1 bio2 =
     (if peer (bio_ptr bio1) \<or> peer (bio_ptr bio2) then (False, bio1, bio2)
      else case give_buffer al writebuf1_len bio1 of
             (False, bio1) \<Rightarrow> (False, bio1, bio2)
           | (True, bio1) \<Rightarrow>
             (case give_buffer al writebuf2_len bio2 of
                (False, bio2) \<Rightarrow> (False, bio1, bio2)
              | (True, bio2) \<Rightarrow> (True, link_peer bio1, link_peer bio2)))"

definition BIO_new_bio_pair :: "allocator \<Rightarrow> bool \<Rightarrow> bool \<Rightarrow> nat \<Rightarrow> nat \<Rightarrow> (bio \<times> bio) option" where
  "BIO_new_bio_pair al ok1 ok2 writebuf1_len writebuf2_len =
     (case (BIO_new ok1, BIO_new ok2) of
        (Some bio1, Some bio2) \<Rightarrow>
          (case bio_make_pair al writebuf1_len writebuf2_len bio1 bio2 of
             (True, p) \<Rightarrow> Some p | (False, _) \<Rightarrow> None)
      | _ \<Rightarrow> None)"

subsection \<open>Reading and writing\<close>

definition BIO_clear_retry_flags :: "bio \<Rightarrow> bio" where
  "BIO_clear_retry_flags bio = bio\<lparr>bio_retry := No_retry\<rparr>"

definition buf_of :: "bio_bio_st \<Rightarrow> byte list" where
  "buf_of b = (case b_buf b of None \<Rightarrow> [] | Some m \<Rightarrow> m)"

text \<open>One turn of the loop of \<open>bio_read\<close>: the bytes it copies and the buffer it leaves.\<close>

definition read_chunk :: "nat \<Rightarrow> bio_bio_st \<Rightarrow> nat" where
  "read_chunk rest b = (if b_offset b + rest \<le> b_size b then rest else b_size b - b_offset b)"

definition read_turn :: "nat \<Rightarrow> bio_bio_st \<Rightarrow> bio_bio_st" where
  "read_turn chunk b =
     (let b = b\<lparr>b_len := b_len b - chunk\<rparr>
      in if b_len b \<noteq> 0
         then (let off = b_offset b + chunk in b\<lparr>b_offset := (if off = b_size b then 0 else off)\<rparr>)
         else b\<lparr>b_offset := 0\<rparr>)"

partial_function (option) bio_read_loop :: "nat \<Rightarrow> bio_bio_st \<Rightarrow> byte list \<Rightarrow> (byte list \<times> bio_bio_st) option" where
  "bio_read_loop rest b out =
     (let chunk = read_chunk rest b;
          out' = out @ take chunk (drop (b_offset b) (buf_of b));
          b' = read_turn chunk b
      in if rest - chunk \<noteq> 0 then bio_read_loop (rest - chunk) b' out' else Some (out', b'))"

declare bio_read_loop.simps [code]

definition bio_read :: "bool \<Rightarrow> nat \<Rightarrow> bio \<Rightarrow> bio \<Rightarrow> (int \<times> byte list \<times> bio \<times> bio) option" where
  "bio_read have_buf size0 bio0 peer_bio =
     (let bio = BIO_clear_retry_flags bio0
      in if \<not> bio_init bio then Some (0, [], bio, peer_bio)
         else
           let peer_b = (bio_ptr peer_bio)\<lparr>request := 0\<rparr>; peer_bio = peer_bio\<lparr>bio_ptr := peer_b\<rparr>
           in if \<not> have_buf \<or> size0 = 0 then Some (0, [], bio, peer_bio)
              else if b_len peer_b = 0
              then (if closed peer_b then Some (0, [], bio, peer_bio)
                    else Some (- 1, [], bio\<lparr>bio_retry := Retry_read\<rparr>,
                           peer_bio\<lparr>bio_ptr := peer_b\<lparr>request := (if size0 \<le> b_size peer_b then size0 else b_size peer_b)\<rparr>\<rparr>))
              else
                let size1 = (if b_len peer_b < size0 then b_len peer_b else size0)
                in map_option (\<lambda>(out, b). (int size1, out, bio, peer_bio\<lparr>bio_ptr := b\<rparr>)) (bio_read_loop size1 peer_b []))"

definition write_offset :: "bio_bio_st \<Rightarrow> nat" where
  "write_offset b = (let off = b_offset b + b_len b in if off \<ge> b_size b then off - b_size b else off)"

definition write_chunk :: "nat \<Rightarrow> bio_bio_st \<Rightarrow> nat" where
  "write_chunk rest b = (if write_offset b + rest \<le> b_size b then rest else b_size b - write_offset b)"

partial_function (option) bio_write_loop :: "nat \<Rightarrow> byte list \<Rightarrow> bio_bio_st \<Rightarrow> bio_bio_st option" where
  "bio_write_loop rest data b =
     (let chunk = write_chunk rest b;
          b' = b\<lparr>b_buf := Some (write_at (buf_of b) (write_offset b) (take chunk data)), b_len := b_len b + chunk\<rparr>
      in if rest - chunk \<noteq> 0 then bio_write_loop (rest - chunk) (drop chunk data) b' else Some b')"

declare bio_write_loop.simps [code]

text \<open>The second argument is \<open>None\<close> for a NULL buffer.\<close>

definition bio_write :: "byte list option \<Rightarrow> bio \<Rightarrow> (int \<times> bio) option" where
  "bio_write buf bio0 =
     (let bio = BIO_clear_retry_flags bio0
      in if \<not> bio_init bio then Some (0, bio)
         else case buf of
           None \<Rightarrow> Some (0, bio)
         | Some data \<Rightarrow>
             if length data = 0 then Some (0, bio)
             else
               let b = (bio_ptr bio)\<lparr>request := 0\<rparr>; bio = bio\<lparr>bio_ptr := b\<rparr>
               in if closed b then Some (- 1, bio)
                  else if b_len b = b_size b then Some (- 1, bio\<lparr>bio_retry := Retry_write\<rparr>)
                  else
                    let num = (if length data > b_size b - b_len b then b_size b - b_len b else length data)
                    in map_option (\<lambda>b. (int num, bio\<lparr>bio_ptr := b\<rparr>)) (bio_write_loop num data b))"

subsection \<open>Control\<close>

datatype bio_cmd =
    BIO_C_GET_WRITE_BUF_SIZE
  | BIO_C_GET_WRITE_GUARANTEE
  | BIO_C_GET_READ_REQUEST
  | BIO_C_RESET_READ_REQUEST
  | BIO_C_SHUTDOWN_WR
  | BIO_CTRL_GET_CLOSE
  | BIO_CTRL_SET_CLOSE
  | BIO_CTRL_PENDING
  | BIO_CTRL_WPENDING
  | BIO_CTRL_FLUSH
  | BIO_CTRL_EOF
  | BIO_CTRL_other

text \<open>\<open>other\<close> is the endpoint \<open>ptr\<close> points to, for \<open>BIO_CTRL_EOF\<close>.\<close>

fun bio_ctrl :: "bio \<Rightarrow> bio \<Rightarrow> bio_cmd \<Rightarrow> int \<Rightarrow> bio option \<Rightarrow> int \<times> bio" where
  "bio_ctrl bio peer_bio BIO_C_GET_WRITE_BUF_SIZE n other = (int (b_size (bio_ptr bio)), bio)"
| "bio_ctrl bio peer_bio BIO_C_GET_WRITE_GUARANTEE n other =
     (if \<not> peer (bio_ptr bio) \<or> closed (bio_ptr bio) then 0
      else int (b_size (bio_ptr bio)) - int (b_len (bio_ptr bio)), bio)"
| "bio_ctrl bio peer_bio BIO_C_GET_READ_REQUEST n other = (int (request (bio_ptr bio)), bio)"
| "bio_ctrl bio peer_bio BIO_C_RESET_READ_REQUEST n other = (1, bio\<lparr>bio_ptr := (bio_ptr bio)\<lparr>request := 0\<rparr>\<rparr>)"
| "bio_ctrl bio peer_bio BIO_C_SHUTDOWN_WR n other = (1, bio\<lparr>bio_ptr := (bio_ptr bio)\<lparr>closed := True\<rparr>\<rparr>)"
| "bio_ctrl bio peer_bio BIO_CTRL_GET_CLOSE n other = (bio_shutdown bio, bio)"
| "bio_ctrl bio peer_bio BIO_CTRL_SET_CLOSE n other = (1, bio\<lparr>bio_shutdown := n\<rparr>)"
| "bio_ctrl bio peer_bio BIO_CTRL_PENDING n other =
     (if peer (bio_ptr bio) then int (b_len (bio_ptr peer_bio)) else 0, bio)"
| "bio_ctrl bio peer_bio BIO_CTRL_WPENDING n other =
     (if b_buf (bio_ptr bio) \<noteq> None then int (b_len (bio_ptr bio)) else 0, bio)"
| "bio_ctrl bio peer_bio BIO_CTRL_FLUSH n other = (1, bio)"
| "bio_ctrl bio peer_bio BIO_CTRL_EOF n other =
     (case other of
        None \<Rightarrow> 1
      | Some other_bio \<Rightarrow> if b_len (bio_ptr other_bio) = 0 \<and> closed (bio_ptr other_bio) then 1 else 0, bio)"
| "bio_ctrl bio peer_bio BIO_CTRL_other n other = (0, bio)"

definition BIO_ctrl_get_read_request :: "bio \<Rightarrow> bio \<Rightarrow> int" where
  "BIO_ctrl_get_read_request bio peer_bio = fst (bio_ctrl bio peer_bio BIO_C_GET_READ_REQUEST 0 None)"

definition BIO_ctrl_get_write_guarantee :: "bio \<Rightarrow> bio \<Rightarrow> int" where
  "BIO_ctrl_get_write_guarantee bio peer_bio = fst (bio_ctrl bio peer_bio BIO_C_GET_WRITE_GUARANTEE 0 None)"

definition BIO_shutdown_wr :: "bio \<Rightarrow> bio \<Rightarrow> int \<times> bio" where
  "BIO_shutdown_wr bio peer_bio = bio_ctrl bio peer_bio BIO_C_SHUTDOWN_WR 0 None"

subsection \<open>The ring buffer as a queue\<close>

definition ring_inv :: "bio_bio_st \<Rightarrow> bool" where
  "ring_inv b \<longleftrightarrow> b_buf b = Some (buf_of b) \<and> length (buf_of b) = b_size b \<and> b_len b \<le> b_size b \<and> b_offset b < b_size b \<and>
     (b_len b = 0 \<longrightarrow> b_offset b = 0)"

definition queue :: "bio_bio_st \<Rightarrow> byte list" where
  "queue b = take (b_len b) (drop (b_offset b) (buf_of b) @ take (b_offset b) (buf_of b))"

lemma length_queue: "ring_inv b \<Longrightarrow> length (queue b) = b_len b"
  by (auto simp: ring_inv_def queue_def)

text \<open>What an operation leaves alone.\<close>

definition same_ring :: "bio_bio_st \<Rightarrow> bio_bio_st \<Rightarrow> bool" where
  "same_ring b b' \<longleftrightarrow> peer b' = peer b \<and> closed b' = closed b \<and> b_size b' = b_size b \<and> request b' = request b"

lemma take_append_same:
  "n \<le> length xs + a \<Longrightarrow> a \<le> c \<Longrightarrow> take n (xs @ take a zs) = take n (xs @ take c zs)"
  by (simp add: min_absorb1 min_absorb2)

lemma read_turn_spec:
  assumes inv: "ring_inv b" and n: "n \<le> b_len b" and fit: "b_offset b + n \<le> b_size b"
  shows "ring_inv (read_turn n b)" "queue (read_turn n b) = drop n (queue b)"
    "take n (drop (b_offset b) (buf_of b)) = take n (queue b)" "same_ring b (read_turn n b)"
    "b_len (read_turn n b) = b_len b - n"
proof -
  let ?off = "b_offset b" and ?m = "buf_of b"
  have i: "b_buf b = Some ?m" "length ?m = b_size b" "b_len b \<le> b_size b" "?off < b_size b" using inv by (simp_all add: ring_inv_def)
  have buf: "buf_of (read_turn n b) = ?m" "b_buf (read_turn n b) = Some ?m" "b_size (read_turn n b) = b_size b"
    using i(1) by (simp_all add: read_turn_def buf_of_def Let_def)
  show len: "b_len (read_turn n b) = b_len b - n" and "same_ring b (read_turn n b)"
    by (simp_all add: read_turn_def Let_def same_ring_def)
  show "take n (drop ?off ?m) = take n (queue b)" using n fit i(2) by (simp add: queue_def min_absorb1)
  have off: "b_offset (read_turn n b) = (if b_len b - n = 0 \<or> ?off + n = b_size b then 0 else ?off + n)"
    by (simp add: read_turn_def Let_def)
  show "ring_inv (read_turn n b)" using i fit n unfolding ring_inv_def buf len off by auto
  have "n \<le> length (drop ?off ?m)" using fit i(2) by simp
  hence "drop n (drop ?off ?m @ take ?off ?m) = drop (?off + n) ?m @ take ?off ?m" by (simp add: add.commute)
  hence "drop n (queue b) = take (b_len b - n) (drop (?off + n) ?m @ take ?off ?m)" by (simp only: queue_def drop_take)
  also have "\<dots> = take (b_len b - n) (drop (?off + n) ?m @ take (?off + n) ?m)"
    using i(2,3) n fit by (intro take_append_same) simp_all
  finally show "queue (read_turn n b) = drop n (queue b)"
    using i(2,3) by (auto simp: queue_def buf len off min_absorb1)
qed

text \<open>The loop of \<open>bio_read\<close> ends after at most two turns and takes the front of the queue.\<close>

lemma bio_read_loop_spec:
  assumes inv: "ring_inv b" and n: "0 < n" "n \<le> b_len b"
  obtains b' where "bio_read_loop n b [] = Some (take n (queue b), b')" "ring_inv b'" "queue b' = drop n (queue b)" "same_ring b b'"
proof (cases "b_offset b + n \<le> b_size b")
  case True
  note t = read_turn_spec [OF inv n(2) True]
  have c: "read_chunk n b = n" using True by (simp add: read_chunk_def)
  have "bio_read_loop n b [] = Some (take n (queue b), read_turn n b)"
    by (subst bio_read_loop.simps) (simp add: c t(3) Let_def)
  thus thesis using that t by blast
next
  case False
  define k where "k = b_size b - b_offset b"
  have i: "b_len b \<le> b_size b" "b_offset b < b_size b" using inv by (simp_all add: ring_inv_def)
  have k: "0 < k" "k < n" "b_offset b + k = b_size b" using False i by (auto simp: k_def)
  note t = read_turn_spec [OF inv, of k]
  have t': "ring_inv (read_turn k b)" "queue (read_turn k b) = drop k (queue b)"
    "take k (drop (b_offset b) (buf_of b)) = take k (queue b)" "same_ring b (read_turn k b)" "b_len (read_turn k b) = b_len b - k"
    using t k n by simp_all
  have o: "b_offset (read_turn k b) = 0" using k n by (simp add: read_turn_def Let_def)
  have sz: "b_size (read_turn k b) = b_size b" using t'(4) by (simp add: same_ring_def)
  have fit: "b_offset (read_turn k b) + (n - k) \<le> b_size (read_turn k b)" using o sz n i by simp
  note u = read_turn_spec [OF t'(1) _ fit]
  have u': "ring_inv (read_turn (n - k) (read_turn k b))"
    "queue (read_turn (n - k) (read_turn k b)) = drop (n - k) (queue (read_turn k b))"
    "take (n - k) (drop (b_offset (read_turn k b)) (buf_of (read_turn k b))) = take (n - k) (queue (read_turn k b))"
    "same_ring (read_turn k b) (read_turn (n - k) (read_turn k b))"
    using u t'(5) n by simp_all
  have c: "read_chunk n b = k" "read_chunk (n - k) (read_turn k b) = n - k"
    using False fit by (simp_all add: read_chunk_def k_def)
  have last_turn: "bio_read_loop (n - k) (read_turn k b) out = Some (out @ take (n - k) (queue (read_turn k b)), read_turn (n - k) (read_turn k b))" for out
    using k(2) by (subst bio_read_loop.simps) (simp add: c u'(3) Let_def)
  have "bio_read_loop n b [] = Some (take k (queue b) @ take (n - k) (drop k (queue b)), read_turn (n - k) (read_turn k b))"
    using k(2) by (subst bio_read_loop.simps) (simp add: c t'(3) last_turn Let_def t'(2))
  moreover have "take k (queue b) @ take (n - k) (drop k (queue b)) = take n (queue b)"
    using k(2) by (metis add_diff_inverse_nat less_imp_le_nat not_less take_add)
  moreover have "queue (read_turn (n - k) (read_turn k b)) = drop n (queue b)" using u'(2) t'(2) k(2) by simp
  moreover have "same_ring b (read_turn (n - k) (read_turn k b))" using t'(4) u'(4) by (simp add: same_ring_def)
  ultimately show thesis using that u'(1) by metis
qed

text \<open>One turn of the loop of \<open>bio_write\<close>.\<close>

definition write_turn :: "byte list \<Rightarrow> bio_bio_st \<Rightarrow> bio_bio_st" where
  "write_turn xs b = b\<lparr>b_buf := Some (write_at (buf_of b) (write_offset b) xs), b_len := b_len b + length xs\<rparr>"

lemma write_turn_spec:
  assumes inv: "ring_inv b" and len: "b_len b + length xs \<le> b_size b" and fit: "write_offset b + length xs \<le> b_size b"
  shows "ring_inv (write_turn xs b)" "queue (write_turn xs b) = queue b @ xs" "same_ring b (write_turn xs b)"
    "b_len (write_turn xs b) = b_len b + length xs" "b_offset (write_turn xs b) = b_offset b"
proof -
  let ?off = "b_offset b" and ?m = "buf_of b" and ?n = "b_len b" and ?w = "write_offset b"
  have i: "b_buf b = Some ?m" "length ?m = b_size b" "?n \<le> b_size b" "?off < b_size b" "?n = 0 \<longrightarrow> ?off = 0" using inv by (simp_all add: ring_inv_def)
  have buf: "buf_of (write_turn xs b) = write_at ?m ?w xs" "b_buf (write_turn xs b) = Some (write_at ?m ?w xs)"
    by (simp_all add: write_turn_def buf_of_def)
  show "same_ring b (write_turn xs b)" and ln: "b_len (write_turn xs b) = ?n + length xs" and o: "b_offset (write_turn xs b) = ?off"
    by (simp_all add: write_turn_def same_ring_def)
  have sz: "b_size (write_turn xs b) = b_size b" by (simp add: write_turn_def)
  have wl: "length (write_at ?m ?w xs) = b_size b" using fit i(2) by (simp add: write_at_def)
  show "ring_inv (write_turn xs b)"
    using i len wl unfolding ring_inv_def buf sz ln o by auto
  have "take (?n + length xs) (drop ?off (write_at ?m ?w xs) @ take ?off (write_at ?m ?w xs)) = take ?n (drop ?off ?m @ take ?off ?m) @ xs"
  proof (cases "?off + ?n < b_size b")
    case True
    hence w: "?w = ?off + ?n" by (simp add: write_offset_def Let_def)
    show ?thesis using True fit len i unfolding w by (simp add: write_at_def min_absorb1 min_absorb2 drop_take)
  next
    case False
    hence w: "?w = ?off + ?n - b_size b" by (simp add: write_offset_def Let_def)
    have le: "?w + length xs \<le> ?off" using False len w i by linarith
    have "?n + length xs - (b_size b - ?off) = ?w + length xs" "?n - (b_size b - ?off) = ?w" using False w i by linarith+
    thus ?thesis using False le len i by (simp add: write_at_def min_absorb1 min_absorb2)
  qed
  thus "queue (write_turn xs b) = queue b @ xs" unfolding queue_def buf ln o .
qed

lemma bio_write_loop_turn:
  assumes "0 < n" "n \<le> length data"
  shows "bio_write_loop n data b =
     (let k = write_chunk n b; b' = write_turn (take k data) b in if n - k \<noteq> 0 then bio_write_loop (n - k) (drop k data) b' else Some b')"
proof -
  have "write_chunk n b \<le> n" unfolding write_chunk_def by auto
  hence "length (take (write_chunk n b) data) = write_chunk n b" using assms by simp
  thus ?thesis by (subst bio_write_loop.simps) (simp add: write_turn_def Let_def)
qed

lemma bio_write_loop_spec:
  assumes inv: "ring_inv b" and n: "0 < n" "n \<le> b_size b - b_len b" "n \<le> length data"
  obtains b' where "bio_write_loop n data b = Some b'" "ring_inv b'" "queue b' = queue b @ take n data" "same_ring b b'"
proof -
  let ?w = "write_offset b"
  have i: "b_len b \<le> b_size b" "b_offset b < b_size b" using inv by (simp_all add: ring_inv_def)
  have w: "?w < b_size b" using i n unfolding write_offset_def Let_def by (auto split: if_splits)
  show thesis
  proof (cases "?w + n \<le> b_size b")
    case True
    hence "write_chunk n b = n" by (simp add: write_chunk_def)
    hence "bio_write_loop n data b = Some (write_turn (take n data) b)"
      by (simp add: bio_write_loop_turn [OF n(1,3)] Let_def)
    moreover note write_turn_spec [OF inv, of "take n data"]
    ultimately show thesis using that n True i by simp
  next
    case False
    define k where "k = b_size b - ?w"
    have k: "0 < k" "k < n" "?w + k = b_size b" using False w by (auto simp: k_def)
    let ?b = "write_turn (take k data) b"
    have lk: "length (take k data) = k" using k n by simp
    have t: "ring_inv ?b" "queue ?b = queue b @ take k data" "same_ring b ?b" "b_len ?b = b_len b + k" "b_offset ?b = b_offset b"
      using write_turn_spec [OF inv, of "take k data"] k n i unfolding lk by auto
    have sz: "b_size ?b = b_size b" using t(3) by (simp add: same_ring_def)
    have nowrap: "?w = b_offset b + b_len b" using False n i by (auto simp: write_offset_def Let_def split: if_splits)
    have w2: "write_offset ?b = 0" unfolding write_offset_def Let_def t sz using nowrap k by simp
    have c: "write_chunk n b = k" "write_chunk (n - k) ?b = n - k" using False w2 sz n by (simp_all add: write_chunk_def k_def)
    have "bio_write_loop n data b = bio_write_loop (n - k) (drop k data) ?b"
      using k by (simp add: bio_write_loop_turn [OF n(1,3)] c Let_def)
    also have "\<dots> = Some (write_turn (take (n - k) (drop k data)) ?b)"
      using k n by (subst bio_write_loop_turn) (simp_all add: c Let_def)
    finally have r: "bio_write_loop n data b = Some (write_turn (take (n - k) (drop k data)) ?b)" .
    have u: "ring_inv (write_turn (take (n - k) (drop k data)) ?b)"
      "queue (write_turn (take (n - k) (drop k data)) ?b) = queue ?b @ take (n - k) (drop k data)"
      "same_ring ?b (write_turn (take (n - k) (drop k data)) ?b)"
      using write_turn_spec [OF t(1), of "take (n - k) (drop k data)"] t(4) sz w2 n k by simp_all
    have "take n data = take k data @ take (n - k) (drop k data)" using k(2) by (metis add_diff_inverse_nat less_imp_le_nat not_less take_add)
    thus thesis using that [OF r u(1)] u(2,3) t(2,3) by (simp add: same_ring_def)
  qed
qed

subsection \<open>The operations on a connected pair\<close>

text \<open>An endpoint of a connected pair.\<close>

definition linked :: "bio \<Rightarrow> bool" where
  "linked bio \<longleftrightarrow> bio_init bio \<and> peer (bio_ptr bio) \<and> ring_inv (bio_ptr bio) \<and>
     request (bio_ptr bio) \<le> b_size (bio_ptr bio) - b_len (bio_ptr bio) \<and> (b_len (bio_ptr bio) \<noteq> 0 \<longrightarrow> request (bio_ptr bio) = 0)"

abbreviation pending :: "bio \<Rightarrow> byte list" where
  "pending bio \<equiv> queue (bio_ptr bio)"

abbreviation room :: "bio \<Rightarrow> nat" where
  "room bio \<equiv> b_size (bio_ptr bio) - b_len (bio_ptr bio)"

lemma linked_ring: "linked bio \<Longrightarrow> ring_inv (bio_ptr bio)"
  by (simp add: linked_def)

lemma queue_request [simp]: "queue (b\<lparr>request := r\<rparr>) = queue b" "ring_inv (b\<lparr>request := r\<rparr>) = ring_inv b"
    "buf_of (b\<lparr>request := r\<rparr>) = buf_of b"
  by (simp_all add: queue_def ring_inv_def buf_of_def)

lemma queue_closed [simp]: "queue (b\<lparr>closed := c\<rparr>) = queue b" "ring_inv (b\<lparr>closed := c\<rparr>) = ring_inv b"
  by (simp_all add: queue_def ring_inv_def buf_of_def)

lemma linked_retry [simp]: "linked (bio\<lparr>bio_retry := r\<rparr>) = linked bio" "linked (bio\<lparr>bio_shutdown := c\<rparr>) = linked bio"
  by (simp_all add: linked_def)

text \<open>
  \<open>bio_read\<close> delivers the front of the peer's queue, as much as is there; when it is empty the result is
  0 after a shutdown and -1 before, with the number of bytes wanted left in \<open>request\<close>.
\<close>

lemma bio_read_result:
  assumes me: "linked me" and other: "linked other"
  obtains me' other' where
    "bio_read have_buf n me other =
       Some (if \<not> have_buf \<or> n = 0 then 0 else if pending other = [] then (if closed (bio_ptr other) then 0 else - 1)
             else int (min n (length (pending other))),
             if have_buf then take n (pending other) else [], me', other')"
    "linked me'" "linked other'" "bio_ptr me' = bio_ptr me"
    "pending other' = (if have_buf then drop n (pending other) else pending other)"
    "closed (bio_ptr other') = closed (bio_ptr other)"
    "bio_retry me' = (if have_buf \<and> n \<noteq> 0 \<and> pending other = [] \<and> \<not> closed (bio_ptr other) then Retry_read else No_retry)"
    "b_size (bio_ptr other') = b_size (bio_ptr other)"
proof -
  let ?b = "bio_ptr other" and ?me = "BIO_clear_retry_flags me" and ?b0 = "bio_ptr other\<lparr>request := 0\<rparr>"
  have me': "linked ?me" "bio_init ?me" "bio_ptr ?me = bio_ptr me" "bio_retry ?me = No_retry"
    using me by (simp_all add: BIO_clear_retry_flags_def linked_def)
  have ring: "ring_inv ?b" using other by (simp add: linked_def)
  have len: "length (queue ?b) = b_len ?b" and nil: "queue ?b = [] \<longleftrightarrow> b_len ?b = 0"
    using length_queue [OF ring] by auto
  have o0: "linked (other\<lparr>bio_ptr := ?b0\<rparr>)" using other by (simp add: linked_def)
  consider (none) "\<not> have_buf \<or> n = 0" | (empty) "have_buf" "n \<noteq> 0" "b_len ?b = 0" | (some) "have_buf" "n \<noteq> 0" "b_len ?b \<noteq> 0" by blast
  thus thesis
  proof cases
    case none
    show thesis
      by (rule that [of ?me "other\<lparr>bio_ptr := ?b0\<rparr>"]) (use none me' o0 in \<open>auto simp: bio_read_def Let_def\<close>)
  next
    case empty
    let ?o = "other\<lparr>bio_ptr := ?b0\<lparr>request := (if n \<le> b_size ?b then n else b_size ?b)\<rparr>\<rparr>"
    have "linked ?o" using other empty by (simp add: linked_def)
    with empty me' o0 nil show thesis
      by (cases "closed ?b")
        (rule that [of ?me "other\<lparr>bio_ptr := ?b0\<rparr>"] that [of "?me\<lparr>bio_retry := Retry_read\<rparr>" ?o]; simp add: bio_read_def Let_def)+
  next
    case some
    define k where "k = (if b_len ?b < n then b_len ?b else n)"
    have k: "0 < k" "k \<le> b_len ?b0" "k = min n (b_len ?b)" using some by (auto simp: k_def)
    obtain b' where b': "bio_read_loop k ?b0 [] = Some (take k (queue ?b0), b')" "ring_inv b'" "queue b' = drop k (queue ?b0)" "same_ring ?b0 b'"
      using bio_read_loop_spec [of ?b0 k] ring k by auto
    have r: "bio_read have_buf n me other = Some (int k, take k (queue ?b), ?me, other\<lparr>bio_ptr := b'\<rparr>)"
      using some me' b'(1) by (simp add: bio_read_def Let_def k_def)
    have t: "take k (queue ?b) = take n (queue ?b)" "drop k (queue ?b) = drop n (queue ?b)" using len by (auto simp: k(3) min_def)
    have "linked (other\<lparr>bio_ptr := b'\<rparr>)" using b' other by (simp add: linked_def same_ring_def)
    thus thesis
      using that [of ?me "other\<lparr>bio_ptr := b'\<rparr>"] r t b' me' some k(3) len nil by (simp add: same_ring_def)
  qed
qed

text \<open>
  \<open>bio_write\<close> appends what fits to the queue; -1 after a shutdown and when the buffer is full.
\<close>

lemma bio_write_result:
  assumes me: "linked me"
  obtains me' where
    "bio_write (Some data) me =
       Some (if data = [] then 0 else if closed (bio_ptr me) \<or> room me = 0 then - 1 else int (min (length data) (room me)), me')"
    "linked me'" "closed (bio_ptr me') = closed (bio_ptr me)" "b_size (bio_ptr me') = b_size (bio_ptr me)"
    "pending me' = (if closed (bio_ptr me) then pending me else pending me @ take (room me) data)"
    "bio_retry me' = (if data \<noteq> [] \<and> \<not> closed (bio_ptr me) \<and> room me = 0 then Retry_write else No_retry)"
proof -
  let ?b = "bio_ptr me" and ?me = "BIO_clear_retry_flags me" and ?b0 = "bio_ptr me\<lparr>request := 0\<rparr>"
  have me': "linked ?me" "bio_init ?me" "bio_ptr ?me = bio_ptr me" "bio_retry ?me = No_retry"
    using me by (simp_all add: BIO_clear_retry_flags_def linked_def)
  have ring: "ring_inv ?b" using me by (simp add: linked_def)
  have len: "b_len ?b \<le> b_size ?b" using ring by (simp add: ring_inv_def)
  have o0: "linked (?me\<lparr>bio_ptr := ?b0\<rparr>)" using me' by (simp add: linked_def)
  consider (none) "data = []" | (shut) "data \<noteq> []" "closed ?b" | (full) "data \<noteq> []" "\<not> closed ?b" "b_len ?b = b_size ?b"
    | (some) "data \<noteq> []" "\<not> closed ?b" "b_len ?b < b_size ?b" using len by linarith
  thus thesis
  proof cases
    case none
    show thesis by (rule that [of ?me]) (use none me' in \<open>auto simp: bio_write_def Let_def\<close>)
  next
    case shut
    show thesis by (rule that [of "?me\<lparr>bio_ptr := ?b0\<rparr>"]) (use shut me' o0 in \<open>auto simp: bio_write_def Let_def\<close>)
  next
    case full
    show thesis
      by (rule that [of "?me\<lparr>bio_ptr := ?b0, bio_retry := Retry_write\<rparr>"]) (use full me' o0 in \<open>auto simp: bio_write_def Let_def\<close>)
  next
    case some
    define k where "k = (if length data > b_size ?b - b_len ?b then b_size ?b - b_len ?b else length data)"
    have k: "0 < k" "k \<le> b_size ?b0 - b_len ?b0" "k \<le> length data" "k = min (length data) (room me)"
      using some by (auto simp: k_def)
    obtain b' where b': "bio_write_loop k data ?b0 = Some b'" "ring_inv b'" "queue b' = queue ?b0 @ take k data" "same_ring ?b0 b'"
      using bio_write_loop_spec [OF _ k(1-3)] ring by auto
    have r: "bio_write (Some data) me = Some (int k, ?me\<lparr>bio_ptr := b'\<rparr>)"
      using some me' b'(1) by (simp add: bio_write_def Let_def k_def)
    have "linked (?me\<lparr>bio_ptr := b'\<rparr>)" using b' me' by (simp add: linked_def same_ring_def)
    moreover have "take k data = take (room me) data" by (auto simp: k(4) min_def)
    ultimately show thesis
      using that [of "?me\<lparr>bio_ptr := b'\<rparr>"] r b' me' some k(4) by (simp add: same_ring_def)
  qed
qed

lemma bio_write_NULL: "bio_write None me = Some (0, BIO_clear_retry_flags me)"
  by (simp add: bio_write_def Let_def)

text \<open>No control command touches the bytes in transit.\<close>

lemma bio_ctrl_keeps:
  assumes "linked me" "bio_ctrl me other c n p = (r, me')"
  shows "linked me'" "pending me' = pending me" "b_size (bio_ptr me') = b_size (bio_ptr me)"
  using assms by (cases c; auto simp: linked_def)+

lemma BIO_new_bio_pair_linked:
  assumes al: "allocates al" and pair: "BIO_new_bio_pair al ok1 ok2 n1 n2 = Some (b1, b2)"
  shows "linked b1" "linked b2" "pending b1 = []" "pending b2 = []"
    "b_size (bio_ptr b1) = (if n1 = 0 then 17 * 1024 else n1)" "b_size (bio_ptr b2) = (if n2 = 0 then 17 * 1024 else n2)"
  using pair
  by (auto simp: BIO_new_bio_pair_def BIO_new_def bio_new_def bio_make_pair_def give_buffer_def link_peer_def linked_def ring_inv_def
      buf_of_def queue_def Let_def split: option.splits if_splits dest!: allocatesD [OF al])

text \<open>Creation fails exactly when one of the four allocations does.\<close>

lemma BIO_new_bio_pair_None:
  "BIO_new_bio_pair al ok1 ok2 n1 n2 = None \<longleftrightarrow>
     \<not> ok1 \<or> \<not> ok2 \<or> al (if n1 = 0 then 17 * 1024 else n1) = None \<or> al (if n2 = 0 then 17 * 1024 else n2) = None"
  by (auto simp: BIO_new_bio_pair_def BIO_new_def bio_new_def bio_make_pair_def give_buffer_def Let_def split: option.splits)

text \<open>An endpoint whose peer is freed is unlinked: reading and writing give 0, and nothing is pending.\<close>

lemma bio_free_peer:
  assumes "linked me" "linked other"
  shows "bio_write buf (bio_free me other) = Some (0, BIO_clear_retry_flags (bio_free me other))"
    "bio_read have_buf n (bio_free me other) gone = Some (0, [], BIO_clear_retry_flags (bio_free me other), gone)"
    "pending (bio_free me other) = []"
  using assms
  by (auto simp: bio_free_def bio_destroy_pair_def bio_unlink_def linked_def bio_write_def bio_read_def BIO_clear_retry_flags_def
      queue_def Let_def)

subsection \<open>Runs of a pair\<close>

datatype pair_op = Write "byte list option" | Read bool nat | Ctrl bio_cmd int bool

text \<open>
  One operation on the endpoint \<open>me\<close>: the bytes accepted and the bytes delivered, as the returned values
  count them, and the two endpoints.
\<close>

definition pair_step :: "pair_op \<Rightarrow> bio \<Rightarrow> bio \<Rightarrow> (byte list \<times> byte list \<times> bio \<times> bio) option" where
  "pair_step op me other =
     (case op of
        Write buf \<Rightarrow>
          map_option (\<lambda>(r, me'). (case buf of None \<Rightarrow> [] | Some data \<Rightarrow> take (nat r) data, [], me', other)) (bio_write buf me)
      | Read have_buf n \<Rightarrow> map_option (\<lambda>(r, out, me', other'). ([], take (nat r) out, me', other')) (bio_read have_buf n me other)
      | Ctrl c n to_peer \<Rightarrow>
          (case bio_ctrl me other c n (if to_peer then Some other else None) of (r, me') \<Rightarrow> Some ([], [], me', other)))"

record traffic =
  sent1 :: "byte list"
  got1 :: "byte list"
  sent2 :: "byte list"
  got2 :: "byte list"

text \<open>A run: each operation is marked with the endpoint it is called on (\<open>True\<close> for the first).\<close>

fun pair_run :: "(bool \<times> pair_op) list \<Rightarrow> traffic \<times> bio \<times> bio \<Rightarrow> (traffic \<times> bio \<times> bio) option" where
  "pair_run [] s = Some s"
| "pair_run ((first, op) # ops) (t, b1, b2) =
     (if first
      then (case pair_step op b1 b2 of
              None \<Rightarrow> None
            | Some (w, r, b1, b2) \<Rightarrow> pair_run ops (t\<lparr>sent1 := sent1 t @ w, got1 := got1 t @ r\<rparr>, b1, b2))
      else (case pair_step op b2 b1 of
              None \<Rightarrow> None
            | Some (w, r, b2, b1) \<Rightarrow> pair_run ops (t\<lparr>sent2 := sent2 t @ w, got2 := got2 t @ r\<rparr>, b1, b2)))"

lemma pair_step_fifo:
  assumes "linked me" "linked other"
  obtains w r me' other' where "pair_step op me other = Some (w, r, me', other')" "linked me'" "linked other'"
    "pending me' = pending me @ w" "pending other = r @ pending other'"
    "b_size (bio_ptr me') = b_size (bio_ptr me)" "b_size (bio_ptr other') = b_size (bio_ptr other)"
proof (cases op)
  case (Write buf)
  show thesis
  proof (cases buf)
    case None
    have "linked (BIO_clear_retry_flags me)" "pending (BIO_clear_retry_flags me) = pending me"
      using assms by (simp_all add: BIO_clear_retry_flags_def)
    thus thesis using that [of "[]" "[]" "BIO_clear_retry_flags me" other] assms
      by (simp add: Write None pair_step_def bio_write_NULL BIO_clear_retry_flags_def)
  next
    case (Some data)
    obtain me' where w: "bio_write (Some data) me =
       Some (if data = [] then 0 else if closed (bio_ptr me) \<or> room me = 0 then - 1 else int (min (length data) (room me)), me')"
      "linked me'" "b_size (bio_ptr me') = b_size (bio_ptr me)"
      "pending me' = (if closed (bio_ptr me) then pending me else pending me @ take (room me) data)"
      using bio_write_result [OF assms(1), of data] by metis
    let ?w = "if closed (bio_ptr me) then [] else take (room me) data"
    have "pair_step op me other = Some (?w, [], me', other)"
      unfolding Write Some pair_step_def pair_op.case w(1) by (auto simp: min_def)
    thus thesis using that w assms by fastforce
  qed
next
  case (Read have_buf n)
  obtain me' other' where r: "bio_read have_buf n me other =
       Some (if \<not> have_buf \<or> n = 0 then 0 else if pending other = [] then (if closed (bio_ptr other) then 0 else - 1)
             else int (min n (length (pending other))),
             if have_buf then take n (pending other) else [], me', other')"
    "linked me'" "linked other'" "bio_ptr me' = bio_ptr me"
    "pending other' = (if have_buf then drop n (pending other) else pending other)"
    "b_size (bio_ptr other') = b_size (bio_ptr other)"
    using bio_read_result [OF assms, of have_buf n] by metis
  let ?r = "if have_buf then take n (pending other) else []"
  have "pair_step op me other = Some ([], ?r, me', other')"
    unfolding Read pair_step_def pair_op.case r(1) by (auto simp: min_def)
  thus thesis using that [of "[]" ?r me' other'] r assms by simp
next
  case (Ctrl c n to_peer)
  obtain v me' where c: "bio_ctrl me other c n (if to_peer then Some other else None) = (v, me')" by fastforce
  from that [of "[]" "[]" me' other] bio_ctrl_keeps [OF assms(1) c] assms c show thesis
    by (simp add: Ctrl pair_step_def)
qed

definition fifo :: "traffic \<times> bio \<times> bio \<Rightarrow> bool" where
  "fifo s \<longleftrightarrow> (case s of (t, b1, b2) \<Rightarrow>
     linked b1 \<and> linked b2 \<and> sent1 t = got2 t @ pending b1 \<and> sent2 t = got1 t @ pending b2)"

lemma pair_run_fifo:
  "fifo (t, b1, b2) \<Longrightarrow> \<exists>t' b1' b2'. pair_run ops (t, b1, b2) = Some (t', b1', b2') \<and> fifo (t', b1', b2') \<and>
     b_size (bio_ptr b1') = b_size (bio_ptr b1) \<and> b_size (bio_ptr b2') = b_size (bio_ptr b2)"
proof (induction ops arbitrary: t b1 b2)
  case (Cons x ops)
  obtain first op where x: "x = (first, op)" by fastforce
  have l: "linked b1" "linked b2" and q: "sent1 t = got2 t @ pending b1" "sent2 t = got1 t @ pending b2"
    using Cons.prems by (simp_all add: fifo_def)
  show ?case
  proof (cases first)
    case True
    obtain w r b1' b2' where s: "pair_step op b1 b2 = Some (w, r, b1', b2')" "linked b1'" "linked b2'"
      "pending b1' = pending b1 @ w" "pending b2 = r @ pending b2'"
      "b_size (bio_ptr b1') = b_size (bio_ptr b1)" "b_size (bio_ptr b2') = b_size (bio_ptr b2)"
      using pair_step_fifo [OF l] by metis
    have "fifo (t\<lparr>sent1 := sent1 t @ w, got1 := got1 t @ r\<rparr>, b1', b2')" using s q by (simp add: fifo_def)
    from Cons.IH [OF this] show ?thesis using True s by (simp add: x)
  next
    case False
    obtain w r b1' b2' where s: "pair_step op b2 b1 = Some (w, r, b2', b1')" "linked b1'" "linked b2'"
      "pending b2' = pending b2 @ w" "pending b1 = r @ pending b1'"
      "b_size (bio_ptr b1') = b_size (bio_ptr b1)" "b_size (bio_ptr b2') = b_size (bio_ptr b2)"
      using pair_step_fifo [OF l(2,1)] by metis
    have "fifo (t\<lparr>sent2 := sent2 t @ w, got2 := got2 t @ r\<rparr>, b1', b2')" using s q by (simp add: fifo_def)
    from Cons.IH [OF this] show ?thesis using False s by (simp add: x)
  qed
qed simp

lemma fifo_bound:
  "fifo (t, b1, b2) \<Longrightarrow> length (pending b1) \<le> b_size (bio_ptr b1) \<and> length (pending b2) \<le> b_size (bio_ptr b2)"
  by (auto simp: fifo_def ring_inv_def dest!: linked_ring simp: length_queue)

text \<open>One read of the size of the buffer on each end empties both directions.\<close>

lemma pair_read_all:
  assumes "linked me" "linked other"
  shows "\<exists>me' other'. pair_step (Read True (b_size (bio_ptr other))) me other = Some ([], pending other, me', other') \<and>
     bio_ptr me' = bio_ptr me \<and> linked me' \<and> linked other'"
proof -
  obtain me' other' where r: "bio_read True (b_size (bio_ptr other)) me other =
       Some (if \<not> True \<or> b_size (bio_ptr other) = 0 then 0 else if pending other = [] then (if closed (bio_ptr other) then 0 else - 1)
             else int (min (b_size (bio_ptr other)) (length (pending other))),
             if True then take (b_size (bio_ptr other)) (pending other) else [], me', other')"
    "linked me'" "linked other'" "bio_ptr me' = bio_ptr me"
    using bio_read_result [OF assms, of True "b_size (bio_ptr other)"] by metis
  have "length (pending other) \<le> b_size (bio_ptr other)" "b_size (bio_ptr other) \<noteq> 0"
    using linked_ring [OF assms(2)] by (auto simp: length_queue ring_inv_def)
  with r show ?thesis by (auto simp: pair_step_def min_def)
qed

lemma pair_drain:
  assumes "fifo (t, b1, b2)"
  shows "\<exists>t' b1' b2'. pair_run [(False, Read True (b_size (bio_ptr b1))), (True, Read True (b_size (bio_ptr b2)))] (t, b1, b2) =
     Some (t', b1', b2') \<and> got2 t' = sent1 t \<and> got1 t' = sent2 t"
proof -
  have l: "linked b1" "linked b2" using assms by (simp_all add: fifo_def)
  obtain b2a b1a where 1: "pair_step (Read True (b_size (bio_ptr b1))) b2 b1 = Some ([], pending b1, b2a, b1a)"
    "bio_ptr b2a = bio_ptr b2" "linked b2a" "linked b1a"
    using pair_read_all [OF l(2,1)] by blast
  obtain b1b b2b where 2: "pair_step (Read True (b_size (bio_ptr b2a))) b1a b2a = Some ([], pending b2a, b1b, b2b)"
    using pair_read_all [OF 1(4,3)] by blast
  show ?thesis using assms 1 2 by (simp add: fifo_def)
qed

text \<open>Equations that evaluate concrete runs.\<close>

lemma bio_read_loop_eval:
  "rest \<le> read_chunk rest b \<Longrightarrow>
     bio_read_loop rest b out = Some (out @ take (read_chunk rest b) (drop (b_offset b) (buf_of b)), read_turn (read_chunk rest b) b)"
  "read_chunk rest b < rest \<Longrightarrow>
     bio_read_loop rest b out = bio_read_loop (rest - read_chunk rest b) (read_turn (read_chunk rest b) b)
       (out @ take (read_chunk rest b) (drop (b_offset b) (buf_of b)))"
  by (subst bio_read_loop.simps, simp add: Let_def)+

lemma bio_write_loop_eval:
  "rest \<le> write_chunk rest b \<Longrightarrow>
     bio_write_loop rest data b =
       Some (b\<lparr>b_buf := Some (write_at (buf_of b) (write_offset b) (take (write_chunk rest b) data)), b_len := b_len b + write_chunk rest b\<rparr>)"
  "write_chunk rest b < rest \<Longrightarrow>
     bio_write_loop rest data b = bio_write_loop (rest - write_chunk rest b) (drop (write_chunk rest b) data)
       (b\<lparr>b_buf := Some (write_at (buf_of b) (write_offset b) (take (write_chunk rest b) data)), b_len := b_len b + write_chunk rest b\<rparr>)"
  by (subst bio_write_loop.simps, simp add: Let_def)+

lemmas pair_run_eval = pair_step_def bio_read_def bio_write_def BIO_clear_retry_flags_def bio_read_loop_eval bio_write_loop_eval
  read_chunk_def read_turn_def write_chunk_def write_offset_def buf_of_def write_at_def BIO_new_bio_pair_def BIO_new_def
  bio_new_def bio_make_pair_def give_buffer_def link_peer_def

end
