(* ===== verification/Mem.thy ===== *)
theory Mem
  imports Bytes_Prelude
begin

text \<open>
  The helpers of \<open>crypto/mem.c\<close> that the other components call: constant-time
  comparison, the FNV-1a hash, bounded string copies and the locale-independent character
  classes. A \<open>char *\<close> is the list of bytes that starts at the pointer; the string it denotes
  ends before the first zero byte.
\<close>

subsection \<open>Comparing and hashing\<close>

definition CRYPTO_memcmp :: "byte list \<Rightarrow> byte list \<Rightarrow> byte" where
  "CRYPTO_memcmp a b = foldl (\<lambda>x (p, q). x OR (p XOR q)) 0 (zip a b)"

definition OPENSSL_hash32 :: "byte list \<Rightarrow> u32" where
  "OPENSSL_hash32 inp = foldl (\<lambda>h b. (h XOR ucast b) * 16777619) 2166136261 inp"

text \<open>\<open>memcmp\<close> of the C library: the sign of the first differing pair, read unsigned.\<close>

fun OPENSSL_memcmp :: "byte list \<Rightarrow> byte list \<Rightarrow> nat \<Rightarrow> int" where
  "OPENSSL_memcmp (a # as) (b # bs) (Suc n) =
     (if a < b then - 1 else if b < a then 1 else OPENSSL_memcmp as bs n)"
| "OPENSSL_memcmp as bs n = 0"

subsection \<open>Strings\<close>

fun OPENSSL_strnlen :: "byte list \<Rightarrow> nat \<Rightarrow> nat" where
  "OPENSSL_strnlen s 0 = 0"
| "OPENSSL_strnlen [] (Suc n) = 0"
| "OPENSSL_strnlen (c # s) (Suc n) = (if c = 0 then 0 else Suc (OPENSSL_strnlen s n))"

definition strlen :: "byte list \<Rightarrow> nat" where
  "strlen s = length (takeWhile (\<lambda>c. c \<noteq> 0) s)"

definition OPENSSL_strhash :: "byte list \<Rightarrow> u32" where
  "OPENSSL_strhash s = OPENSSL_hash32 (take (strlen s) s)"

definition OPENSSL_memdup :: "allocator \<Rightarrow> byte list \<Rightarrow> byte list option" where
  "OPENSSL_memdup al data =
     (if length data = 0 then None
      else case al (length data) of None \<Rightarrow> None
           | Some ret \<Rightarrow> Some (write_at ret 0 data))"

definition OPENSSL_strdup :: "allocator \<Rightarrow> byte list option \<Rightarrow> byte list option" where
  "OPENSSL_strdup al s =
     (case s of None \<Rightarrow> None
      | Some str \<Rightarrow>
          (let len = strlen str + 1
           in case al len of None \<Rightarrow> None
              | Some ret \<Rightarrow> Some (write_at ret 0 (take len str))))"

definition OPENSSL_strndup :: "allocator \<Rightarrow> byte list \<Rightarrow> nat \<Rightarrow> byte list option" where
  "OPENSSL_strndup al str n =
     (let size = OPENSSL_strnlen str n;
          alloc_size = (size + 1) mod size_mod
      in if alloc_size < size then None
         else case al alloc_size of None \<Rightarrow> None
              | Some ret \<Rightarrow> Some (write_at (write_at ret 0 (take size str)) size [0]))"

text \<open>
  The copy loop of \<open>OPENSSL_strlcpy\<close>, over the rest of the destination, its size and the
  rest of the source; the result is the number of bytes copied, the destination and the
  source that is left.
\<close>

fun strlcpy_loop :: "byte list \<Rightarrow> byte list \<Rightarrow> nat \<Rightarrow> nat \<Rightarrow> byte list \<times> nat \<times> nat \<times> byte list" where
  "strlcpy_loop dst [] dst_size l = (dst, dst_size, l, [])"
| "strlcpy_loop dst (c # src) dst_size l =
     (if dst_size > 1 \<and> c \<noteq> 0
      then strlcpy_loop (write_at dst l [c]) src (dst_size - 1) (l + 1)
      else (dst, dst_size, l, c # src))"

definition OPENSSL_strlcpy :: "byte list \<Rightarrow> byte list \<Rightarrow> nat \<Rightarrow> byte list \<times> nat" where
  "OPENSSL_strlcpy dst src dst_size =
     (case strlcpy_loop dst src dst_size 0 of (dst', size', l, src') \<Rightarrow>
        (if size' \<noteq> 0 then write_at dst' l [0] else dst', l + strlen src'))"

definition OPENSSL_strlcat :: "byte list \<Rightarrow> byte list \<Rightarrow> nat \<Rightarrow> byte list \<times> nat" where
  "OPENSSL_strlcat dst src dst_size =
     (let l = OPENSSL_strnlen dst dst_size
      in case OPENSSL_strlcpy (drop l dst) src (dst_size - l) of (rest, n) \<Rightarrow>
           (take l dst @ rest, l + n))"

subsection \<open>Character classes\<close>

definition OPENSSL_isalpha :: "int \<Rightarrow> bool" where
  "OPENSSL_isalpha c \<longleftrightarrow> (c \<ge> 97 \<and> c \<le> 122) \<or> (c \<ge> 65 \<and> c \<le> 90)"

definition OPENSSL_isdigit :: "int \<Rightarrow> bool" where
  "OPENSSL_isdigit c \<longleftrightarrow> c \<ge> 48 \<and> c \<le> 57"

definition OPENSSL_isxdigit :: "int \<Rightarrow> bool" where
  "OPENSSL_isxdigit c \<longleftrightarrow> OPENSSL_isdigit c \<or> (c \<ge> 97 \<and> c \<le> 102) \<or> (c \<ge> 65 \<and> c \<le> 70)"

definition OPENSSL_fromxdigit :: "int \<Rightarrow> byte option" where
  "OPENSSL_fromxdigit c =
     (if OPENSSL_isdigit c then Some (word_of_int (c - 48))
      else if 97 \<le> c \<and> c \<le> 102 then Some (word_of_int (c - 97 + 10))
      else if 65 \<le> c \<and> c \<le> 70 then Some (word_of_int (c - 65 + 10))
      else None)"

definition OPENSSL_isalnum :: "int \<Rightarrow> bool" where
  "OPENSSL_isalnum c \<longleftrightarrow> OPENSSL_isalpha c \<or> OPENSSL_isdigit c"

definition OPENSSL_tolower :: "int \<Rightarrow> int" where
  "OPENSSL_tolower c = (if c \<ge> 65 \<and> c \<le> 90 then c + (97 - 65) else c)"

definition OPENSSL_isspace :: "int \<Rightarrow> bool" where
  "OPENSSL_isspace c \<longleftrightarrow> c = 9 \<or> c = 10 \<or> c = 11 \<or> c = 12 \<or> c = 13 \<or> c = 32"

text \<open>
  \<open>OPENSSL_strcasecmp\<close> and \<open>OPENSSL_strncasecmp\<close> read plain \<open>char\<close>, which is signed on the
  targets. The end of a list stands for its terminating zero byte.
\<close>

definition char_at :: "byte list \<Rightarrow> int" where
  "char_at s = (case s of [] \<Rightarrow> 0 | c # _ \<Rightarrow> sint c)"

fun OPENSSL_strncasecmp :: "byte list \<Rightarrow> byte list \<Rightarrow> nat \<Rightarrow> int" where
  "OPENSSL_strncasecmp a b 0 = 0"
| "OPENSSL_strncasecmp a b (Suc n) =
     (let aa = OPENSSL_tolower (char_at a); bb = OPENSSL_tolower (char_at b)
      in if aa < bb then - 1 else if aa > bb then 1 else if aa = 0 then 0
         else OPENSSL_strncasecmp (tl a) (tl b) n)"

function OPENSSL_strcasecmp :: "byte list \<Rightarrow> byte list \<Rightarrow> int" where
  "OPENSSL_strcasecmp a b =
     (let aa = OPENSSL_tolower (char_at a); bb = OPENSSL_tolower (char_at b)
      in if aa < bb then - 1 else if aa > bb then 1 else if aa = 0 then 0
         else OPENSSL_strcasecmp (tl a) (tl b))"
  by pat_completeness auto
termination
proof (relation "measure (\<lambda>(a, b). length a)")
  show "wf (measure (\<lambda>(a, b). length (a :: byte list)))" by simp
next
  fix a b :: "byte list" and x xa :: int
  assume "x = OPENSSL_tolower (char_at a)" and "x \<noteq> 0"
  then have "a \<noteq> []" by (auto simp: char_at_def OPENSSL_tolower_def)
  then show "((tl a, tl b), a, b) \<in> measure (\<lambda>(a, b). length a)"
    by (cases a) auto
qed

declare OPENSSL_strcasecmp.simps [simp del]

subsection \<open>Facts\<close>

lemma memcmp_or_acc:
  "foldl (\<lambda>x (p, q). x OR (p XOR q)) (x0 :: byte) ps = 0 \<longleftrightarrow>
   x0 = 0 \<and> (\<forall>(p, q) \<in> set ps. p = q)"
proof (induction ps arbitrary: x0)
  case Nil
  then show ?case by simp
next
  case (Cons pq ps)
  obtain p q where pq: "pq = (p, q)" by (cases pq)
  have "x0 OR (p XOR q) = 0 \<longleftrightarrow> x0 = 0 \<and> p = q"
    by (metis or_eq_0_iff xor_self_eq bit.xor_self xor.right_neutral xor.assoc)
  with Cons show ?case by (auto simp: pq)
qed

lemma CRYPTO_memcmp_eq_0:
  assumes "length a = length b"
  shows "CRYPTO_memcmp a b = 0 \<longleftrightarrow> a = b"
proof -
  have "(\<forall>(p, q) \<in> set (zip a b). p = q) \<longleftrightarrow> a = b"
    using assms by (induction a b rule: list_induct2) auto
  then show ?thesis by (simp add: CRYPTO_memcmp_def memcmp_or_acc)
qed

lemma strnlen_le: "OPENSSL_strnlen s n \<le> n \<and> OPENSSL_strnlen s n \<le> length s"
  by (induction s n rule: OPENSSL_strnlen.induct) auto

lemma strnlen_takeWhile:
  "take (OPENSSL_strnlen s n) s = takeWhile (\<lambda>c. c \<noteq> 0) (take n s)"
  by (induction s n rule: OPENSSL_strnlen.induct) auto

lemma memdup_copy:
  "allocates al \<Longrightarrow> OPENSSL_memdup al data = Some m \<Longrightarrow> m = data"
  by (auto simp: OPENSSL_memdup_def write_at_def dest: allocatesD split: if_splits option.splits)

lemma strndup_copy:
  assumes al: "allocates al" and len: "n < size_mod"
    and r: "OPENSSL_strndup al str n = Some m"
  shows "m = takeWhile (\<lambda>c. c \<noteq> 0) (take n str) @ [0]"
proof -
  let ?k = "OPENSSL_strnlen str n"
  have k: "?k \<le> n" "?k \<le> length str" using strnlen_le by auto
  from r k len obtain b where b: "al (?k + 1) = Some b"
      and m: "m = write_at (write_at b 0 (take ?k str)) ?k [0]"
    by (cases "?k + 1 = size_mod") (auto simp: OPENSSL_strndup_def Let_def split: if_splits option.splits)
  from al b have "length b = ?k + 1" by (rule allocatesD)
  with m k show ?thesis by (simp add: write_at_def strnlen_takeWhile [symmetric])
qed

lemma strlcpy_loop_spec:
  assumes "strlcpy_loop dst src n l = (dst', n', l', src')" and "l + n \<le> length dst"
  shows "\<exists>p. src = p @ src' \<and> dst' = write_at dst l p \<and> l' = l + length p \<and> n' = n - length p
           \<and> length p \<le> n - 1 \<and> 0 \<notin> set p \<and> (n' > 1 \<longrightarrow> src' = [] \<or> hd src' = 0)"
  using assms
proof (induction dst src n l rule: strlcpy_loop.induct)
  case (1 dst n l)
  then show ?case by auto
next
  case (2 dst c src n l)
  show ?case
  proof (cases "n > 1 \<and> c \<noteq> 0")
    case True
    with 2 have "strlcpy_loop (write_at dst l [c]) src (n - 1) (l + 1) = (dst', n', l', src')"
      and "l + 1 + (n - 1) \<le> length (write_at dst l [c])" by auto
    with 2(1) True obtain p where p: "src = p @ src'" "dst' = write_at (write_at dst l [c]) (l + 1) p"
        "l' = l + 1 + length p" "n' = n - 1 - length p" "length p \<le> n - 1 - 1" "0 \<notin> set p"
        "n' > 1 \<longrightarrow> src' = [] \<or> hd src' = 0" by blast
    have "l + length [c] + length p \<le> length dst" using p(5) 2(3) True by auto
    then have "dst' = write_at dst l (c # p)"
      using p(2) write_at_append [of l "[c]" p dst] by simp
    with p True show ?thesis by (intro exI [of _ "c # p"]) auto
  next
    case False
    with 2 show ?thesis by auto
  qed
qed

text \<open>
  \<open>OPENSSL_strlcpy\<close> with a non-zero size writes a prefix of the source followed by a zero
  byte, never past \<open>dst_size\<close> bytes, and returns the length of the source string.
\<close>

lemma strlcpy_spec:
  assumes n: "0 < n" "n \<le> length dst" and r: "OPENSSL_strlcpy dst src n = (dst', k)"
  shows "k = strlen src" and "length dst' = length dst"
    and "dst' = write_at dst 0 (take (min (strlen src) (n - 1)) src @ [0])"
proof -
  obtain d m l s where L: "strlcpy_loop dst src n 0 = (d, m, l, s)"
    by (cases "strlcpy_loop dst src n 0") auto
  with strlcpy_loop_spec [OF L] n obtain p where p: "src = p @ s" "d = write_at dst 0 p"
      "l = length p" "m = n - length p" "length p \<le> n - 1" "0 \<notin> set p"
      "m > 1 \<longrightarrow> s = [] \<or> hd s = 0" by auto
  have p0: "takeWhile (\<lambda>c. c \<noteq> 0) p = p" using p(6) by (simp add: takeWhile_eq_all_conv) metis
  have sl: "strlen src = length p + strlen s"
    using p(6) p0 by (auto simp: strlen_def p(1) takeWhile_append)
  from r L p n have k: "k = length p + strlen s" and d': "dst' = write_at d (length p) [0]"
    by (auto simp: OPENSSL_strlcpy_def)
  from k sl show "k = strlen src" by simp
  have tk: "take (min (strlen src) (n - 1)) src = p"
  proof (cases "m > 1")
    case True
    with p(7) have "strlen s = 0" by (cases s) (auto simp: strlen_def)
    with sl p(1,5) show ?thesis by simp
  next
    case False
    with p(4,5) n have "length p = n - 1" by simp
    with sl p(1) show ?thesis by simp
  qed
  show "dst' = write_at dst 0 (take (min (strlen src) (n - 1)) src @ [0])"
    unfolding tk using d' p(2,5) n write_at_append [of 0 p "[0]" dst] by auto
  then show "length dst' = length dst" unfolding tk using p(5) n by auto
qed

end
