(* ===== verification/Cbs.thy ===== *)
theory Cbs
  imports Mem
begin

text \<open>
  The reader half of \<open>crypto/bytestring/cbs.c\<close>: a \<open>CBS\<close> is a pointer and a length into a
  buffer that is never written, so its state is the list of bytes it still covers. An
  operation that takes \<open>CBS *\<close> and returns an \<open>int\<close> with an output is a function from the
  state to the output (\<open>None\<close> where the C returns 0) and the state it leaves behind, on
  failure too. The locale \<open>cbs_reader\<close> is the contract the parsers share.
\<close>

type_synonym cbs = "byte list"
type_synonym 'a reader = "cbs \<Rightarrow> 'a option \<times> cbs"

text \<open>
  Sequencing: \<open>rbind m f\<close> is \<open>if (!m(cbs, &x)) return 0; f(x)\<close>, \<open>rret x\<close> stores the output
  and returns 1, \<open>rfail\<close> returns 0.
\<close>

definition rret :: "'a \<Rightarrow> 'a reader" where
  "rret x s = (Some x, s)"

definition rfail :: "'a reader" where
  "rfail s = (None, s)"

definition rbind :: "'a reader \<Rightarrow> ('a \<Rightarrow> 'b reader) \<Rightarrow> 'b reader" where
  "rbind m f s = (case m s of (None, s') \<Rightarrow> (None, s') | (Some x, s') \<Rightarrow> f x s')"

lemma rret_apply [simp]: "rret x s = (Some x, s)"
  by (simp add: rret_def)

lemma rfail_apply [simp]: "rfail s = (None, s)"
  by (simp add: rfail_def)

lemma rbind_Some [simp]: "m s = (Some x, s') \<Longrightarrow> rbind m f s = f x s'"
  by (simp add: rbind_def)

lemma rbind_None [simp]: "m s = (None, s') \<Longrightarrow> rbind m f s = (None, s')"
  by (simp add: rbind_def)

lemma rbind_SomeE:
  assumes "rbind m f s = (Some y, r)"
  obtains x s' where "m s = (Some x, s')" and "f x s' = (Some y, r)"
  using assms by (auto simp: rbind_def split: prod.splits option.splits)

lemma rbind_NoneE:
  assumes "rbind m f s = (None, r)"
  obtains "m s = (None, r)" | x s' where "m s = (Some x, s')" and "f x s' = (None, r)"
  using assms by (auto simp: rbind_def split: prod.splits option.splits)

subsection \<open>Taking bytes\<close>

definition CBS_init :: "byte list \<Rightarrow> nat \<Rightarrow> cbs" where
  "CBS_init data len = take len data"

definition cbs_get :: "nat \<Rightarrow> byte list reader" where
  "cbs_get n s = (if length s < n then (None, s) else (Some (take n s), drop n s))"

definition CBS_skip :: "nat \<Rightarrow> unit reader" where
  "CBS_skip len = rbind (cbs_get len) (\<lambda>_. rret ())"

definition CBS_data :: "cbs \<Rightarrow> byte list" where
  "CBS_data s = s"

definition CBS_len :: "cbs \<Rightarrow> nat" where
  "CBS_len s = length s"

definition CBS_stow :: "allocator \<Rightarrow> cbs \<Rightarrow> byte list option option" where
  "CBS_stow al s =
     (if length s = 0 then Some None
      else case OPENSSL_memdup al s of None \<Rightarrow> None | Some p \<Rightarrow> Some (Some p))"

definition CBS_strdup :: "allocator \<Rightarrow> cbs \<Rightarrow> byte list option" where
  "CBS_strdup al s = OPENSSL_strndup al s (length s)"

definition CBS_contains_zero_byte :: "cbs \<Rightarrow> bool" where
  "CBS_contains_zero_byte s \<longleftrightarrow> memchr s 0 \<noteq> None"

definition CBS_mem_equal :: "cbs \<Rightarrow> byte list \<Rightarrow> bool" where
  "CBS_mem_equal s data \<longleftrightarrow>
     (if length data \<noteq> length s then False else CRYPTO_memcmp s data = 0)"

definition cbs_get_u :: "nat \<Rightarrow> u64 reader" where
  "cbs_get_u len = rbind (cbs_get len) (\<lambda>data. rret (be_word 0 data))"

definition CBS_get_u8 :: "byte reader" where
  "CBS_get_u8 = rbind (cbs_get 1) (\<lambda>v. rret (hd v))"

definition CBS_get_u16 :: "u16 reader" where
  "CBS_get_u16 = rbind (cbs_get_u 2) (\<lambda>v. rret (ucast v))"

definition CBS_get_u16le :: "u16 reader" where
  "CBS_get_u16le = rbind CBS_get_u16 (\<lambda>v. rret (word_of_nat (bswap 2 (unat v))))"

definition CBS_get_u24 :: "u32 reader" where
  "CBS_get_u24 = rbind (cbs_get_u 3) (\<lambda>v. rret (ucast v))"

definition CBS_get_u32 :: "u32 reader" where
  "CBS_get_u32 = rbind (cbs_get_u 4) (\<lambda>v. rret (ucast v))"

definition CBS_get_u32le :: "u32 reader" where
  "CBS_get_u32le = rbind CBS_get_u32 (\<lambda>v. rret (word_of_nat (bswap 4 (unat v))))"

definition CBS_get_u64 :: "u64 reader" where
  "CBS_get_u64 = cbs_get_u 8"

definition CBS_get_u64le :: "u64 reader" where
  "CBS_get_u64le = rbind (cbs_get_u 8) (\<lambda>v. rret (word_of_nat (bswap 8 (unat v))))"

definition CBS_get_last_u8 :: "byte reader" where
  "CBS_get_last_u8 s =
     (if length s = 0 then (None, s) else (Some (s ! (length s - 1)), take (length s - 1) s))"

definition CBS_get_bytes :: "nat \<Rightarrow> cbs reader" where
  "CBS_get_bytes len = rbind (cbs_get len) (\<lambda>v. rret (CBS_init v len))"

definition CBS_copy_bytes :: "byte list \<Rightarrow> nat \<Rightarrow> byte list reader" where
  "CBS_copy_bytes out len = rbind (cbs_get len) (\<lambda>v. rret (write_at out 0 v))"

text \<open>
  \<open>cbs_get_length_prefixed\<close> asserts \<open>len_len <= 3\<close>, a condition on its callers, which pass 1, 2 and 3;
  nothing is said about a longer prefix.
\<close>

definition cbs_get_length_prefixed :: "nat \<Rightarrow> cbs reader" where
  "cbs_get_length_prefixed len_len = rbind (cbs_get_u len_len) (\<lambda>len. CBS_get_bytes (unat len))"

definition CBS_get_u8_length_prefixed :: "cbs reader" where
  "CBS_get_u8_length_prefixed = cbs_get_length_prefixed 1"

definition CBS_get_u16_length_prefixed :: "cbs reader" where
  "CBS_get_u16_length_prefixed = cbs_get_length_prefixed 2"

definition CBS_get_u24_length_prefixed :: "cbs reader" where
  "CBS_get_u24_length_prefixed = cbs_get_length_prefixed 3"

definition CBS_get_until_first :: "byte \<Rightarrow> cbs reader" where
  "CBS_get_until_first c s =
     (case memchr s c of None \<Rightarrow> (None, s) | Some i \<Rightarrow> CBS_get_bytes i s)"

text \<open>The loop of \<open>CBS_get_u64_decimal\<close>, with its variables \<open>v\<close> and \<open>seen_digit\<close>.\<close>

fun get_u64_decimal_loop :: "u64 \<Rightarrow> bool \<Rightarrow> u64 reader" where
  "get_u64_decimal_loop v seen_digit [] = (if seen_digit then (Some v, []) else (None, []))"
| "get_u64_decimal_loop v seen_digit (c # s) =
     (if \<not> OPENSSL_isdigit (uint c)
      then (if seen_digit then (Some v, c # s) else (None, c # s))
      else if (v = 0 \<and> seen_digit) \<or> v > (- 1) div 10 \<or> v * 10 > - 1 - (ucast c - 48)
      then (None, s)
      else get_u64_decimal_loop (v * 10 + (ucast c - 48)) True s)"

definition CBS_get_u64_decimal :: "u64 reader" where
  "CBS_get_u64_decimal = get_u64_decimal_loop 0 False"

lemmas cbs_simple_defs [cbs_defs] =
  CBS_init_def cbs_get_def CBS_skip_def CBS_data_def CBS_len_def cbs_get_u_def
  CBS_get_u8_def CBS_get_u16_def CBS_get_u16le_def CBS_get_u24_def CBS_get_u32_def
  CBS_get_u32le_def CBS_get_u64_def CBS_get_u64le_def CBS_get_bytes_def
  cbs_get_length_prefixed_def CBS_get_u8_length_prefixed_def
  CBS_get_u16_length_prefixed_def CBS_get_u24_length_prefixed_def rbind_def rret_def rfail_def

subsection \<open>The contract of a parser\<close>

text \<open>
  A parser consumes a prefix: when it succeeds, the bytes it took alone decide the result
  whatever follows them, and when it fails it has not moved past the end of its input.
\<close>

definition exact_reader :: "'a reader \<Rightarrow> bool" where
  "exact_reader get \<longleftrightarrow>
     (\<forall>s v r. get s = (Some v, r) \<longrightarrow> (\<exists>p. s = p @ r \<and> (\<forall>t. get (p @ t) = (Some v, t)))) \<and>
     (\<forall>s r. get s = (None, r) \<longrightarrow> suffix r s)"

lemma exact_readerI:
  assumes "\<And>s v r. get s = (Some v, r) \<Longrightarrow> \<exists>p. s = p @ r \<and> (\<forall>t. get (p @ t) = (Some v, t))"
    and "\<And>s r. get s = (None, r) \<Longrightarrow> suffix r s"
  shows "exact_reader get"
  using assms by (auto simp: exact_reader_def)

lemma exact_readerE:
  assumes "exact_reader get" and "get s = (Some v, r)"
  obtains p where "s = p @ r" and "\<And>t. get (p @ t) = (Some v, t)"
  using assms by (auto simp: exact_reader_def) metis

lemma exact_reader_fail:
  "exact_reader get \<Longrightarrow> get s = (None, r) \<Longrightarrow> suffix r s"
  by (simp add: exact_reader_def)

lemma exact_reader_suffix:
  assumes "exact_reader get" shows "suffix (snd (get s)) s"
proof (cases "get s")
  case (Pair v r)
  show ?thesis
  proof (cases v)
    case None
    with Pair assms show ?thesis by (simp add: exact_reader_fail)
  next
    case (Some x)
    with Pair obtain p where "s = p @ r" by (metis assms exact_readerE)
    with Pair show ?thesis by (auto simp: suffix_def)
  qed
qed

lemma exact_rret [reader_intros]: "exact_reader (rret x)"
  by (rule exact_readerI) (auto simp: rret_def)

lemma exact_rfail [reader_intros]: "exact_reader rfail"
  by (rule exact_readerI) (auto simp: rfail_def)

lemma exact_cbs_get [reader_intros]: "exact_reader (cbs_get n)"
proof (rule exact_readerI)
  fix s v r
  assume "cbs_get n s = (Some v, r)"
  then have "n \<le> length s" "v = take n s" "r = drop n s"
    by (auto simp: cbs_get_def split: if_splits)
  then show "\<exists>p. s = p @ r \<and> (\<forall>t. cbs_get n (p @ t) = (Some v, t))"
    by (intro exI [of _ "take n s"]) (auto simp: cbs_get_def)
next
  fix s r
  assume "cbs_get n s = (None, r)"
  then show "suffix r s" by (auto simp: cbs_get_def split: if_splits)
qed

lemma exact_rbind [reader_intros]:
  assumes m: "exact_reader m" and f: "\<And>x. exact_reader (f x)"
  shows "exact_reader (rbind m f)"
proof (rule exact_readerI)
  fix s v r
  assume "rbind m f s = (Some v, r)"
  then obtain x s' where 1: "m s = (Some x, s')" and 2: "f x s' = (Some v, r)"
    by (rule rbind_SomeE)
  from m 1 obtain p where p: "s = p @ s'" "\<And>t. m (p @ t) = (Some x, t)"
    by (metis exact_readerE)
  from f 2 obtain q where q: "s' = q @ r" "\<And>t. f x (q @ t) = (Some v, t)"
    by (metis exact_readerE)
  have "rbind m f ((p @ q) @ t) = (Some v, t)" for t
    using p(2) [of "q @ t"] q(2) by simp
  with p(1) q(1) show "\<exists>p. s = p @ r \<and> (\<forall>t. rbind m f (p @ t) = (Some v, t))"
    by (intro exI [of _ "p @ q"]) simp
next
  fix s r
  assume "rbind m f s = (None, r)"
  then show "suffix r s"
  proof (rule rbind_NoneE)
    assume "m s = (None, r)"
    with m show ?thesis by (rule exact_reader_fail)
  next
    fix x s'
    assume "m s = (Some x, s')" and r: "f x s' = (None, r)"
    then have "suffix s' s" using exact_reader_suffix [OF m, of s] by simp
    moreover from f r have "suffix r s'" by (rule exact_reader_fail)
    ultimately show ?thesis by (meson suffix_order.trans)
  qed
qed

lemma exact_if [reader_intros]:
  "exact_reader f \<Longrightarrow> exact_reader g \<Longrightarrow> exact_reader (if b then f else g)"
  by simp

lemma exact_let [reader_intros]: "(\<And>x. exact_reader (f x)) \<Longrightarrow> exact_reader (Let a f)"
  by simp

lemma exact_pure [reader_intros]: "exact_reader (\<lambda>s. (v, s))"
  by (cases v) (auto intro!: exact_readerI)

lemma exact_if_fun [reader_intros]:
  "exact_reader f \<Longrightarrow> exact_reader g \<Longrightarrow> exact_reader (\<lambda>s. if c then f s else g s)"
  by (cases c) simp_all

lemma exact_option_fun [reader_intros]:
  "exact_reader f \<Longrightarrow> (\<And>x. exact_reader (g x)) \<Longrightarrow> exact_reader (\<lambda>s. case v of None \<Rightarrow> f s | Some x \<Rightarrow> g x s)"
  by (cases v) simp_all

lemma exact_prod_fun [reader_intros]:
  "(\<And>a b. exact_reader (g a b)) \<Longrightarrow> exact_reader (\<lambda>s. case p of (a, b) \<Rightarrow> g a b s)"
  by (cases p) simp_all

text \<open>The laws as an interface, and what every parser gets from them.\<close>

locale cbs_reader =
  fixes get :: "'a reader"
  assumes exact: "exact_reader get"
begin

lemma consumes_prefix: "get s = (Some v, r) \<Longrightarrow> \<exists>p. s = p @ r \<and> get p = (Some v, [])"
  by (metis exact exact_readerE append_Nil2)

lemma frame: "get s = (Some v, r) \<Longrightarrow> get (s @ t) = (Some v, r @ t)"
  by (metis exact exact_readerE append_assoc)

lemma never_past_end: "length (snd (get s)) \<le> length s"
  by (rule suffix_length_le) (rule exact_reader_suffix [OF exact])

text \<open>No complete encoding is a proper prefix of another one.\<close>

lemma prefix_free:
  assumes "get p = (Some v, [])" and "get q = (Some w, [])" and "prefix p q"
  shows "p = q"
proof -
  from assms(3) obtain t where t: "q = p @ t" by (auto simp: prefix_def)
  from frame [OF assms(1), of t] assms(2) t show ?thesis by simp
qed

text \<open>A sequence of complete encodings splits in one way only.\<close>

lemma split_unique:
  assumes "get p = (Some v, [])" and "get q = (Some w, [])" and "p @ s = q @ t"
  shows "p = q \<and> s = t"
proof -
  from frame [OF assms(1), of s] have "get (p @ s) = (Some v, s)" by simp
  moreover from frame [OF assms(2), of t] have "get (q @ t) = (Some w, t)" by simp
  ultimately have "s = t" using assms(3) by simp
  with assms(3) show ?thesis by simp
qed

end

subsection \<open>The simple readers satisfy it\<close>

lemma exact_simple [reader_intros]:
  "exact_reader (CBS_skip n)" "exact_reader (cbs_get_u n)" "exact_reader CBS_get_u8"
  "exact_reader CBS_get_u16" "exact_reader CBS_get_u24" "exact_reader CBS_get_u32"
  "exact_reader CBS_get_u64" "exact_reader (CBS_get_bytes n)"
  "exact_reader (cbs_get_length_prefixed n)"
  unfolding CBS_skip_def cbs_get_u_def CBS_get_u8_def CBS_get_u16_def CBS_get_u24_def
    CBS_get_u32_def CBS_get_u64_def CBS_get_bytes_def cbs_get_length_prefixed_def
  by (intro reader_intros)+

interpretation u8: cbs_reader CBS_get_u8
  by unfold_locales (rule exact_simple)

interpretation u16: cbs_reader CBS_get_u16
  by unfold_locales (rule exact_simple)

interpretation length_prefixed: cbs_reader "cbs_get_length_prefixed n" for n
  by unfold_locales (rule exact_simple)

subsection \<open>What the simple readers return\<close>

lemma cbs_get_append [simp]: "length p = n \<Longrightarrow> cbs_get n (p @ r) = (Some p, r)"
  by (simp add: cbs_get_def)

lemma cbs_get_Some:
  "cbs_get n s = (Some p, r) \<longleftrightarrow> s = p @ r \<and> length p = n"
  by (auto simp: cbs_get_def split: if_splits)

lemma CBS_get_u8_Cons [simp]: "CBS_get_u8 (b # s) = (Some b, s)"
  by (simp add: cbs_defs)

lemma CBS_get_u8_Nil [simp]: "CBS_get_u8 [] = (None, [])"
  by (simp add: cbs_defs)

lemma CBS_get_u8_Some: "CBS_get_u8 s = (Some b, r) \<longleftrightarrow> s = b # r"
  by (cases s) auto

lemma CBS_get_bytes_append [simp]: "length p = n \<Longrightarrow> CBS_get_bytes n (p @ r) = (Some p, r)"
  by (simp add: CBS_get_bytes_def CBS_init_def)

lemma CBS_get_bytes_Some:
  "CBS_get_bytes n s = (Some p, r) \<longleftrightarrow> s = p @ r \<and> length p = n"
proof
  assume "CBS_get_bytes n s = (Some p, r)"
  then obtain v where "cbs_get n s = (Some v, r)" and "p = CBS_init v n"
    by (auto simp: CBS_get_bytes_def elim: rbind_SomeE)
  then show "s = p @ r \<and> length p = n" by (simp add: cbs_get_Some CBS_init_def)
qed simp

lemma CBS_get_bytes_None: "CBS_get_bytes n s = (None, s) \<longleftrightarrow> length s < n"
  by (auto simp: CBS_get_bytes_def rbind_def cbs_get_def split: if_splits)

lemma CBS_skip_append [simp]: "length p = n \<Longrightarrow> CBS_skip n (p @ r) = (Some (), r)"
  by (simp add: CBS_skip_def)

lemma cbs_get_u_append [simp]:
  "length p = n \<Longrightarrow> cbs_get_u n (p @ r) = (Some (be_word 0 p), r)"
  by (simp add: cbs_get_u_def)

lemma cbs_get_u_Some:
  "cbs_get_u n s = (Some v, r) \<longleftrightarrow> (\<exists>p. s = p @ r \<and> length p = n \<and> v = be_word 0 p)"
  by (auto simp: cbs_get_u_def cbs_get_Some elim!: rbind_SomeE)

end
