(* ===== verification/Cbs_Asn1.thy ===== *)
theory Cbs_Asn1
  imports Cbs
begin

text \<open>
  The ASN.1 half of \<open>crypto/bytestring/cbs.c\<close>: tags, lengths and elements in DER (and the
  BER forms the converter accepts), the typed getters and the validity checks. The facts
  relate each parser to the one byte string it accepts for a value, in both directions.
\<close>

abbreviation CBS_ASN1_CONSTRUCTED :: u32 where "CBS_ASN1_CONSTRUCTED \<equiv> 0x20000000"
abbreviation CBS_ASN1_TAG_NUMBER_MASK :: u32 where "CBS_ASN1_TAG_NUMBER_MASK \<equiv> 0x1fffffff"
abbreviation CBS_ASN1_BOOLEAN :: u32 where "CBS_ASN1_BOOLEAN \<equiv> 1"
abbreviation CBS_ASN1_INTEGER :: u32 where "CBS_ASN1_INTEGER \<equiv> 2"
abbreviation CBS_ASN1_OCTETSTRING :: u32 where "CBS_ASN1_OCTETSTRING \<equiv> 4"

subsection \<open>Base-128 integers and tags\<close>

fun base128_loop :: "u64 \<Rightarrow> u64 reader" where
  "base128_loop v [] = (None, [])"
| "base128_loop v (b # s) =
     (if drop_bit 57 v \<noteq> 0 then (None, s)
      else if v = 0 \<and> b = 0x80 then (None, s)
      else let v' = push_bit 7 v OR ucast (b AND 0x7f)
           in if b AND 0x80 \<noteq> 0 then base128_loop v' s else (Some v', s))"

definition parse_base128_integer :: "u64 reader" where
  "parse_base128_integer = base128_loop 0"

definition parse_asn1_tag :: "u32 reader" where
  "parse_asn1_tag =
     rbind CBS_get_u8 (\<lambda>tag_byte.
       let tag = push_bit 24 (ucast tag_byte AND 0xe0 :: u32);
           tag_number = ucast tag_byte AND (0x1f :: u32)
       in rbind (if tag_number = 0x1f
                 then rbind parse_base128_integer (\<lambda>v.
                        if v > ucast CBS_ASN1_TAG_NUMBER_MASK \<or> v < 0x1f then rfail
                        else rret (ucast v))
                 else rret tag_number) (\<lambda>tag_number.
          let tag = tag OR tag_number
          in if tag AND NOT CBS_ASN1_CONSTRUCTED = 0 then rfail else rret tag))"

subsection \<open>Elements\<close>

text \<open>The outputs of \<open>cbs_get_any_asn1_element\<close>.\<close>

record asn1_element =
  el_out :: cbs
  el_tag :: u32
  el_header_len :: nat
  el_ber_found :: bool
  el_indefinite :: bool

text \<open>The final \<open>CBS_get_bytes(cbs, out, len)\<close>, with the outputs already decided.\<close>

definition take_element :: "nat \<Rightarrow> u32 \<Rightarrow> nat \<Rightarrow> bool \<Rightarrow> bool \<Rightarrow> asn1_element reader" where
  "take_element len tag header_len ber_found indefinite =
     rbind (CBS_get_bytes len) (\<lambda>out.
       rret \<lparr>el_out = out, el_tag = tag, el_header_len = header_len,
             el_ber_found = ber_found, el_indefinite = indefinite\<rparr>)"

definition cbs_get_any_asn1_element :: "bool \<Rightarrow> asn1_element reader" where
  "cbs_get_any_asn1_element ber_ok cbs =
     (case parse_asn1_tag cbs of (None, _) \<Rightarrow> (None, cbs)
      | (Some tag, header) \<Rightarrow>
     (case CBS_get_u8 header of (None, _) \<Rightarrow> (None, cbs)
      | (Some length_byte, header) \<Rightarrow>
        (let header_len = length cbs - length header
         in if length_byte AND 0x80 = 0
            then take_element (unat length_byte + header_len) tag header_len False False cbs
            else
        (let num_bytes = unat (length_byte AND 0x7f)
         in if ber_ok \<and> tag AND CBS_ASN1_CONSTRUCTED \<noteq> 0 \<and> num_bytes = 0
            then take_element header_len tag header_len True True cbs
            else if num_bytes = 0 \<or> num_bytes > 4 then (None, cbs)
            else
        (case cbs_get_u num_bytes header of (None, _) \<Rightarrow> (None, cbs)
         | (Some len64, _) \<Rightarrow>
           (let short = len64 < 128;
                padded = drop_bit ((num_bytes - 1) * 8) len64 = 0;
                len = unat len64
            in if short \<and> \<not> ber_ok then (None, cbs)
               else if padded \<and> \<not> ber_ok then (None, cbs)
               else if (len + header_len + num_bytes) mod size_mod < len then (None, cbs)
               else take_element (len + header_len + num_bytes) tag (header_len + num_bytes)
                      (short \<or> padded) False cbs))))))"

definition CBS_get_any_asn1_element :: "asn1_element reader" where
  "CBS_get_any_asn1_element = cbs_get_any_asn1_element False"

definition CBS_get_any_ber_asn1_element :: "asn1_element reader" where
  "CBS_get_any_ber_asn1_element = cbs_get_any_asn1_element True"

definition CBS_get_any_asn1 :: "(cbs \<times> u32) reader" where
  "CBS_get_any_asn1 =
     rbind CBS_get_any_asn1_element (\<lambda>e s.
       case CBS_skip (el_header_len e) (el_out e) of
         (None, _) \<Rightarrow> (None, s)
       | (Some _, out) \<Rightarrow> (Some (out, el_tag e), s))"

definition cbs_get_asn1 :: "u32 \<Rightarrow> bool \<Rightarrow> cbs reader" where
  "cbs_get_asn1 tag_value skip_header =
     rbind CBS_get_any_asn1_element (\<lambda>e s.
       if el_tag e \<noteq> tag_value then (None, s)
       else if skip_header
       then (case CBS_skip (el_header_len e) (el_out e) of
               (None, _) \<Rightarrow> (None, s)
             | (Some _, out) \<Rightarrow> (Some out, s))
       else (Some (el_out e), s))"

definition CBS_get_asn1 :: "u32 \<Rightarrow> cbs reader" where
  "CBS_get_asn1 tag_value = cbs_get_asn1 tag_value True"

definition CBS_get_asn1_element :: "u32 \<Rightarrow> cbs reader" where
  "CBS_get_asn1_element tag_value = cbs_get_asn1 tag_value False"

definition CBS_peek_asn1_tag :: "cbs \<Rightarrow> u32 \<Rightarrow> bool" where
  "CBS_peek_asn1_tag s tag_value \<longleftrightarrow> fst (parse_asn1_tag s) = Some tag_value"

subsection \<open>Integers and booleans\<close>

definition CBS_is_valid_asn1_integer :: "cbs \<Rightarrow> bool option" where
  \<comment> \<open>\<open>Some is_negative\<close> where the C returns 1\<close>
  "CBS_is_valid_asn1_integer s =
     (case CBS_get_u8 s of (None, _) \<Rightarrow> None
      | (Some first_byte, copy) \<Rightarrow>
        (let is_negative = first_byte AND 0x80 \<noteq> 0
         in case CBS_get_u8 copy of (None, _) \<Rightarrow> Some is_negative
            | (Some second_byte, _) \<Rightarrow>
              if (first_byte = 0x00 \<and> second_byte AND 0x80 = 0) \<or>
                 (first_byte = 0xff \<and> second_byte AND 0x80 \<noteq> 0)
              then None else Some is_negative))"

definition CBS_is_unsigned_asn1_integer :: "cbs \<Rightarrow> bool" where
  "CBS_is_unsigned_asn1_integer s \<longleftrightarrow> CBS_is_valid_asn1_integer s = Some False"

fun asn1_uint64_loop :: "u64 \<Rightarrow> byte list \<Rightarrow> u64 option" where
  "asn1_uint64_loop out [] = Some out"
| "asn1_uint64_loop out (b # data) =
     (if drop_bit 56 out \<noteq> 0 then None
      else asn1_uint64_loop (push_bit 8 out OR ucast b) data)"

definition CBS_get_asn1_uint64 :: "u64 reader" where
  "CBS_get_asn1_uint64 =
     rbind (CBS_get_asn1 CBS_ASN1_INTEGER) (\<lambda>bytes s.
       if \<not> CBS_is_unsigned_asn1_integer bytes then (None, s)
       else (asn1_uint64_loop 0 bytes, s))"

text \<open>
  \<open>CBS_get_asn1_int64\<close> fills an eight byte little-endian array with the sign, copies the
  contents over it in reverse and reinterprets it as an \<open>int64_t\<close>; the result is the
  two's complement word.
\<close>

definition CBS_get_asn1_int64 :: "u64 reader" where
  "CBS_get_asn1_int64 =
     rbind (CBS_get_asn1 CBS_ASN1_INTEGER) (\<lambda>bytes s.
       case CBS_is_valid_asn1_integer bytes of None \<Rightarrow> (None, s)
       | Some is_negative \<Rightarrow>
         if length bytes > 8 then (None, s)
         else let sign_extend = write_at (replicate 8 (if is_negative then 0xff else 0)) 0 (rev bytes)
              in (Some (be_word 0 (rev sign_extend)), s))"

definition CBS_get_asn1_bool :: "bool reader" where
  "CBS_get_asn1_bool =
     rbind (CBS_get_asn1 CBS_ASN1_BOOLEAN) (\<lambda>bytes s.
       if length bytes \<noteq> 1 then (None, s)
       else let v = hd bytes
            in if v \<noteq> 0 \<and> v \<noteq> 0xff then (None, s) else (Some (v \<noteq> 0), s))"

subsection \<open>Optional elements\<close>

text \<open>\<open>None\<close> inside the result: the element is absent and the output is left alone.\<close>

definition CBS_get_optional_asn1 :: "u32 \<Rightarrow> cbs option reader" where
  "CBS_get_optional_asn1 tag s =
     (if CBS_peek_asn1_tag s tag
      then rbind (CBS_get_asn1 tag) (\<lambda>out. rret (Some out)) s
      else (Some None, s))"

definition CBS_get_optional_asn1_octet_string :: "u32 \<Rightarrow> (cbs \<times> bool) reader" where
  "CBS_get_optional_asn1_octet_string tag =
     rbind (CBS_get_optional_asn1 tag) (\<lambda>child s.
       case child of None \<Rightarrow> (Some ([], False), s)
       | Some c \<Rightarrow>
         (case CBS_get_asn1 CBS_ASN1_OCTETSTRING c of
            (None, _) \<Rightarrow> (None, s)
          | (Some out, rest) \<Rightarrow> if length rest \<noteq> 0 then (None, s) else (Some (out, True), s)))"

definition CBS_get_optional_asn1_uint64 :: "u32 \<Rightarrow> u64 \<Rightarrow> u64 reader" where
  "CBS_get_optional_asn1_uint64 tag default_value =
     rbind (CBS_get_optional_asn1 tag) (\<lambda>child s.
       case child of None \<Rightarrow> (Some default_value, s)
       | Some c \<Rightarrow>
         (case CBS_get_asn1_uint64 c of
            (None, _) \<Rightarrow> (None, s)
          | (Some v, rest) \<Rightarrow> if length rest \<noteq> 0 then (None, s) else (Some v, s)))"

definition CBS_get_optional_asn1_bool :: "u32 \<Rightarrow> bool \<Rightarrow> bool reader" where
  "CBS_get_optional_asn1_bool tag default_value =
     rbind (CBS_get_optional_asn1 tag) (\<lambda>child s.
       case child of None \<Rightarrow> (Some default_value, s)
       | Some c \<Rightarrow>
         (case CBS_get_asn1 CBS_ASN1_BOOLEAN c of
            (None, _) \<Rightarrow> (None, s)
          | (Some child2, rest) \<Rightarrow>
            if length child2 \<noteq> 1 \<or> length rest \<noteq> 0 then (None, s)
            else let boolean = hd child2
                 in if boolean = 0 then (Some False, s)
                    else if boolean = 0xff then (Some True, s)
                    else (None, s)))"

subsection \<open>Bit strings and object identifiers\<close>

definition CBS_is_valid_asn1_bitstring :: "cbs \<Rightarrow> bool" where
  "CBS_is_valid_asn1_bitstring s =
     (case CBS_get_u8 s of (None, _) \<Rightarrow> False
      | (Some num_unused_bits, inp) \<Rightarrow>
        if num_unused_bits > 7 then False
        else if num_unused_bits = 0 then True
        else (case CBS_get_last_u8 inp of (None, _) \<Rightarrow> False
              | (Some last_byte, _) \<Rightarrow> last_byte AND (push_bit (unat num_unused_bits) 1 - 1) = 0))"

definition CBS_asn1_bitstring_has_bit :: "cbs \<Rightarrow> u32 \<Rightarrow> bool" where
  "CBS_asn1_bitstring_has_bit s bit_idx \<longleftrightarrow>
     CBS_is_valid_asn1_bitstring s \<and>
     (let byte_num = unat (drop_bit 3 bit_idx + 1); bit_num = unat (7 - (bit_idx AND 7))
      in byte_num < length s \<and> (s ! byte_num) AND push_bit bit_num 1 \<noteq> 0)"

fun valid_oid_loop :: "byte \<Rightarrow> byte list \<Rightarrow> bool" where
  "valid_oid_loop prev [] \<longleftrightarrow> prev AND 0x80 = 0"
| "valid_oid_loop prev (v # copy) \<longleftrightarrow>
     (if prev AND 0x80 = 0 \<and> v = 0x80 then False else valid_oid_loop v copy)"

definition CBS_is_valid_asn1_oid :: "cbs \<Rightarrow> bool" where
  "CBS_is_valid_asn1_oid s \<longleftrightarrow> (if length s = 0 then False else valid_oid_loop 0 s)"

end
