(* ===== verification/Der.thy ===== *)
theory Der
  imports Cbs_Asn1
begin

text \<open>
  The canonical byte strings of DER identifiers and lengths, and the proof that the parsers
  of \<open>cbs.c\<close> accept exactly these: each value has one accepted encoding and each accepted
  encoding is the canonical one of its value.
\<close>

subsection \<open>Base-128 integers\<close>

fun b128_high :: "nat \<Rightarrow> byte list" where
  "b128_high v = (if v = 0 then [] else b128_high (v div 128) @ [word_of_nat (v mod 128 + 128)])"

declare b128_high.simps [simp del]

definition b128 :: "nat \<Rightarrow> byte list" where
  "b128 v = b128_high (v div 128) @ [word_of_nat (v mod 128)]"

definition b128_val :: "byte list \<Rightarrow> nat" where
  "b128_val xs = foldl (\<lambda>a b. a * 128 + unat b mod 128) 0 xs"

lemma b128_val_snoc [simp]: "b128_val (xs @ [b]) = b128_val xs * 128 + unat b mod 128"
  by (simp add: b128_val_def)

lemma b128_val_append_ge: "b128_val xs \<le> b128_val (xs @ ys)"
proof (induction ys rule: rev_induct)
  case (snoc y ys)
  have "b128_val (xs @ ys @ [y]) = b128_val (xs @ ys) * 128 + unat y mod 128"
    using b128_val_snoc [of "xs @ ys" y] by simp
  with snoc show ?case by simp
qed simp

lemma b128_high_0 [simp]: "b128_high 0 = []"
  by (simp add: b128_high.simps)

lemma b128_high_step: "v \<noteq> 0 \<Longrightarrow> b128_high v = b128_high (v div 128) @ [word_of_nat (v mod 128 + 128)]"
  by (subst b128_high.simps) simp

lemma b128_val_high [simp]: "b128_val (b128_high v) = v"
proof (induction v rule: b128_high.induct)
  case (1 v)
  show ?case
  proof (cases "v = 0")
    case True
    then show ?thesis by (simp add: b128_val_def)
  next
    case False
    with 1 have "b128_val (b128_high (v div 128)) = v div 128" by simp
    then show ?thesis
      using False by (simp add: b128_high_step unat_byte_of_nat mult.commute del: of_nat_add)
  qed
qed

lemma b128_val_b128 [simp]: "b128_val (b128 v) = v"
proof -
  have "v mod 128 < 256" using mod_less_divisor [of 128 v] by linarith
  then show ?thesis by (simp add: b128_def unat_byte_of_nat mult.commute)
qed

lemma b128_high_inject: "b128_high v = b128_high w \<longleftrightarrow> v = w"
  by (metis b128_val_high)

lemma b128_nonempty [simp]: "b128 v \<noteq> []"
  by (simp add: b128_def)

text \<open>Bits of a byte as arithmetic.\<close>

lemma and7f: "(b::byte) AND 0x7f = take_bit 7 b"
  unfolding take_bit_eq_mask by (simp add: mask_eq_exp_minus_1)

lemma low7: "unat ((b :: byte) AND 0x7f) = unat b mod 128"
  unfolding and7f unsigned_take_bit_eq by (simp add: take_bit_eq_mod)

lemma bit_byte7: "bit (b::byte) 7 \<longleftrightarrow> 128 \<le> unat b"
proof -
  have "bit b 7 \<longleftrightarrow> bit (unat b) 7" by (simp add: bit_unsigned_iff)
  also have "\<dots> \<longleftrightarrow> odd (unat b div 128)" by (simp add: bit_iff_odd)
  also have "\<dots> \<longleftrightarrow> 128 \<le> unat b"
  proof (cases "128 \<le> unat b")
    case True
    then have "unat b div 128 = 1" using unat_byte_less [of b] by (simp add: le_div_geq)
    with True show ?thesis by simp
  qed simp
  finally show ?thesis .
qed

lemma high_bit_iff: "(b :: byte) AND 0x80 = 0 \<longleftrightarrow> unat b < 128"
  using and_exp_eq_0_iff_not_bit [of b 7] by (simp add: bit_byte7 not_le)

lemma nat_high: "128 \<le> n \<Longrightarrow> n < 256 \<Longrightarrow> n mod 128 + 128 = (n::nat)"
  by (simp add: le_mod_geq)

lemma byte_high: "128 \<le> unat (b :: byte) \<Longrightarrow> word_of_nat (unat b mod 128 + 128) = b"
  by (subst nat_high) (auto simp: unat_byte_less)

lemma byte_low: "unat (b :: byte) < 128 \<Longrightarrow> word_of_nat (unat b mod 128) = b"
  by simp

lemma shift7_or:
  fixes r :: u64 and b :: byte
  shows "push_bit 7 r OR ucast (b AND 0x7f) = r * 128 + word_of_nat (unat b mod 128)"
proof -
  have "push_bit 7 r OR ucast (b AND 0x7f) = push_bit 7 r + ucast (b AND 0x7f)"
    unfolding and7f by (rule word_or_disjoint) (auto simp: bit_simps)
  moreover have "ucast (b AND 0x7f) = (word_of_nat (unat (b AND 0x7f)) :: u64)"
    by simp
  ultimately show ?thesis by (simp add: push_bit_eq_mult low7)
qed

lemma unat_base128_step:
  assumes "unat (v :: u64) < 2 ^ 57"
  shows "unat (push_bit 7 v OR ucast ((b :: byte) AND 0x7f)) = unat v * 128 + unat b mod 128"
proof -
  have "unat b mod 128 < 128" by simp
  then have lt: "unat v * 128 + unat b mod 128 < 2 ^ 64" using assms by simp
  have "push_bit 7 v OR ucast (b AND 0x7f) = word_of_nat (unat v * 128 + unat b mod 128)"
    by (simp add: shift7_or)
  also have "unat \<dots> = unat v * 128 + unat b mod 128"
    using lt by (simp only: unat_of_nat) simp
  finally show ?thesis .
qed

text \<open>
  The parser's loop, started with the accumulator \<open>v\<close>, accepts exactly the bytes that complete
  the high digits of \<open>v\<close> to a canonical encoding.
\<close>

lemma unat_numeral_byte_128: "unat (0x80 :: byte) = 128"
  by simp

lemma b128_high_ge: "x \<in> set (b128_high v) \<Longrightarrow> 128 \<le> unat x"
proof (induction v rule: b128_high.induct)
  case (1 v)
  show ?case
  proof (cases "v = 0")
    case False
    have "unat (word_of_nat (v mod 128 + 128) :: byte) = v mod 128 + 128"
      by (simp add: unat_byte_of_nat del: of_nat_add)
    with 1 False show ?thesis by (auto simp: b128_high_step)
  qed (use 1 in simp)
qed

lemma b128_high_hd: "v \<noteq> 0 \<Longrightarrow> hd (b128_high v) \<noteq> 0x80"
proof (induction v rule: b128_high.induct)
  case (1 v)
  show ?case
  proof (cases "v < 128")
    case True
    with "1.prems" have "unat (word_of_nat (v mod 128 + 128) :: byte) = v + 128"
      by (simp add: unat_byte_of_nat del: of_nat_add)
    then have "word_of_nat (v mod 128 + 128) \<noteq> (0x80 :: byte)"
      using "1.prems" by (metis add_cancel_left_left unat_numeral_byte_128)
    with True "1.prems" show ?thesis by (simp add: b128_high_step del: of_nat_add)
  next
    case False
    then have "v div 128 \<noteq> 0" by simp
    moreover from this have "b128_high (v div 128) \<noteq> []"
      by (metis b128_high_0 b128_high_inject)
    ultimately show ?thesis using 1 by (subst b128_high_step) auto
  qed
qed

lemma b128_hd: "hd (b128 w) \<noteq> 0x80"
proof (cases "w div 128 = 0")
  case True
  then have "w < 128" by (simp add: div_eq_0_iff)
  then have "unat (word_of_nat w :: byte) < 128" by (simp add: unat_byte_of_nat)
  then have "(word_of_nat w :: byte) \<noteq> 0x80" by auto
  with \<open>w < 128\<close> show ?thesis by (simp add: b128_def)
next
  case False
  then have "b128_high (w div 128) \<noteq> []"
    by (metis b128_high_0 b128_high_inject)
  with False show ?thesis by (simp add: b128_def b128_high_hd)
qed

lemma b128_snoc_iff:
  "b128_high v @ [b] = b128 w \<longleftrightarrow> unat b < 128 \<and> w = v * 128 + unat b"
proof
  assume "b128_high v @ [b] = b128 w"
  then have "v = w div 128" and b: "b = word_of_nat (w mod 128)"
    by (auto simp: b128_def b128_high_inject)
  moreover from b have "unat b = w mod 128" by (simp add: unat_byte_of_nat)
  ultimately show "unat b < 128 \<and> w = v * 128 + unat b" by simp
next
  assume "unat b < 128 \<and> w = v * 128 + unat b"
  then show "b128_high v @ [b] = b128 w" by (simp add: b128_def)
qed

lemma b128_high_snoc:
  assumes "128 \<le> unat b" and "\<not> (v = 0 \<and> b = 0x80)"
  shows "b128_high (v * 128 + unat b mod 128) = b128_high v @ [b]"
proof -
  have "unat b mod 128 = unat b - 128" using assms(1) unat_byte_less [of b] by (simp add: le_mod_geq)
  moreover have "unat b = 128 \<Longrightarrow> b = 0x80" by (metis unat_numeral_byte_128 word_unat_eq_iff)
  ultimately have "v * 128 + unat b mod 128 \<noteq> 0" using assms by auto
  then show ?thesis using byte_high [OF assms(1)] by (simp add: b128_high_step)
qed

lemma b128_split_high:
  assumes "b128_high v @ b # ds = b128 w" and "ds \<noteq> []"
  shows "128 \<le> unat b"
proof -
  obtain ds' d where ds: "ds = ds' @ [d]" using assms(2) by (metis rev_exhaust)
  with assms(1) have "b128_high v @ b # ds' = b128_high (w div 128)" by (simp add: b128_def)
  then have "b \<in> set (b128_high (w div 128))" by (metis in_set_conv_decomp)
  then show ?thesis by (rule b128_high_ge)
qed

lemma b128_overflow:
  assumes "b128_high v @ ds = b128 (unat (w :: u64))" and "ds \<noteq> []"
  shows "v < 2 ^ 57"
proof -
  obtain d ds' where ds: "ds = d # ds'" using assms(2) by (cases ds) auto
  have "v * 128 \<le> b128_val (b128_high v @ [d])" by simp
  also have "\<dots> \<le> b128_val ((b128_high v @ [d]) @ ds')" by (rule b128_val_append_ge)
  also have "\<dots> = unat w" using assms(1) ds by simp
  also have "\<dots> < 2 ^ 64" using unsigned_less [of w] by simp
  finally show ?thesis by simp
qed

lemma base128_loop_Some:
  "base128_loop v s = (Some w, r) \<longleftrightarrow>
     (\<exists>ds. s = ds @ r \<and> ds \<noteq> [] \<and> b128_high (unat v) @ ds = b128 (unat w))"
  (is "?L v s \<longleftrightarrow> ?R v s")
proof (induction v s rule: base128_loop.induct)
  case (1 v)
  then show ?case by auto
next
  case (2 v b s)
  define v' where "v' = push_bit 7 v OR ucast (b AND 0x7f)"
  have R: "?R v (b # s) \<longleftrightarrow> (\<exists>ds. s = ds @ r \<and> b128_high (unat v) @ b # ds = b128 (unat w))"
    by (auto simp: Cons_eq_append_conv)
  show ?case
  proof (cases "unat v < 2 ^ 57 \<and> \<not> (v = 0 \<and> b = 0x80)")
    case False
    then have "\<not> ?L v (b # s)" by (auto simp: drop_bit_eq_0_iff)
    moreover have "\<not> ?R v (b # s)"
    proof
      assume "?R v (b # s)"
      then obtain ds where ds: "b128_high (unat v) @ b # ds = b128 (unat w)" using R by blast
      then have "unat v < 2 ^ 57" by (rule b128_overflow) simp
      with False have "v = 0" "b = 0x80" by auto
      with ds have "hd (b128 (unat w)) = 0x80" by (metis append_Nil b128_high_0 list.sel(1) unsigned_0)
      with b128_hd show False by blast
    qed
    ultimately show ?thesis by blast
  next
    case ok: True
    then have v': "unat v' = unat v * 128 + unat b mod 128"
      unfolding v'_def by (intro unat_base128_step) simp
    show ?thesis
    proof (cases "unat b < 128")
      case True
      then have "?L v (b # s) \<longleftrightarrow> w = v' \<and> s = r"
        using ok by (auto simp: drop_bit_eq_0_iff high_bit_iff v'_def)
      also have "\<dots> \<longleftrightarrow> s = r \<and> b128_high (unat v) @ [b] = b128 (unat w)"
        using True v' by (auto simp: word_unat_eq_iff b128_snoc_iff)
      also have "\<dots> \<longleftrightarrow> ?R v (b # s)"
        unfolding R using True b128_split_high [of "unat v" b _ "unat w"] by fastforce
      finally show ?thesis .
    next
      case False
      then have high: "b128_high (unat v') = b128_high (unat v) @ [b]"
        unfolding v' using ok by (intro b128_high_snoc) (auto simp: unsigned_eq_0_iff)
      have "?L v (b # s) \<longleftrightarrow> ?L v' s"
        using ok False by (auto simp: drop_bit_eq_0_iff high_bit_iff v'_def)
      also have "\<dots> \<longleftrightarrow> ?R v' s"
        by (rule 2) (use ok False in \<open>simp_all add: drop_bit_eq_0_iff high_bit_iff v'_def\<close>)
      also have "\<dots> \<longleftrightarrow> ?R v (b # s)"
        unfolding R high
      proof (rule iff_exI)
        fix ds
        have "b128_high (unat v) @ [b] \<noteq> b128 (unat w)" using False by (simp add: b128_snoc_iff)
        then show "(s = ds @ r \<and> ds \<noteq> [] \<and> (b128_high (unat v) @ [b]) @ ds = b128 (unat w)) =
            (s = ds @ r \<and> b128_high (unat v) @ b # ds = b128 (unat w))"
          by (cases ds) simp_all
      qed
      finally show ?thesis .
    qed
  qed
qed

lemma parse_base128_integer_Some:
  "parse_base128_integer s = (Some w, r) \<longleftrightarrow> s = b128 (unat w) @ r"
  by (auto simp: parse_base128_integer_def base128_loop_Some)

subsection \<open>Identifier octets\<close>

definition der_tag :: "u32 \<Rightarrow> byte list" where
  "der_tag tag =
     (let c = unat tag div 536870912; n = unat tag mod 536870912
      in if n \<ge> 31 then word_of_nat (c * 32 + 31) # b128 n else [word_of_nat (c * 32 + n)])"

definition valid_tag :: "u32 \<Rightarrow> bool" where
  "valid_tag tag \<longleftrightarrow> tag AND NOT CBS_ASN1_CONSTRUCTED \<noteq> 0"

lemma tag_class_bits:
  "push_bit 24 (ucast (tb::byte) AND 0xe0 :: u32) = word_of_nat (unat tb div 32 * 536870912)"
proof -
  have m: "(0xe0 :: u32) = push_bit 5 (mask 3)" by (simp add: mask_eq_exp_minus_1)
  have "unat (ucast tb AND 0xe0 :: u32) = unat tb div 32 * 32"
    unfolding m and_push_mask using unat_byte_less [of tb] by (simp add: unat_bits)
  then show ?thesis
    unfolding word_unat_eq_iff unat_push_bit unat_of_nat using unat_byte_less [of tb] by simp
qed

lemma tag_number_bits:
  "ucast (tb::byte) AND (0x1f :: u32) = word_of_nat (unat tb mod 32)"
proof -
  have m: "(0x1f :: u32) = mask 5" by (simp add: mask_eq_exp_minus_1)
  show ?thesis
    unfolding word_unat_eq_iff unat_of_nat
    by (subst unat_and_mask [OF m]) (use unat_byte_less [of tb] in \<open>simp add: unat_ucast_mod\<close>)
qed

lemma tag_number_31: "(word_of_nat (unat (tb::byte) mod 32) :: u32) = 0x1f \<longleftrightarrow> unat tb mod 32 = 31"
  unfolding word_unat_eq_iff unat_of_nat by simp

lemma tag_join:
  "n < 536870912 \<Longrightarrow>
   (word_of_nat (c * 536870912) :: u32) OR word_of_nat n = word_of_nat (c * 536870912 + n)"
  using word_or_arith [of n 29 c, where 'a = 32] by (simp del: of_nat_add of_nat_mult)

lemma tag_join_ucast:
  "unat (v :: u64) < 536870912 \<Longrightarrow>
   (word_of_nat (c * 536870912) :: u32) OR ucast v = word_of_nat (c * 536870912 + unat v)"
  using tag_join [of "unat v" c] by (simp del: of_nat_add of_nat_mult)

lemma der_tag_of_nat:
  assumes "c < 8" and "n < 536870912"
  shows "der_tag (word_of_nat (c * 536870912 + n)) =
    (if n \<ge> 31 then word_of_nat (c * 32 + 31) # b128 n else [word_of_nat (c * 32 + n)])"
proof -
  have "c * 536870912 + n < 2 ^ 32" using assms by simp
  then have "unat (word_of_nat (c * 536870912 + n) :: u32) = c * 536870912 + n"
    by (simp only: unat_of_nat) simp
  moreover have "(c * 536870912 + n) div 536870912 = c" using assms by simp
  moreover have "(c * 536870912 + n) mod 536870912 = n" using assms by simp
  ultimately show ?thesis by (simp add: der_tag_def del: of_nat_add of_nat_mult)
qed

lemma parse_tag_low:
  assumes "unat tb mod 32 \<noteq> 31"
  shows "parse_asn1_tag (tb # s) =
    (let tag = word_of_nat (unat tb div 32 * 536870912 + unat tb mod 32)
     in if valid_tag tag then (Some tag, s) else (None, s))"
proof -
  have "unat tb mod 32 < 536870912" by (rule less_trans [of _ 32]) auto
  then show ?thesis
    unfolding parse_asn1_tag_def Let_def tag_class_bits tag_number_bits tag_number_31
    using assms by (simp add: valid_tag_def tag_join del: of_nat_add of_nat_mult)
qed

lemma parse_tag_high:
  assumes "unat tb mod 32 = 31"
  shows "parse_asn1_tag (tb # s) =
    (case parse_base128_integer s of (None, r) \<Rightarrow> (None, r)
     | (Some v, r) \<Rightarrow>
       if 536870912 \<le> unat v \<or> unat v < 31 then (None, r)
       else let tag = word_of_nat (unat tb div 32 * 536870912 + unat v)
            in if valid_tag tag then (Some tag, r) else (None, r))"
proof -
  have v: "ucast v = (word_of_nat (unat v) :: u32)" for v :: u64 by simp
  have cmp: "v > ucast CBS_ASN1_TAG_NUMBER_MASK \<or> v < 0x1f \<longleftrightarrow> 536870912 \<le> unat v \<or> unat v < 31"
    for v :: u64 by (simp add: word_less_nat_alt not_le) linarith
  show ?thesis
    unfolding parse_asn1_tag_def Let_def tag_class_bits tag_number_bits tag_number_31 cmp v
    using assms
    by (auto simp: valid_tag_def tag_join_ucast rbind_def not_le simp del: of_nat_add of_nat_mult
        split: prod.splits option.splits)
qed

lemma parse_asn1_tag_Some:
  "parse_asn1_tag s = (Some tag, r) \<longleftrightarrow> s = der_tag tag @ r \<and> valid_tag tag"
proof
  assume L: "parse_asn1_tag s = (Some tag, r)"
  then obtain tb s' where s: "s = tb # s'"
    by (cases s) (auto simp: parse_asn1_tag_def)
  have c: "unat tb div 32 < 8" using unat_byte_less [of tb] by (simp add: less_mult_imp_div_less)
  show "s = der_tag tag @ r \<and> valid_tag tag"
  proof (cases "unat tb mod 32 = 31")
    case True
    with L s have "\<exists>v. parse_base128_integer s' = (Some v, r) \<and> unat v < 536870912 \<and> 31 \<le> unat v
        \<and> tag = word_of_nat (unat tb div 32 * 536870912 + unat v) \<and> valid_tag tag"
      by (auto simp: parse_tag_high Let_def not_le not_less simp del: of_nat_add of_nat_mult
          split: prod.splits option.splits if_splits)
    then obtain v :: u64 where v: "s' = b128 (unat v) @ r" "unat v < 536870912" "31 \<le> unat v"
        and tag: "tag = word_of_nat (unat tb div 32 * 536870912 + unat v)" "valid_tag tag"
      unfolding parse_base128_integer_Some by blast
    have "word_of_nat (unat tb div 32 * 32 + 31) = tb"
      using True by (metis div_mult_mod_eq of_nat_unat word_of_nat_eq_iff ucast_id)
    with v tag s c show ?thesis by (simp add: der_tag_of_nat del: of_nat_add of_nat_mult)
  next
    case False
    have n: "unat tb mod 32 < 31" using False mod_less_divisor [of 32 "unat tb"] by linarith
    with L s False have "s' = r" and tag: "tag = word_of_nat (unat tb div 32 * 536870912 + unat tb mod 32)" "valid_tag tag"
      by (auto simp: parse_tag_low Let_def simp del: of_nat_add of_nat_mult split: if_splits)
    with s c n show ?thesis by (simp add: der_tag_of_nat del: of_nat_add of_nat_mult)
  qed
next
  assume R: "s = der_tag tag @ r \<and> valid_tag tag"
  define c where "c = unat tag div 536870912"
  define n where "n = unat tag mod 536870912"
  have cn: "c < 8" "n < 536870912" "tag = word_of_nat (c * 536870912 + n)"
    using unat_u32_less [of tag] by (simp_all add: c_def n_def less_mult_imp_div_less del: of_nat_add of_nat_mult)
  then have d: "der_tag tag = (if n \<ge> 31 then word_of_nat (c * 32 + 31) # b128 n else [word_of_nat (c * 32 + n)])"
    by (simp add: der_tag_of_nat del: of_nat_add of_nat_mult)
  show "parse_asn1_tag s = (Some tag, r)"
  proof (cases "n \<ge> 31")
    case True
    have tb: "unat (word_of_nat (c * 32 + 31) :: byte) = c * 32 + 31"
      using cn(1) by (simp add: unat_byte_of_nat del: of_nat_add of_nat_mult)
    have "n < 2 ^ 64" using cn(2) by simp
    then have n64: "unat (word_of_nat n :: u64) = n" by (simp only: unat_of_nat) simp
    then have "parse_base128_integer (b128 n @ r) = (Some (word_of_nat n), r)"
      by (simp add: parse_base128_integer_Some)
    with True R d tb n64 cn show ?thesis
      by (simp add: parse_tag_high Let_def not_le del: of_nat_add of_nat_mult)
  next
    case False
    then have tb: "unat (word_of_nat (c * 32 + n) :: byte) = c * 32 + n"
      using cn(1) by (simp add: unat_byte_of_nat del: of_nat_add of_nat_mult)
    with False R d cn show ?thesis
      by (simp add: parse_tag_low Let_def del: of_nat_add of_nat_mult)
  qed
qed

lemma base128_loop_suffix: "base128_loop v s = (x, r) \<Longrightarrow> suffix r s"
proof (induction v s rule: base128_loop.induct)
  case (2 v b s)
  then show ?case
    by (auto simp: Let_def suffix_Cons split: if_splits)
qed simp

lemma exact_base128 [reader_intros]: "exact_reader parse_base128_integer"
proof (rule exact_readerI)
  fix s v r
  assume "parse_base128_integer s = (Some v, r)"
  then show "\<exists>p. s = p @ r \<and> (\<forall>t. parse_base128_integer (p @ t) = (Some v, t))"
    by (auto simp: parse_base128_integer_Some)
next
  fix s r
  assume "parse_base128_integer s = (None, r)"
  then show "suffix r s" unfolding parse_base128_integer_def by (rule base128_loop_suffix)
qed

lemma exact_parse_asn1_tag [reader_intros]: "exact_reader parse_asn1_tag"
  unfolding parse_asn1_tag_def by (intro reader_intros)

lemma length_b128_high: "v < 128 ^ k \<Longrightarrow> length (b128_high v) \<le> k"
proof (induction v arbitrary: k rule: b128_high.induct)
  case (1 v)
  show ?case
  proof (cases "v = 0")
    case False
    with "1.prems" obtain j where k: "k = Suc j" by (cases k) auto
    with "1.prems" have "v div 128 < 128 ^ j" by (simp add: less_mult_imp_div_less mult.commute)
    with 1 False k show ?thesis by (simp add: b128_high_step)
  qed simp
qed

lemma length_der_tag: "length (der_tag tag) \<le> 6" "der_tag tag \<noteq> []"
proof -
  have "unat tag mod 536870912 div 128 < 128 ^ 4" by (rule less_mult_imp_div_less) simp
  then have "length (b128_high (unat tag mod 536870912 div 128)) \<le> 4" by (rule length_b128_high)
  then show "length (der_tag tag) \<le> 6" by (simp add: der_tag_def b128_def Let_def)
  show "der_tag tag \<noteq> []" by (simp add: der_tag_def Let_def)
qed

subsection \<open>Length octets\<close>

definition der_len :: "nat \<Rightarrow> byte list" where
  "der_len n =
     (if n < 128 then [word_of_nat n]
      else if n < 256 then 0x81 # be_bytes 1 n
      else if n < 65536 then 0x82 # be_bytes 2 n
      else if n < 16777216 then 0x83 # be_bytes 3 n
      else 0x84 # be_bytes 4 n)"

text \<open>
  The length octets the parser takes for a contents of \<open>n\<close> bytes, and whether they are
  flagged as BER or as indefinite.
\<close>

definition len_octets :: "bool \<Rightarrow> u32 \<Rightarrow> byte list \<Rightarrow> nat \<Rightarrow> bool \<Rightarrow> bool \<Rightarrow> bool" where
  "len_octets ber_ok tag lb n ber_found indefinite \<longleftrightarrow>
     (\<exists>b. lb = [b] \<and> unat b < 128 \<and> n = unat b \<and> \<not> ber_found \<and> \<not> indefinite) \<or>
     (lb = [0x80] \<and> ber_ok \<and> tag AND CBS_ASN1_CONSTRUCTED \<noteq> 0 \<and> n = 0 \<and> ber_found \<and> indefinite) \<or>
     (\<exists>b bs. lb = b # bs \<and> unat b = 128 + length bs \<and> 1 \<le> length bs \<and> length bs \<le> 4 \<and>
        n = be_nat bs \<and> \<not> indefinite \<and>
        ber_found = (n < 128 \<or> n < 256 ^ (length bs - 1)) \<and> (ber_found \<longrightarrow> ber_ok))"

lemma der_len_octets:
  assumes "unat b = 128 + length bs" "1 \<le> length bs" "length bs \<le> 4"
    "n = be_nat bs" "128 \<le> n" "256 ^ (length bs - 1) \<le> n"
  shows "der_len n = b # bs"
proof -
  have n: "n < 256 ^ length bs" using assms(4) be_nat_less by simp
  have bs: "be_bytes (length bs) n = bs" using assms(4) be_bytes_be_nat by simp
  have b: "b = word_of_nat (128 + length bs)" by (metis assms(1) of_nat_unat ucast_id)
  consider "length bs = 1" | "length bs = 2" | "length bs = 3" | "length bs = 4" using assms(2,3) by linarith
  then show ?thesis using n bs b assms(5,6) by cases (simp_all add: der_len_def)
qed

lemma der_len_cases:
  assumes "128 \<le> n" "n < 4294967296"
  obtains b bs where "der_len n = b # bs" "unat b = 128 + length bs" "1 \<le> length bs" "length bs \<le> 4"
    "n = be_nat bs" "256 ^ (length bs - 1) \<le> n"
proof -
  note witness = that
  consider "n < 256" | "256 \<le> n" "n < 65536" | "65536 \<le> n" "n < 16777216" | "16777216 \<le> n" by linarith
  then show ?thesis
  proof cases
    case 1
    with assms show ?thesis by (intro witness [of "0x81" "be_bytes 1 n"]) (simp_all add: der_len_def be_nat_be_bytes del: be_bytes.simps)
  next
    case 2
    with assms show ?thesis by (intro witness [of "0x82" "be_bytes 2 n"]) (simp_all add: der_len_def be_nat_be_bytes del: be_bytes.simps)
  next
    case 3
    with assms show ?thesis by (intro witness [of "0x83" "be_bytes 3 n"]) (simp_all add: der_len_def be_nat_be_bytes del: be_bytes.simps)
  next
    case 4
    with assms show ?thesis by (intro witness [of "0x84" "be_bytes 4 n"]) (simp_all add: der_len_def be_nat_be_bytes del: be_bytes.simps)
  qed
qed

lemma len_octets_der:
  "len_octets False tag lb n ber_found indefinite \<longleftrightarrow>
     lb = der_len n \<and> n < 4294967296 \<and> \<not> ber_found \<and> \<not> indefinite"
proof
  assume L: "len_octets False tag lb n ber_found indefinite"
  then consider (short) b where "lb = [b]" "unat b < 128" "n = unat b" "\<not> ber_found" "\<not> indefinite"
    | (long) b bs where "lb = b # bs" "unat b = 128 + length bs" "1 \<le> length bs" "length bs \<le> 4"
        "n = be_nat bs" "\<not> indefinite" "\<not> ber_found" "128 \<le> n" "256 ^ (length bs - 1) \<le> n"
    by (auto simp: len_octets_def not_less)
  then show "lb = der_len n \<and> n < 4294967296 \<and> \<not> ber_found \<and> \<not> indefinite"
  proof cases
    case short
    then show ?thesis by (simp add: der_len_def)
  next
    case long
    have "(256::nat) ^ length bs \<le> 256 ^ 4" using long(4) by (intro power_increasing) auto
    then have "n < 4294967296" using long(5) be_nat_less [of bs] by simp
    with long show ?thesis by (simp add: der_len_octets)
  qed
next
  assume R: "lb = der_len n \<and> n < 4294967296 \<and> \<not> ber_found \<and> \<not> indefinite"
  show "len_octets False tag lb n ber_found indefinite"
  proof (cases "n < 128")
    case True
    with R show ?thesis by (simp add: len_octets_def der_len_def unat_byte_of_nat)
  next
    case False
    with R obtain b bs where "lb = b # bs" "unat b = 128 + length bs" "1 \<le> length bs" "length bs \<le> 4"
        "n = be_nat bs" "256 ^ (length bs - 1) \<le> n"
      by (metis der_len_cases not_less)
    with R False show ?thesis
      unfolding len_octets_def by (intro disjI2 exI [of _ b] exI [of _ bs]) auto
  qed
qed

subsection \<open>Elements\<close>

lemma take_element_Some:
  "take_element len tag h bf ind s = (Some e, r) \<longleftrightarrow>
     (\<exists>p. s = p @ r \<and> length p = len \<and>
        e = \<lparr>el_out = p, el_tag = tag, el_header_len = h, el_ber_found = bf, el_indefinite = ind\<rparr>)"
proof
  assume "take_element len tag h bf ind s = (Some e, r)"
  then show "\<exists>p. s = p @ r \<and> length p = len \<and>
        e = \<lparr>el_out = p, el_tag = tag, el_header_len = h, el_ber_found = bf, el_indefinite = ind\<rparr>"
    unfolding take_element_def by (elim rbind_SomeE) (auto simp: CBS_get_bytes_Some)
qed (auto simp: take_element_def)

lemma take_element_None: "take_element len tag h bf ind s = (None, r) \<Longrightarrow> r = s"
  by (auto simp: take_element_def CBS_get_bytes_def rbind_def cbs_get_def split: if_splits)

lemma any_element_None: "cbs_get_any_asn1_element ber_ok s = (None, r) \<Longrightarrow> r = s"
  by (auto simp: cbs_get_any_asn1_element_def Let_def dest: take_element_None
      split: prod.splits option.splits if_splits)

lemma any_element_tag:
  assumes "cbs_get_any_asn1_element ber_ok s = (Some e, r)"
  obtains tag b s' where "s = der_tag tag @ b # s'" and "valid_tag tag"
proof -
  from assms obtain tag h where t: "parse_asn1_tag s = (Some tag, h)" and "h \<noteq> []"
    by (cases "parse_asn1_tag s") (auto simp: cbs_get_any_asn1_element_def CBS_get_u8_Some split: option.splits prod.splits)
  then obtain b s' where "h = b # s'" by (cases h) auto
  with t that show ?thesis by (auto simp: parse_asn1_tag_Some)
qed

text \<open>The parser on a tag followed by a length byte.\<close>

lemma any_element_eval:
  assumes "valid_tag tag"
  shows "cbs_get_any_asn1_element ber_ok (der_tag tag @ b # s) =
    (let cbs = der_tag tag @ b # s; hl = length (der_tag tag) + 1
     in if unat b < 128 then take_element (unat b + hl) tag hl False False cbs
        else let k = unat b - 128
             in if ber_ok \<and> tag AND CBS_ASN1_CONSTRUCTED \<noteq> 0 \<and> k = 0
                then take_element hl tag hl True True cbs
                else if k = 0 \<or> k > 4 then (None, cbs)
                else if length s < k then (None, cbs)
                else let n = be_nat (take k s); bf = (n < 128 \<or> n < 256 ^ (k - 1))
                     in if bf \<and> \<not> ber_ok then (None, cbs)
                        else take_element (n + hl + k) tag (hl + k) bf False cbs)"
proof -
  have t: "parse_asn1_tag (der_tag tag @ b # s) = (Some tag, b # s)"
    using assms by (simp add: parse_asn1_tag_Some)
  have k: "\<not> unat b < 128 \<Longrightarrow> unat (b AND 0x7f) = unat b - 128"
    using unat_byte_less [of b] by (simp add: low7 le_mod_geq)
  have fits: "(be_nat bs + (length (der_tag tag) + 1) + k) mod size_mod \<ge> be_nat bs"
    and val: "unat (be_word 0 bs :: u64) = be_nat bs"
    and pad: "drop_bit ((k - 1) * 8) (be_word 0 bs :: u64) = 0 \<longleftrightarrow> be_nat bs < 256 ^ (k - 1)"
    if bs: "length bs = k" "k \<le> 4" for bs :: "byte list" and k
  proof -
    have "(256::nat) ^ length bs \<le> 256 ^ 4" using bs by (intro power_increasing) auto
    then have "be_nat bs < 4294967296" using be_nat_less [of bs] by simp
    then show "(be_nat bs + (length (der_tag tag) + 1) + k) mod size_mod \<ge> be_nat bs"
      using length_der_tag(1) [of tag] bs by simp
    show v: "unat (be_word 0 bs :: u64) = be_nat bs" using bs by (intro unat_be_word) simp
    show "drop_bit ((k - 1) * 8) (be_word 0 bs :: u64) = 0 \<longleftrightarrow> be_nat bs < 256 ^ (k - 1)"
      by (simp add: drop_bit_eq_0_iff v power_mult mult.commute [of _ 8])
  qed
  show ?thesis
  proof (cases "unat b < 128")
    case True
    then show ?thesis by (simp add: cbs_get_any_asn1_element_def t high_bit_iff Let_def)
  next
    case False
    show ?thesis
    proof (cases "unat b - 128 = 0 \<or> unat b - 128 > 4 \<or> length s < unat b - 128")
      case True
      with False k show ?thesis
        by (auto simp: cbs_get_any_asn1_element_def t high_bit_iff Let_def cbs_get_u_def cbs_get_def)
    next
      case ok: False
      define bs where "bs = take (unat b - 128) s"
      have bs: "length bs = unat b - 128" "unat b - 128 \<le> 4" using ok by (auto simp: bs_def)
      have g: "cbs_get_u (unat b - 128) s = (Some (be_word 0 bs), drop (unat b - 128) s)"
        using ok by (simp add: cbs_get_u_def cbs_get_def bs_def)
      have lt: "be_word 0 bs < (128 :: u64) \<longleftrightarrow> be_nat bs < 128"
        using val [OF bs] by (simp add: word_less_nat_alt)
      show ?thesis
        using False ok k g fits [OF bs] val [OF bs] pad [OF bs] lt
        by (auto simp: cbs_get_any_asn1_element_def t high_bit_iff Let_def bs_def [symmetric])
    qed
  qed
qed

lemma any_element_octets:
  assumes tag: "valid_tag tag" and lb: "len_octets ber_ok tag lb n bf ind"
  shows "cbs_get_any_asn1_element ber_ok (der_tag tag @ lb @ rest) =
    take_element (n + (length (der_tag tag) + length lb)) tag (length (der_tag tag) + length lb) bf ind
      (der_tag tag @ lb @ rest)"
proof -
  from lb consider (short) b where "lb = [b]" "unat b < 128" "n = unat b" "\<not> bf" "\<not> ind"
    | (indef) "lb = [0x80]" "ber_ok" "tag AND CBS_ASN1_CONSTRUCTED \<noteq> 0" "n = 0" "bf" "ind"
    | (long) b bs where "lb = b # bs" "unat b = 128 + length bs" "1 \<le> length bs" "length bs \<le> 4"
        "n = be_nat bs" "\<not> ind" "bf = (n < 128 \<or> n < 256 ^ (length bs - 1))" "bf \<longrightarrow> ber_ok"
    unfolding len_octets_def by blast
  then show ?thesis
  proof cases
    case short
    then show ?thesis using any_element_eval [OF tag, of ber_ok b rest] by (simp add: Let_def)
  next
    case indef
    then show ?thesis using any_element_eval [OF tag, of ber_ok "0x80" rest] by (simp add: Let_def)
  next
    case long
    then show ?thesis using any_element_eval [OF tag, of ber_ok b "bs @ rest"]
      by (auto simp: Let_def ac_simps)
  qed
qed

lemma any_element_octetsE:
  assumes L: "cbs_get_any_asn1_element ber_ok s = (Some e, r)"
  obtains tag lb rest n bf ind where "s = der_tag tag @ lb @ rest" and "valid_tag tag"
    and "len_octets ber_ok tag lb n bf ind"
proof -
  note witness = that
  from L obtain tag b s' where s: "s = der_tag tag @ b # s'" and tag: "valid_tag tag"
    by (rule any_element_tag)
  note ev = L [unfolded s any_element_eval [OF tag] Let_def]
  consider "unat b < 128" | "unat b = 128" | "128 < unat b" by linarith
  then show ?thesis
  proof cases
    case 1
    with s tag show ?thesis
      by (intro witness [of tag "[b]" s' "unat b" False False]) (simp_all add: len_octets_def)
  next
    case 2
    then have "b = 0x80" by (simp add: word_unat_eq_iff)
    with 2 ev s tag show ?thesis
      by (intro witness [of tag "[b]" s' 0 True True]) (auto simp: len_octets_def split: if_splits)
  next
    case 3
    define k where "k = unat b - 128"
    with 3 have k: "unat b = 128 + k" "1 \<le> k" by auto
    with ev have k4: "k \<le> 4" "k \<le> length s'" by (auto split: if_splits)
    define bs where "bs = take k s'"
    have bs: "length bs = k" "s' = bs @ drop k s'" using k4 by (simp_all add: bs_def)
    with ev k k4 have "be_nat bs < 128 \<or> be_nat bs < 256 ^ (k - 1) \<longrightarrow> ber_ok"
      by (auto simp: bs_def split: if_splits)
    then have "len_octets ber_ok tag (b # bs) (be_nat bs) (be_nat bs < 128 \<or> be_nat bs < 256 ^ (k - 1)) False"
      unfolding len_octets_def using k k4 bs by (intro disjI2 exI [of _ b] exI [of _ bs]) simp
    with s bs(2) tag show ?thesis
      by (intro witness [of tag "b # bs" "drop k s'"]) simp_all
  qed
qed

text \<open>What the element parser accepts, in both directions.\<close>

lemma any_element_Some:
  "cbs_get_any_asn1_element ber_ok s = (Some e, r) \<longleftrightarrow>
     (\<exists>lb c. s = el_out e @ r \<and> el_out e = der_tag (el_tag e) @ lb @ c \<and> valid_tag (el_tag e) \<and>
        el_header_len e = length (der_tag (el_tag e)) + length lb \<and>
        len_octets ber_ok (el_tag e) lb (length c) (el_ber_found e) (el_indefinite e))"
  (is "?L \<longleftrightarrow> ?R")
proof
  assume L: ?L
  then obtain tag lb rest n bf ind where s: "s = der_tag tag @ lb @ rest" and tag: "valid_tag tag"
      and lb: "len_octets ber_ok tag lb n bf ind" by (rule any_element_octetsE)
  let ?h = "der_tag tag @ lb"
  from L s any_element_octets [OF tag lb] obtain p where p: "s = p @ r" "length p = n + length ?h"
      and e: "e = \<lparr>el_out = p, el_tag = tag, el_header_len = length ?h, el_ber_found = bf, el_indefinite = ind\<rparr>"
    by (auto simp: take_element_Some)
  have "take (length ?h) p = ?h" using p s by (metis append.assoc append_eq_append_conv_if le_add2)
  then have c: "p = ?h @ drop (length ?h) p" by (metis append_take_drop_id)
  show ?R
    using p e c lb tag by (intro exI [of _ lb] exI [of _ "drop (length ?h) p"]) auto
next
  assume ?R
  then obtain lb c where s: "s = el_out e @ r" "el_out e = der_tag (el_tag e) @ lb @ c" and tag: "valid_tag (el_tag e)"
      and h: "el_header_len e = length (der_tag (el_tag e)) + length lb"
      and lb: "len_octets ber_ok (el_tag e) lb (length c) (el_ber_found e) (el_indefinite e)" by blast
  from s any_element_octets [OF tag lb, of "c @ r"] show ?L
    by (simp add: take_element_Some h)
qed

lemma exact_any_element [reader_intros]: "exact_reader (cbs_get_any_asn1_element ber_ok)"
proof (rule exact_readerI)
  fix s e r
  assume "cbs_get_any_asn1_element ber_ok s = (Some e, r)"
  then have "s = el_out e @ r" and "\<And>t. cbs_get_any_asn1_element ber_ok (el_out e @ t) = (Some e, t)"
    unfolding any_element_Some by auto
  then show "\<exists>p. s = p @ r \<and> (\<forall>t. cbs_get_any_asn1_element ber_ok (p @ t) = (Some e, t))" by blast
next
  fix s r
  assume "cbs_get_any_asn1_element ber_ok s = (None, r)"
  then show "suffix r s" by (auto dest: any_element_None)
qed

text \<open>DER: one encoding per tag and contents.\<close>

definition der_header :: "u32 \<Rightarrow> nat \<Rightarrow> byte list" where
  "der_header tag n = der_tag tag @ der_len n"

definition der_element :: "u32 \<Rightarrow> byte list \<Rightarrow> byte list" where
  "der_element tag c = der_header tag (length c) @ c"

lemma CBS_get_any_asn1_element_Some:
  "CBS_get_any_asn1_element s = (Some e, r) \<longleftrightarrow>
     (\<exists>tag c. s = der_element tag c @ r \<and> valid_tag tag \<and> length c < 4294967296 \<and>
        e = \<lparr>el_out = der_element tag c, el_tag = tag, el_header_len = length (der_header tag (length c)),
             el_ber_found = False, el_indefinite = False\<rparr>)"
  unfolding CBS_get_any_asn1_element_def any_element_Some len_octets_der
  by (cases e) (auto simp: der_element_def der_header_def)

lemma cbs_get_asn1_Some:
  "cbs_get_asn1 tag skip_header s = (Some out, r) \<longleftrightarrow>
     (\<exists>c. s = der_element tag c @ r \<and> valid_tag tag \<and> length c < 4294967296 \<and>
        out = (if skip_header then c else der_element tag c))"
  (is "?L \<longleftrightarrow> ?R")
proof -
  have skip: "CBS_skip (length (der_header t (length c))) (der_element t c) = (Some (), c)" for t c
    by (simp add: der_element_def)
  show ?thesis
  proof
    assume ?L
    then obtain e where "CBS_get_any_asn1_element s = (Some e, r)" "el_tag e = tag"
        "if skip_header then CBS_skip (el_header_len e) (el_out e) = (Some (), out) else out = el_out e"
      unfolding cbs_get_asn1_def by (elim rbind_SomeE) (auto split: prod.splits option.splits if_splits)
    then show ?R unfolding CBS_get_any_asn1_element_Some using skip by (auto split: if_splits)
  next
    assume ?R
    then obtain c where c: "s = der_element tag c @ r" "valid_tag tag" "length c < 4294967296"
        "out = (if skip_header then c else der_element tag c)" by blast
    then have "CBS_get_any_asn1_element s = (Some \<lparr>el_out = der_element tag c, el_tag = tag,
        el_header_len = length (der_header tag (length c)), el_ber_found = False, el_indefinite = False\<rparr>, r)"
      unfolding CBS_get_any_asn1_element_Some by blast
    then show ?L using c(4) skip by (simp add: cbs_get_asn1_def)
  qed
qed

lemma CBS_get_asn1_Some:
  "CBS_get_asn1 tag s = (Some c, r) \<longleftrightarrow>
     s = der_element tag c @ r \<and> valid_tag tag \<and> length c < 4294967296"
  by (auto simp: CBS_get_asn1_def cbs_get_asn1_Some)

lemma CBS_get_asn1_element_Some:
  "CBS_get_asn1_element tag s = (Some out, r) \<longleftrightarrow>
     (\<exists>c. out = der_element tag c \<and> s = out @ r \<and> valid_tag tag \<and> length c < 4294967296)"
  by (auto simp: CBS_get_asn1_element_def cbs_get_asn1_Some)

text \<open>The element reader satisfies the contract of a parser.\<close>

interpretation any_element: cbs_reader CBS_get_any_asn1_element
  unfolding CBS_get_any_asn1_element_def by unfold_locales (rule exact_any_element)

end
