(* ===== verification/Cbb.thy ===== *)
theory Cbb
  imports Der
begin

text \<open>
  The builder of \<open>crypto/bytestring/cbb.c\<close>. A root \<open>CBB\<close> owns a buffer; every \<open>CBB\<close> has at
  most one open child, so the objects that share a buffer form a chain. The state is the
  buffer together with the chain of open children, outermost first, and a \<open>CBB *\<close> argument is
  the depth of the object it points to: \<open>0\<close> is the root, \<open>d + 1\<close> the child of \<open>d\<close>. A depth
  beyond the chain is a child that has been flushed, whose \<open>base\<close> pointer is NULL: \<open>CBB_flush\<close>
  and what starts with it fails there, \<open>CBB_did_write\<close> has no defined result. Objects below one
  that was discarded (\<open>CBB_discard_child\<close>) or hit by an error (\<open>cbb_on_error\<close>) have no depth any
  more: C leaves their \<open>base\<close> set, but the API forbids their use.
  Operations return the C result and the new state, after a failure too; \<open>cbb_errs\<close> logs the
  reasons given to \<open>OPENSSL_PUT_ERROR\<close>.
\<close>

datatype err_reason = ERR_R_OVERFLOW | ERR_R_SHOULD_NOT_HAVE_BEEN_CALLED

record cbb_buffer =
  cbb_buf :: "byte list"
  cbb_len :: nat
  cbb_cap :: nat
  can_resize :: bool
  cbb_error :: bool

record cbb_child =
  ch_offset :: nat
  pending_len_len :: nat
  pending_is_asn1 :: bool

record cbb =
  cbb_base :: cbb_buffer
  cbb_chain :: "cbb_child list"
  cbb_errs :: "err_reason list"

definition put_error :: "err_reason \<Rightarrow> cbb \<Rightarrow> cbb" where
  "put_error r s = s\<lparr>cbb_errs := cbb_errs s @ [r]\<rparr>"

subsection \<open>Creating and finishing\<close>

definition cbb_init :: "byte list \<Rightarrow> nat \<Rightarrow> bool \<Rightarrow> cbb" where
  "cbb_init buf cap resize =
     \<lparr>cbb_base = \<lparr>cbb_buf = buf, cbb_len = 0, cbb_cap = cap, can_resize = resize, cbb_error = False\<rparr>,
      cbb_chain = [], cbb_errs = []\<rparr>"

text \<open>The zeroed object a failed \<open>CBB_init\<close> leaves behind.\<close>

definition CBB_zero :: cbb where
  "CBB_zero = cbb_init [] 0 False"

definition CBB_init :: "allocator \<Rightarrow> nat \<Rightarrow> bool \<times> cbb" where
  "CBB_init al initial_capacity =
     (case al initial_capacity of
        None \<Rightarrow> if initial_capacity > 0 then (False, CBB_zero) else (True, cbb_init [] 0 True)
      | Some buf \<Rightarrow> (True, cbb_init buf initial_capacity True))"

definition CBB_init_fixed :: "byte list \<Rightarrow> bool \<times> cbb" where
  "CBB_init_fixed buf = (True, cbb_init buf (length buf) False)"

subsection \<open>Space in the buffer\<close>

definition set_error :: "cbb \<Rightarrow> cbb" where
  "set_error s = s\<lparr>cbb_base := (cbb_base s)\<lparr>cbb_error := True\<rparr>\<rparr>"

text \<open>\<open>cbb_buffer_reserve\<close>; the pointer it returns is the current end of the contents.\<close>

definition cbb_buffer_reserve :: "allocator \<Rightarrow> nat \<Rightarrow> cbb \<Rightarrow> bool \<times> cbb" where
  "cbb_buffer_reserve al len s =
     (let base = cbb_base s; newlen = (cbb_len base + len) mod size_mod
      in if newlen < cbb_len base then (False, set_error (put_error ERR_R_OVERFLOW s))
         else if newlen > cbb_cap base
         then (if \<not> can_resize base then (False, set_error (put_error ERR_R_OVERFLOW s))
               else
                 let doubled = (cbb_cap base * 2) mod size_mod;
                     newcap = (if doubled < cbb_cap base \<or> doubled < newlen then newlen else doubled)
                 in case realloc al (cbb_buf base) newcap of
                      None \<Rightarrow> (False, set_error s)
                    | Some newbuf \<Rightarrow>
                        (True, s\<lparr>cbb_base := base\<lparr>cbb_buf := newbuf, cbb_cap := newcap\<rparr>\<rparr>))
         else (True, s))"

definition cbb_buffer_add :: "allocator \<Rightarrow> nat \<Rightarrow> cbb \<Rightarrow> bool \<times> cbb" where
  "cbb_buffer_add al len s =
     (case cbb_buffer_reserve al len s of
        (False, s') \<Rightarrow> (False, s')
      | (True, s') \<Rightarrow> (True, s'\<lparr>cbb_base := (cbb_base s')\<lparr>cbb_len := cbb_len (cbb_base s') + len\<rparr>\<rparr>))"

definition write_buf :: "nat \<Rightarrow> byte list \<Rightarrow> cbb \<Rightarrow> cbb" where
  "write_buf off bs s =
     s\<lparr>cbb_base := (cbb_base s)\<lparr>cbb_buf := write_at (cbb_buf (cbb_base s)) off bs\<rparr>\<rparr>"

subsection \<open>Flushing\<close>

definition cbb_on_error :: "nat \<Rightarrow> cbb \<Rightarrow> cbb" where
  "cbb_on_error d s = (set_error s)\<lparr>cbb_chain := take d (cbb_chain s)\<rparr>"

text \<open>
  The loop that writes a big-endian length into \<open>n\<close> bytes at \<open>off\<close>, last byte first; it
  returns the part of the length that did not fit.
\<close>

fun put_length :: "nat \<Rightarrow> nat \<Rightarrow> nat \<Rightarrow> cbb \<Rightarrow> nat \<times> cbb" where
  "put_length 0 off len s = (len, s)"
| "put_length (Suc i) off len s =
     put_length i off (len div 256) (write_buf (off + i) [word_of_nat len] s)"

text \<open>The number of length bytes \<open>CBB_flush\<close> needs for an ASN.1 child, and the first of them.\<close>

definition asn1_len_len :: "nat \<Rightarrow> nat" where
  "asn1_len_len len =
     (if len > 0xffffff then 5 else if len > 0xffff then 4 else if len > 0xff then 3
      else if len > 0x7f then 2 else 1)"

definition initial_length_byte :: "nat \<Rightarrow> byte" where
  "initial_length_byte len =
     (if len > 0xffffff then 0x80 OR 4 else if len > 0xffff then 0x80 OR 3
      else if len > 0xff then 0x80 OR 2 else if len > 0x7f then 0x80 OR 1 else word_of_nat len)"

text \<open>
  The body of \<open>CBB_flush\<close> after the recursive call, for the child \<open>child\<close> of the object at
  depth \<open>d\<close>: \<open>None\<close> is a jump to \<open>err\<close> with the state reached.
\<close>

definition flush_child :: "allocator \<Rightarrow> nat \<Rightarrow> cbb_child \<Rightarrow> cbb \<Rightarrow> bool \<times> cbb" where
  "flush_child al d child s =
     (let child_start = (ch_offset child + pending_len_len child) mod size_mod
      in if child_start < ch_offset child \<or> cbb_len (cbb_base s) < child_start
         then (False, cbb_on_error d s)
         else
           let len = cbb_len (cbb_base s) - child_start
           in if pending_is_asn1 child
              then (if len > 0xfffffffe then (False, cbb_on_error d (put_error ERR_R_OVERFLOW s))
                    else
                      let len_len = asn1_len_len len; extra_bytes = len_len - 1;
                          first = initial_length_byte len;
                          len' = (if len_len = 1 then 0 else len);
                          moved = (if len_len \<noteq> 1
                                   then (case cbb_buffer_add al extra_bytes s of
                                           (False, s') \<Rightarrow> (False, s')
                                         | (True, s') \<Rightarrow>
                                             (True, write_buf (child_start + extra_bytes)
                                                (take len (drop child_start (cbb_buf (cbb_base s')))) s'))
                                   else (True, s))
                      in case moved of
                           (False, s') \<Rightarrow> (False, cbb_on_error d s')
                         | (True, s') \<Rightarrow>
                           (case put_length (len_len - 1) (ch_offset child + 1) len'
                                   (write_buf (ch_offset child) [first] s') of
                              (rest, s'') \<Rightarrow>
                                if rest \<noteq> 0 then (False, cbb_on_error d (put_error ERR_R_OVERFLOW s''))
                                else (True, s''\<lparr>cbb_chain := take d (cbb_chain s'')\<rparr>)))
              else (case put_length (pending_len_len child) (ch_offset child) len s of
                      (rest, s'') \<Rightarrow>
                        if rest \<noteq> 0 then (False, cbb_on_error d (put_error ERR_R_OVERFLOW s''))
                        else (True, s''\<lparr>cbb_chain := take d (cbb_chain s'')\<rparr>)))"

function CBB_flush :: "allocator \<Rightarrow> nat \<Rightarrow> cbb \<Rightarrow> bool \<times> cbb" where
  "CBB_flush al d s =
     (if d > length (cbb_chain s) \<or> cbb_error (cbb_base s) then (False, s)
      else if d = length (cbb_chain s) then (True, s)
      else
        case CBB_flush al (Suc d) s of
          (False, s') \<Rightarrow> (False, cbb_on_error d s')
        | (True, s') \<Rightarrow> flush_child al d (cbb_chain s ! d) s')"
  by pat_completeness auto
termination
  by (relation "measure (\<lambda>(al, d, s). length (cbb_chain s) - d)") auto

declare CBB_flush.simps [simp del]

subsection \<open>Appending\<close>

text \<open>\<open>CBB_add_space\<close>; the pointer it returns is \<open>cbb_len\<close> of the state before the addition.\<close>

definition CBB_add_space :: "allocator \<Rightarrow> nat \<Rightarrow> nat \<Rightarrow> cbb \<Rightarrow> bool \<times> cbb" where
  "CBB_add_space al d len s =
     (case CBB_flush al d s of
        (False, s') \<Rightarrow> (False, s')
      | (True, s') \<Rightarrow> cbb_buffer_add al len s')"

definition CBB_add_bytes :: "allocator \<Rightarrow> nat \<Rightarrow> byte list \<Rightarrow> cbb \<Rightarrow> bool \<times> cbb" where
  "CBB_add_bytes al d data s =
     (case CBB_add_space al d (length data) s of
        (False, s') \<Rightarrow> (False, s')
      | (True, s') \<Rightarrow> (True, write_buf (cbb_len (cbb_base s') - length data) data s'))"

definition CBB_add_zeros :: "allocator \<Rightarrow> nat \<Rightarrow> nat \<Rightarrow> cbb \<Rightarrow> bool \<times> cbb" where
  "CBB_add_zeros al d len s =
     (case CBB_add_space al d len s of
        (False, s') \<Rightarrow> (False, s')
      | (True, s') \<Rightarrow> (True, write_buf (cbb_len (cbb_base s') - len) (replicate len 0) s'))"

definition CBB_reserve :: "allocator \<Rightarrow> nat \<Rightarrow> nat \<Rightarrow> cbb \<Rightarrow> bool \<times> cbb" where
  "CBB_reserve al d len s =
     (case CBB_flush al d s of
        (False, s') \<Rightarrow> (False, s')
      | (True, s') \<Rightarrow> cbb_buffer_reserve al len s')"

text \<open>
  \<open>CBB_did_write\<close> reads \<open>base->len\<close> before any test, so on a flushed child, whose \<open>base\<close> is NULL,
  it has no defined result.
\<close>

definition CBB_did_write :: "nat \<Rightarrow> nat \<Rightarrow> cbb \<Rightarrow> (bool \<times> cbb) c_result" where
  "CBB_did_write d len s =
     (if d > length (cbb_chain s) then Undef
      else
        let base = cbb_base s; newlen = (cbb_len base + len) mod size_mod
        in if d < length (cbb_chain s) \<or> newlen < cbb_len base \<or> newlen > cbb_cap base
           then Ret (False, s)
           else Ret (True, s\<lparr>cbb_base := base\<lparr>cbb_len := newlen\<rparr>\<rparr>))"

text \<open>\<open>cbb_add_u\<close>: the write loop is \<open>put_length\<close> on the value, as in \<open>CBB_flush\<close>.\<close>

definition cbb_add_u :: "allocator \<Rightarrow> nat \<Rightarrow> u64 \<Rightarrow> nat \<Rightarrow> cbb \<Rightarrow> bool \<times> cbb" where
  "cbb_add_u al d v len_len s =
     (case CBB_add_space al d len_len s of
        (False, s') \<Rightarrow> (False, s')
      | (True, s') \<Rightarrow>
        (case put_length len_len (cbb_len (cbb_base s') - len_len) (unat v) s' of
           (rest, s'') \<Rightarrow> if rest \<noteq> 0 then (False, cbb_on_error d s'') else (True, s'')))"

definition CBB_add_u8 :: "allocator \<Rightarrow> nat \<Rightarrow> byte \<Rightarrow> cbb \<Rightarrow> bool \<times> cbb" where
  "CBB_add_u8 al d v = cbb_add_u al d (ucast v) 1"

definition CBB_add_u16 :: "allocator \<Rightarrow> nat \<Rightarrow> u16 \<Rightarrow> cbb \<Rightarrow> bool \<times> cbb" where
  "CBB_add_u16 al d v = cbb_add_u al d (ucast v) 2"

definition CBB_add_u16le :: "allocator \<Rightarrow> nat \<Rightarrow> u16 \<Rightarrow> cbb \<Rightarrow> bool \<times> cbb" where
  "CBB_add_u16le al d v = CBB_add_u16 al d (word_of_nat (bswap 2 (unat v)))"

definition CBB_add_u24 :: "allocator \<Rightarrow> nat \<Rightarrow> u32 \<Rightarrow> cbb \<Rightarrow> bool \<times> cbb" where
  "CBB_add_u24 al d v = cbb_add_u al d (ucast v) 3"

definition CBB_add_u32 :: "allocator \<Rightarrow> nat \<Rightarrow> u32 \<Rightarrow> cbb \<Rightarrow> bool \<times> cbb" where
  "CBB_add_u32 al d v = cbb_add_u al d (ucast v) 4"

definition CBB_add_u32le :: "allocator \<Rightarrow> nat \<Rightarrow> u32 \<Rightarrow> cbb \<Rightarrow> bool \<times> cbb" where
  "CBB_add_u32le al d v = CBB_add_u32 al d (word_of_nat (bswap 4 (unat v)))"

definition CBB_add_u64 :: "allocator \<Rightarrow> nat \<Rightarrow> u64 \<Rightarrow> cbb \<Rightarrow> bool \<times> cbb" where
  "CBB_add_u64 al d v = cbb_add_u al d v 8"

definition CBB_add_u64le :: "allocator \<Rightarrow> nat \<Rightarrow> u64 \<Rightarrow> cbb \<Rightarrow> bool \<times> cbb" where
  "CBB_add_u64le al d v = CBB_add_u64 al d (word_of_nat (bswap 8 (unat v)))"

subsection \<open>Children\<close>

definition cbb_add_child :: "allocator \<Rightarrow> nat \<Rightarrow> nat \<Rightarrow> bool \<Rightarrow> cbb \<Rightarrow> bool \<times> cbb" where
  "cbb_add_child al d len_len is_asn1 s =
     (let offset = cbb_len (cbb_base s)
      in case cbb_buffer_add al len_len s of
           (False, s') \<Rightarrow> (False, s')
         | (True, s') \<Rightarrow>
           (True, (write_buf offset (replicate len_len 0) s')
              \<lparr>cbb_chain := take d (cbb_chain s') @
                 [\<lparr>ch_offset = offset, pending_len_len = len_len, pending_is_asn1 = is_asn1\<rparr>]\<rparr>))"

definition cbb_add_length_prefixed :: "allocator \<Rightarrow> nat \<Rightarrow> nat \<Rightarrow> cbb \<Rightarrow> bool \<times> cbb" where
  "cbb_add_length_prefixed al d len_len s =
     (case CBB_flush al d s of
        (False, s') \<Rightarrow> (False, s')
      | (True, s') \<Rightarrow> cbb_add_child al d len_len False s')"

definition CBB_add_u8_length_prefixed :: "allocator \<Rightarrow> nat \<Rightarrow> cbb \<Rightarrow> bool \<times> cbb" where
  "CBB_add_u8_length_prefixed al d = cbb_add_length_prefixed al d 1"

definition CBB_add_u16_length_prefixed :: "allocator \<Rightarrow> nat \<Rightarrow> cbb \<Rightarrow> bool \<times> cbb" where
  "CBB_add_u16_length_prefixed al d = cbb_add_length_prefixed al d 2"

definition CBB_add_u24_length_prefixed :: "allocator \<Rightarrow> nat \<Rightarrow> cbb \<Rightarrow> bool \<times> cbb" where
  "CBB_add_u24_length_prefixed al d = cbb_add_length_prefixed al d 3"

definition CBB_discard_child :: "nat \<Rightarrow> cbb \<Rightarrow> cbb" where
  "CBB_discard_child d s =
     (if d \<ge> length (cbb_chain s) then s
      else s\<lparr>cbb_base := (cbb_base s)\<lparr>cbb_len := ch_offset (cbb_chain s ! d)\<rparr>,
             cbb_chain := take d (cbb_chain s)\<rparr>)"

text \<open>\<open>CBB_data\<close> and \<open>CBB_len\<close>: the bytes an object without an open child holds.\<close>

definition CBB_start :: "nat \<Rightarrow> cbb \<Rightarrow> nat" where
  "CBB_start d s =
     (if d = 0 then 0
      else ch_offset (cbb_chain s ! (d - 1)) + pending_len_len (cbb_chain s ! (d - 1)))"

definition CBB_len :: "nat \<Rightarrow> cbb \<Rightarrow> nat" where
  "CBB_len d s = cbb_len (cbb_base s) - CBB_start d s"

definition CBB_data :: "nat \<Rightarrow> cbb \<Rightarrow> byte list" where
  "CBB_data d s = take (CBB_len d s) (drop (CBB_start d s) (cbb_buf (cbb_base s)))"

text \<open>
  \<open>CBB_finish\<close> at depth \<open>d\<close>; \<open>want_out\<close> says that both output pointers are given. On success
  the result holds the bytes handed over, and the object keeps no buffer.
\<close>

definition CBB_finish :: "allocator \<Rightarrow> nat \<Rightarrow> bool \<Rightarrow> cbb \<Rightarrow> byte list option \<times> cbb" where
  "CBB_finish al d want_out s =
     (if d \<noteq> 0 then (None, put_error ERR_R_SHOULD_NOT_HAVE_BEEN_CALLED s)
      else case CBB_flush al 0 s of
             (False, s') \<Rightarrow> (None, s')
           | (True, s') \<Rightarrow>
             if can_resize (cbb_base s') \<and> \<not> want_out then (None, s')
             else (Some (take (cbb_len (cbb_base s')) (cbb_buf (cbb_base s'))),
                   s'\<lparr>cbb_base := (cbb_base s')\<lparr>cbb_buf := []\<rparr>\<rparr>))"

subsection \<open>Invariant and contents\<close>

fun chain_ok :: "nat \<Rightarrow> cbb_child list \<Rightarrow> nat \<Rightarrow> bool" where
  "chain_ok lo [] n \<longleftrightarrow> lo \<le> n"
| "chain_ok lo (c # cs) n \<longleftrightarrow>
     lo \<le> ch_offset c \<and> (pending_is_asn1 c \<longrightarrow> pending_len_len c = 1) \<and> pending_len_len c < 256 \<and>
     chain_ok (ch_offset c + pending_len_len c) cs n"

definition cbb_inv :: "cbb \<Rightarrow> bool" where
  "cbb_inv s \<longleftrightarrow>
     length (cbb_buf (cbb_base s)) = cbb_cap (cbb_base s) \<and>
     cbb_len (cbb_base s) \<le> cbb_cap (cbb_base s) \<and> cbb_cap (cbb_base s) < size_mod \<and>
     chain_ok 0 (cbb_chain s) (cbb_len (cbb_base s))"

definition contents :: "cbb \<Rightarrow> byte list" where
  "contents s = take (cbb_len (cbb_base s)) (cbb_buf (cbb_base s))"

abbreviation ok_state :: "cbb \<Rightarrow> bool" where
  "ok_state s \<equiv> cbb_inv s \<and> \<not> cbb_error (cbb_base s)"

text \<open>The allocator and the buffer can give any amount of memory.\<close>

definition unbounded :: "allocator \<Rightarrow> cbb \<Rightarrow> bool" where
  "unbounded al s \<longleftrightarrow> can_resize (cbb_base s) \<and> (\<forall>n. al n \<noteq> None)"

lemma chain_ok_le: "chain_ok lo cs n \<Longrightarrow> lo \<le> n"
  by (induction lo cs n rule: chain_ok.induct) auto

lemma chain_ok_mono: "chain_ok lo cs n \<Longrightarrow> n \<le> n' \<Longrightarrow> chain_ok lo cs n'"
  by (induction lo cs n rule: chain_ok.induct) auto

lemma chain_ok_append:
  "chain_ok lo (cs @ ds) n \<Longrightarrow> chain_ok lo cs n"
  by (induction cs arbitrary: lo) (auto dest: chain_ok_le)

lemma chain_ok_take: "chain_ok lo cs n \<Longrightarrow> chain_ok lo (take d cs) n"
  by (metis append_take_drop_id chain_ok_append)

lemma chain_ok_snoc:
  "chain_ok lo (cs @ [c]) n \<longleftrightarrow>
     chain_ok lo cs (ch_offset c) \<and> (pending_is_asn1 c \<longrightarrow> pending_len_len c = 1) \<and>
     pending_len_len c < 256 \<and> ch_offset c + pending_len_len c \<le> n"
  by (induction cs arbitrary: lo) auto

lemma length_contents: "cbb_inv s \<Longrightarrow> length (contents s) = cbb_len (cbb_base s)"
  by (simp add: cbb_inv_def contents_def)

lemma set_error_simps [simp]:
  "cbb_inv (set_error s) = cbb_inv s" "contents (set_error s) = contents s"
  "cbb_chain (set_error s) = cbb_chain s" "cbb_error (cbb_base (set_error s))"
  "can_resize (cbb_base (set_error s)) = can_resize (cbb_base s)"
  "cbb_len (cbb_base (set_error s)) = cbb_len (cbb_base s)"
  by (simp_all add: set_error_def cbb_inv_def contents_def)

lemma put_error_simps [simp]:
  "cbb_inv (put_error r s) = cbb_inv s" "contents (put_error r s) = contents s"
  "cbb_chain (put_error r s) = cbb_chain s" "cbb_base (put_error r s) = cbb_base s"
  by (simp_all add: put_error_def cbb_inv_def contents_def)

lemma cbb_on_error_simps [simp]:
  "cbb_inv s \<Longrightarrow> cbb_inv (cbb_on_error d s)" "cbb_error (cbb_base (cbb_on_error d s))"
  "cbb_chain (cbb_on_error d s) = take d (cbb_chain s)"
  "can_resize (cbb_base (cbb_on_error d s)) = can_resize (cbb_base s)"
  by (simp_all add: cbb_on_error_def set_error_def cbb_inv_def chain_ok_take)

lemma chain_update_inv [simp]:
  "cbb_inv s \<Longrightarrow> cbb_inv (s\<lparr>cbb_chain := take d (cbb_chain s)\<rparr>)"
  by (simp add: cbb_inv_def chain_ok_take)

lemma contents_chain_update [simp]: "contents (s\<lparr>cbb_chain := c\<rparr>) = contents s"
  by (simp add: contents_def)

lemma size_add_no_wrap:
  "a < size_mod \<Longrightarrow> b < size_mod \<Longrightarrow> \<not> (a + b) mod size_mod < a \<Longrightarrow> (a + b) mod size_mod = a + b"
proof (cases "a + b < size_mod")
  case False
  assume "a < size_mod" "b < size_mod" "\<not> (a + b) mod size_mod < a"
  moreover from this False have "(a + b) mod size_mod = a + b - size_mod" by (simp add: le_mod_geq)
  ultimately show ?thesis using False by linarith
qed simp

lemma reserve_spec:
  assumes al: "allocates al" and inv: "cbb_inv s" and n: "n < size_mod"
    and r: "cbb_buffer_reserve al n s = (ok, s')"
  shows "cbb_inv s'" and "contents s' = contents s" and "cbb_chain s' = cbb_chain s"
    and "cbb_len (cbb_base s') = cbb_len (cbb_base s)"
    and "can_resize (cbb_base s') = can_resize (cbb_base s)"
    and "ok \<Longrightarrow> cbb_len (cbb_base s) + n \<le> cbb_cap (cbb_base s') \<and> cbb_error (cbb_base s') = cbb_error (cbb_base s)"
    and "unbounded al s \<Longrightarrow> cbb_len (cbb_base s) + n < size_mod \<Longrightarrow> ok"
proof -
  let ?b = "cbb_base s" and ?nl = "(cbb_len (cbb_base s) + n) mod size_mod"
  have b: "length (cbb_buf ?b) = cbb_cap ?b" "cbb_len ?b \<le> cbb_cap ?b" "cbb_cap ?b < size_mod"
      "chain_ok 0 (cbb_chain s) (cbb_len ?b)"
    using inv by (auto simp: cbb_inv_def)
  have fit: "\<not> ?nl < cbb_len ?b \<Longrightarrow> ?nl = cbb_len ?b + n"
    using b n by (intro size_add_no_wrap) auto
  define dbl where "dbl = (cbb_cap ?b * 2) mod size_mod"
  define nc where "nc = (if dbl < cbb_cap ?b \<or> dbl < ?nl then ?nl else dbl)"
  have nc: "nc < size_mod" "?nl \<le> nc" by (auto simp: nc_def dbl_def)
  consider (ovf) "?nl < cbb_len ?b" "s' = set_error (put_error ERR_R_OVERFLOW s)" "\<not> ok"
    | (fixed) "\<not> ?nl < cbb_len ?b" "?nl > cbb_cap ?b" "\<not> can_resize ?b" "s' = set_error (put_error ERR_R_OVERFLOW s)" "\<not> ok"
    | (oom) "\<not> ?nl < cbb_len ?b" "?nl > cbb_cap ?b" "can_resize ?b" "realloc al (cbb_buf ?b) nc = None" "s' = set_error s" "\<not> ok"
    | (grow) m where "\<not> ?nl < cbb_len ?b" "?nl > cbb_cap ?b" "realloc al (cbb_buf ?b) nc = Some m"
        "s' = s\<lparr>cbb_base := ?b\<lparr>cbb_buf := m, cbb_cap := nc\<rparr>\<rparr>" "ok"
    | (room) "\<not> ?nl < cbb_len ?b" "?nl \<le> cbb_cap ?b" "s' = s" "ok"
    using r unfolding cbb_buffer_reserve_def Let_def dbl_def [symmetric] nc_def [symmetric]
    by (auto split: if_splits option.splits simp: not_less)
  then have "cbb_inv s' \<and> contents s' = contents s \<and> cbb_chain s' = cbb_chain s \<and>
      cbb_len (cbb_base s') = cbb_len ?b \<and> can_resize (cbb_base s') = can_resize ?b \<and>
      (ok \<longrightarrow> cbb_len ?b + n \<le> cbb_cap (cbb_base s') \<and> cbb_error (cbb_base s') = cbb_error ?b) \<and>
      (unbounded al s \<longrightarrow> cbb_len ?b + n < size_mod \<longrightarrow> ok)"
  proof cases
    case ovf
    have "\<not> cbb_len ?b + n < size_mod" using ovf(1) by auto
    with ovf inv show ?thesis by simp
  next
    case fixed
    with inv show ?thesis by (simp add: unbounded_def)
  next
    case oom
    then have "\<not> unbounded al s" by (auto simp: unbounded_def realloc_def split: option.splits)
    with oom inv show ?thesis by simp
  next
    case grow
    have "length m = nc" using al grow(3) by (rule realloc_length)
    moreover have "take (cbb_len ?b) m = take (cbb_len ?b) (cbb_buf ?b)"
      using b nc fit [OF grow(1)] by (intro realloc_take [OF grow(3)]) auto
    moreover have "cbb_len ?b \<le> nc" using nc fit [OF grow(1)] by simp
    ultimately show ?thesis using grow b nc fit [OF grow(1)]
      by (simp add: cbb_inv_def contents_def)
  next
    case room
    with inv fit show ?thesis by simp
  qed
  then show "cbb_inv s'" and "contents s' = contents s" and "cbb_chain s' = cbb_chain s"
    and "cbb_len (cbb_base s') = cbb_len (cbb_base s)"
    and "can_resize (cbb_base s') = can_resize (cbb_base s)"
    and "ok \<Longrightarrow> cbb_len (cbb_base s) + n \<le> cbb_cap (cbb_base s') \<and> cbb_error (cbb_base s') = cbb_error (cbb_base s)"
    and "unbounded al s \<Longrightarrow> cbb_len (cbb_base s) + n < size_mod \<Longrightarrow> ok"
    by blast+
qed

lemma buffer_add_spec:
  assumes al: "allocates al" and inv: "cbb_inv s" and n: "n < size_mod"
    and r: "cbb_buffer_add al n s = (ok, s')"
  shows "cbb_inv s'" and "cbb_chain s' = cbb_chain s"
    and "can_resize (cbb_base s') = can_resize (cbb_base s)"
    and "ok \<Longrightarrow> cbb_len (cbb_base s') = cbb_len (cbb_base s) + n \<and> cbb_error (cbb_base s') = cbb_error (cbb_base s)
           \<and> take (cbb_len (cbb_base s)) (contents s') = contents s"
    and "unbounded al s \<Longrightarrow> cbb_len (cbb_base s) + n < size_mod \<Longrightarrow> ok"
proof -
  obtain ok1 s1 where r1: "cbb_buffer_reserve al n s = (ok1, s1)" by fastforce
  note sp = reserve_spec [OF al inv n r1]
  have ok: "ok = ok1" "s' = (if ok1 then s1\<lparr>cbb_base := (cbb_base s1)\<lparr>cbb_len := cbb_len (cbb_base s1) + n\<rparr>\<rparr> else s1)"
    using r by (auto simp: cbb_buffer_add_def r1 split: bool.splits)
  have room: "ok1 \<Longrightarrow> cbb_len (cbb_base s1) + n \<le> cbb_cap (cbb_base s1)" using sp(4,6) by simp
  show "cbb_inv s'" using sp(1) room ok by (auto simp: cbb_inv_def intro: chain_ok_mono)
  show "cbb_chain s' = cbb_chain s" "can_resize (cbb_base s') = can_resize (cbb_base s)"
    using sp ok by auto
  show "ok \<Longrightarrow> cbb_len (cbb_base s') = cbb_len (cbb_base s) + n \<and> cbb_error (cbb_base s') = cbb_error (cbb_base s)
           \<and> take (cbb_len (cbb_base s)) (contents s') = contents s"
    using sp ok by (simp add: contents_def min_def)
  show "unbounded al s \<Longrightarrow> cbb_len (cbb_base s) + n < size_mod \<Longrightarrow> ok" using sp(7) ok by simp
qed

lemma write_buf_simps [simp]:
  "cbb_chain (write_buf off bs s) = cbb_chain s"
  "cbb_len (cbb_base (write_buf off bs s)) = cbb_len (cbb_base s)"
  "cbb_cap (cbb_base (write_buf off bs s)) = cbb_cap (cbb_base s)"
  "cbb_error (cbb_base (write_buf off bs s)) = cbb_error (cbb_base s)"
  "can_resize (cbb_base (write_buf off bs s)) = can_resize (cbb_base s)"
  by (simp_all add: write_buf_def)

lemma write_buf_spec:
  assumes "cbb_inv s" and "off + length bs \<le> cbb_len (cbb_base s)"
  shows "cbb_inv (write_buf off bs s)" and "contents (write_buf off bs s) = write_at (contents s) off bs"
  using assms by (auto simp: cbb_inv_def write_buf_def contents_def take_write_at)

lemma put_length_spec:
  assumes "off + n \<le> length (cbb_buf (cbb_base s))"
  shows "put_length n off v s = (v div 256 ^ n, write_buf off (be_bytes n v) s)"
  using assms
proof (induction n arbitrary: v s)
  case 0
  then show ?case by (simp add: write_buf_def)
next
  case (Suc i)
  let ?s = "write_buf (off + i) [word_of_nat v] s"
  have len: "length (cbb_buf (cbb_base ?s)) = length (cbb_buf (cbb_base s))"
    using Suc.prems by (simp add: write_buf_def)
  have "put_length i off (v div 256) ?s = (v div 256 div 256 ^ i, write_buf off (be_bytes i (v div 256)) ?s)"
    using Suc.prems len by (intro Suc.IH) simp
  moreover have "write_buf off (be_bytes i (v div 256)) ?s = write_buf off (be_bytes (Suc i) v) s"
    using Suc.prems write_at_append_rev [of off "be_bytes i (v div 256)" "[word_of_nat v]" "cbb_buf (cbb_base s)"]
    by (simp add: write_buf_def)
  moreover have "v div 256 div 256 ^ i = v div 256 ^ Suc i" by (simp add: div_mult2_eq)
  ultimately show ?case by simp
qed

subsection \<open>What a flush does\<close>

text \<open>The length prefix of a child holding \<open>n\<close> bytes, if it fits.\<close>

definition len_prefix :: "cbb_child \<Rightarrow> nat \<Rightarrow> byte list option" where
  "len_prefix c n =
     (if pending_is_asn1 c then (if n > 0xfffffffe then None else Some (der_len n))
      else if n < 256 ^ pending_len_len c then Some (be_bytes (pending_len_len c) n) else None)"

fun flushed :: "cbb_child list \<Rightarrow> byte list \<Rightarrow> byte list option" where
  "flushed [] m = Some m"
| "flushed (c # cs) m =
     (case flushed cs m of None \<Rightarrow> None
      | Some m' \<Rightarrow>
        (case len_prefix c (length m' - (ch_offset c + pending_len_len c)) of None \<Rightarrow> None
         | Some p \<Rightarrow> Some (take (ch_offset c) m' @ p @ drop (ch_offset c + pending_len_len c) m')))"

lemma der_len_code:
  "n \<le> 0xfffffffe \<Longrightarrow> der_len n =
     initial_length_byte n # be_bytes (asn1_len_len n - 1) (if asn1_len_len n = 1 then 0 else n)"
  by (auto simp: der_len_def initial_length_byte_def asn1_len_len_def not_less)

lemma asn1_len_fits: "n \<le> 0xfffffffe \<Longrightarrow> (if asn1_len_len n = 1 then 0 else n) div 256 ^ (asn1_len_len n - 1) = 0"
  by (auto simp: asn1_len_len_def)

lemma asn1_len_len_bounds: "1 \<le> asn1_len_len n" "asn1_len_len n \<le> 5"
  by (auto simp: asn1_len_len_def)

text \<open>
  The state after the length prefix of a child has been written, for a child that starts at
  \<open>st\<close>: the bytes before the child and the bytes of the child are unchanged.
\<close>

lemma flush_asn1_move:
  assumes al: "allocates al" and inv: "cbb_inv s" and st: "st \<le> cbb_len (cbb_base s)"
    and n: "k < 256" and r: "cbb_buffer_add al k s = (True, s1)"
  defines "len \<equiv> cbb_len (cbb_base s) - st"
  defines "s2 \<equiv> write_buf (st + k) (take len (drop st (cbb_buf (cbb_base s1)))) s1"
  shows "cbb_inv s2" "take st (contents s2) = take st (contents s)"
    "drop (st + k) (contents s2) = drop st (contents s)"
    "length (contents s2) = length (contents s) + k"
proof -
  have n': "k < size_mod" using n by simp
  note sp = buffer_add_spec [OF al inv n' r]
  have l1: "cbb_len (cbb_base s1) = cbb_len (cbb_base s) + k" using sp(4) by simp
  have i1: "cbb_len (cbb_base s1) \<le> length (cbb_buf (cbb_base s1))" using sp(1) by (simp add: cbb_inv_def)
  have "take (cbb_len (cbb_base s)) (cbb_buf (cbb_base s1)) = contents s"
    using sp(4) l1 i1 by (simp add: contents_def min_def)
  then have mv: "take len (drop st (cbb_buf (cbb_base s1))) = drop st (contents s)"
    unfolding len_def drop_take [symmetric] by simp
  have lc: "length (drop st (contents s)) = len" using inv by (simp add: length_contents len_def)
  have "st + k + length (drop st (contents s)) \<le> cbb_len (cbb_base s1)" using lc l1 st by (simp add: len_def)
  note w = write_buf_spec [OF sp(1) this]
  have c2: "contents s2 = write_at (contents s1) (st + k) (drop st (contents s))" using w(2) mv by (simp add: s2_def)
  have l: "length (contents s1) = length (contents s) + k" "length (contents s) = cbb_len (cbb_base s)"
    using sp(1) inv l1 by (simp_all add: length_contents)
  show "cbb_inv s2" using w(1) mv by (simp add: s2_def)
  have pre: "take (length (contents s)) (contents s1) = contents s" using sp(4) l by simp
  show "take st (contents s2) = take st (contents s)"
    using st l by (simp add: c2 take_write_at_le) (metis pre min.absorb1 take_take)
  show "drop (st + k) (contents s2) = drop st (contents s)"
    using st l by (simp add: c2 write_at_def)
  show "length (contents s2) = length (contents s) + k"
    using st l by (simp add: c2 length_write_at)
qed
text \<open>Writing a prefix of \<open>length p\<close> bytes over the space reserved for it.\<close>

lemma write_prefix:
  assumes "cbb_inv s" and "off + length p \<le> cbb_len (cbb_base s)"
  shows "contents (write_buf off p s) = take off (contents s) @ p @ drop (off + length p) (contents s)"
    and "cbb_inv (write_buf off p s)"
  using write_buf_spec [OF assms] by (simp_all add: write_at_def)

lemma write_buf_append:
  assumes "cbb_inv s" and "off + length as + length bs \<le> cbb_len (cbb_base s)"
  shows "write_buf (off + length as) bs (write_buf off as s) = write_buf off (as @ bs) s"
  using assms by (simp add: write_buf_def cbb_inv_def write_at_append)

lemma flush_child_plain:
  assumes inv: "cbb_inv s" and ch: "cbb_chain s = cs @ [c]" and "\<not> pending_is_asn1 c"
  shows "flush_child al (length cs) c s =
    (let n = cbb_len (cbb_base s) - (ch_offset c + pending_len_len c);
         s' = write_buf (ch_offset c) (be_bytes (pending_len_len c) n) s
     in if n < 256 ^ pending_len_len c then (True, s'\<lparr>cbb_chain := cs\<rparr>)
        else (False, cbb_on_error (length cs) (put_error ERR_R_OVERFLOW s')))"
proof -
  have b: "ch_offset c + pending_len_len c \<le> cbb_len (cbb_base s)" "cbb_len (cbb_base s) < size_mod"
      "cbb_len (cbb_base s) \<le> length (cbb_buf (cbb_base s))"
    using inv ch by (auto simp: cbb_inv_def chain_ok_snoc)
  then have m: "(ch_offset c + pending_len_len c) mod size_mod = ch_offset c + pending_len_len c" by simp
  have p: "\<And>n. put_length (pending_len_len c) (ch_offset c) n s =
      (n div 256 ^ pending_len_len c, write_buf (ch_offset c) (be_bytes (pending_len_len c) n) s)"
    using b by (intro put_length_spec) simp
  show ?thesis using b assms by (simp add: flush_child_def m p Let_def div_eq_0_iff)
qed

text \<open>The ASN.1 branch, once the contents have been moved to make room for \<open>k\<close> more length bytes.\<close>

lemma flush_asn1_prefix:
  assumes inv: "cbb_inv s" and n: "n \<le> 0xfffffffe" and k: "k = asn1_len_len n - 1"
    and b: "off + 1 + k \<le> cbb_len (cbb_base s)"
  shows "put_length k (off + 1) (if asn1_len_len n = 1 then 0 else n) (write_buf off [initial_length_byte n] s) =
    (0, write_buf off (der_len n) s)"
proof -
  let ?v = "if asn1_len_len n = 1 then 0 else n" and ?s = "write_buf off [initial_length_byte n] s"
  have "cbb_inv ?s" using inv b by (intro write_buf_spec) simp_all
  then have "put_length k (off + 1) ?v ?s = (?v div 256 ^ k, write_buf (off + 1) (be_bytes k ?v) ?s)"
    using b by (intro put_length_spec) (simp add: cbb_inv_def)
  moreover have "write_buf (off + 1) (be_bytes k ?v) ?s = write_buf off (initial_length_byte n # be_bytes k ?v) s"
    using write_buf_append [of s off "[initial_length_byte n]" "be_bytes k ?v"] inv b by simp
  moreover have "?v div 256 ^ k = 0" using asn1_len_fits [OF n] k by simp
  moreover have "der_len n = initial_length_byte n # be_bytes k ?v" using der_len_code [OF n] k by simp
  ultimately show ?thesis by (simp only:)
qed

lemma length_der_len: "n \<le> 0xfffffffe \<Longrightarrow> length (der_len n) = asn1_len_len n"
  using asn1_len_len_bounds [of n] by (simp add: der_len_code)

lemma flush_child_asn1:
  assumes inv: "cbb_inv s" and ch: "cbb_chain s = cs @ [c]" and asn1: "pending_is_asn1 c"
  defines "st \<equiv> ch_offset c + 1"
  defines "n \<equiv> cbb_len (cbb_base s) - st"
  defines "k \<equiv> asn1_len_len n - 1"
  shows "flush_child al (length cs) c s =
    (if n > 0xfffffffe then (False, cbb_on_error (length cs) (put_error ERR_R_OVERFLOW s))
     else case (if k \<noteq> 0
                then case cbb_buffer_add al k s of
                       (False, s') \<Rightarrow> (False, s')
                     | (True, s') \<Rightarrow> (True, write_buf (st + k) (take n (drop st (cbb_buf (cbb_base s')))) s')
                else (True, s)) of
            (False, s') \<Rightarrow> (False, cbb_on_error (length cs) s')
          | (True, s') \<Rightarrow>
            (case put_length k st (if asn1_len_len n = 1 then 0 else n) (write_buf (ch_offset c) [initial_length_byte n] s') of
               (rest, s'') \<Rightarrow>
                 if rest \<noteq> 0 then (False, cbb_on_error (length cs) (put_error ERR_R_OVERFLOW s''))
                 else (True, s''\<lparr>cbb_chain := take (length cs) (cbb_chain s'')\<rparr>)))"
proof -
  have b: "st \<le> cbb_len (cbb_base s)" "pending_len_len c = 1" "cbb_len (cbb_base s) < size_mod"
    using inv ch asn1 by (auto simp: cbb_inv_def chain_ok_snoc st_def)
  then have m: "(ch_offset c + pending_len_len c) mod size_mod = st" by (simp add: st_def)
  have c1: "\<not> (st < ch_offset c \<or> cbb_len (cbb_base s) < st)" using b by (auto simp: st_def)
  have l1: "asn1_len_len n \<noteq> 1 \<longleftrightarrow> k \<noteq> 0" using asn1_len_len_bounds(1) [of n] by (auto simp: k_def)
  show ?thesis
    unfolding flush_child_def Let_def m if_not_P [OF c1] if_P [OF asn1] n_def [symmetric] k_def [symmetric] l1
    by (simp only: st_def)
qed

lemma flush_child_spec:
  assumes al: "allocates al" and inv: "cbb_inv s" and ch: "cbb_chain s = cs @ [c]"
    and r: "flush_child al (length cs) c s = (ok, s')"
  defines "st \<equiv> ch_offset c + pending_len_len c"
  shows "cbb_inv s' \<and> cbb_chain s' = cs \<and> can_resize (cbb_base s') = can_resize (cbb_base s) \<and>
    (ok \<longrightarrow> cbb_error (cbb_base s') = cbb_error (cbb_base s) \<and>
       (\<exists>p. len_prefix c (length (contents s) - st) = Some p \<and>
          contents s' = take (ch_offset c) (contents s) @ p @ drop st (contents s))) \<and>
    (unbounded al s \<longrightarrow>
       (\<exists>p. len_prefix c (length (contents s) - st) = Some p \<and>
          length (contents s) + length p < size_mod + pending_len_len c) \<longrightarrow> ok)"
proof -
  have b: "st \<le> cbb_len (cbb_base s)" "cbb_len (cbb_base s) < size_mod"
      "pending_is_asn1 c \<Longrightarrow> pending_len_len c = 1"
    using inv ch by (auto simp: cbb_inv_def chain_ok_snoc st_def)
  have lc [simp]: "length (contents s) = cbb_len (cbb_base s)" using inv by (rule length_contents)
  define n where "n = cbb_len (cbb_base s) - st"
  have upd: "\<And>s'. cbb_inv s' \<Longrightarrow> cbb_chain s' = cs @ [c] \<Longrightarrow> cbb_inv (s'\<lparr>cbb_chain := cs\<rparr>)"
    using chain_update_inv [where d = "length cs"] by (metis append_eq_conv_conj)
  show ?thesis
  proof (cases "pending_is_asn1 c")
    case False
    let ?p = "be_bytes (pending_len_len c) n" and ?s = "write_buf (ch_offset c) (be_bytes (pending_len_len c) n) s"
    have "ch_offset c + length ?p \<le> cbb_len (cbb_base s)" using b by (simp add: st_def)
    note w = write_prefix [OF inv this]
    show ?thesis using r False w upd [OF w(2)] ch
      by (auto simp: flush_child_plain [OF inv ch False] Let_def len_prefix_def n_def st_def split: if_splits)
  next
    case True
    have st: "st = ch_offset c + 1" using b(3) [OF True] by (simp add: st_def)
    have m: "(ch_offset c + pending_len_len c) mod size_mod = st" using b by (simp add: st_def)
    define k where "k = asn1_len_len n - 1"
    have kb: "k < 256" "k < size_mod" "k \<le> 4" using asn1_len_len_bounds [of n] by (simp_all add: k_def)
    have lp: "len_prefix c n = (if n > 0xfffffffe then None else Some (der_len n))"
      using True by (simp add: len_prefix_def)
    have fin: "cbb_inv (write_buf (ch_offset c) (der_len n) t) \<and>
        contents (write_buf (ch_offset c) (der_len n) t) = take (ch_offset c) (contents s) @ der_len n @ drop st (contents s)"
      if "cbb_inv t" "n \<le> 0xfffffffe" "take st (contents t) = take st (contents s)" "drop (st + k) (contents t) = drop st (contents s)"
        "length (contents t) = length (contents s) + k" for t
    proof -
      have l: "ch_offset c + length (der_len n) = st + k"
        using that asn1_len_len_bounds [of n] by (simp add: length_der_len st k_def)
      then have le: "ch_offset c + length (der_len n) \<le> cbb_len (cbb_base t)"
        using that b by (simp add: length_contents)
      have "take (ch_offset c) (contents t) = take (ch_offset c) (take st (contents t))" by (simp add: st)
      also have "\<dots> = take (ch_offset c) (contents s)" using that by (simp add: st)
      finally show ?thesis using write_prefix [OF that(1) le] that l by simp
    qed
    note fc = flush_child_asn1 [OF inv ch True, of al, folded st, folded n_def, folded k_def]
    consider (big) "n > 0xfffffffe" | (one) "n \<le> 0xfffffffe" "k = 0" "asn1_len_len n = 1"
      | (more) "n \<le> 0xfffffffe" "k > 0" "asn1_len_len n \<noteq> 1"
      using asn1_len_len_bounds [of n] by (fastforce simp: k_def)
    then show ?thesis
    proof cases
      case big
      then show ?thesis using r inv ch lp by (auto simp: fc n_def)
    next
      case one
      have "put_length 0 st 0 (write_buf (ch_offset c) [initial_length_byte n] s) = (0, write_buf (ch_offset c) (der_len n) s)"
        using flush_asn1_prefix [OF inv one(1), of k "ch_offset c"] one b st by simp
      then have s': "ok" "s' = (write_buf (ch_offset c) (der_len n) s)\<lparr>cbb_chain := cs\<rparr>"
        using r one ch by (simp_all add: fc not_less)
      show ?thesis using s' fin [OF inv one(1)] one upd [of "write_buf (ch_offset c) (der_len n) s"] ch lp by (simp add: n_def)
    next
      case more
      obtain ok1 s1 where a: "cbb_buffer_add al k s = (ok1, s1)" by fastforce
      note sp = buffer_add_spec [OF al inv kb(2) a]
      show ?thesis
      proof (cases ok1)
        case False
        have "\<not> ok" "s' = cbb_on_error (length cs) s1" using False r more a by (auto simp: fc)
        moreover have "length (der_len n) = Suc k" using more(1) asn1_len_len_bounds(1) [of n]
          by (simp add: length_der_len k_def)
        ultimately show ?thesis using sp False ch lp more(1) b(3) [OF True] by (auto simp: n_def)
      next
        case True1: True
        let ?s2 = "write_buf (st + k) (take n (drop st (cbb_buf (cbb_base s1)))) s1"
        note mv = flush_asn1_move [OF al inv b(1) kb(1) a [unfolded eqTrueI [OF True1]], folded n_def]
        have pl: "put_length k st n (write_buf (ch_offset c) [initial_length_byte n] ?s2) = (0, write_buf (ch_offset c) (der_len n) ?s2)"
          using flush_asn1_prefix [OF mv(1) more(1) k_def, of "ch_offset c"] more b st sp(4) True1 by simp
        have s': "ok" "s' = (write_buf (ch_offset c) (der_len n) ?s2)\<lparr>cbb_chain := cs\<rparr>"
          using r more a True1 ch sp(2) pl by (simp_all add: fc not_less)
        show ?thesis
          using s' fin [OF mv(1) more(1) mv(2,3,4)] upd [of "write_buf (ch_offset c) (der_len n) ?s2"] more ch sp lp True1
          by (simp add: n_def)
      qed
    qed
  qed
qed

lemma len_prefix_length:
  assumes "len_prefix c n = Some p" and "pending_is_asn1 c \<longrightarrow> pending_len_len c = 1"
  shows "pending_len_len c \<le> length p" and "length p \<le> pending_len_len c + 4"
  using assms asn1_len_len_bounds [of n] by (auto simp: len_prefix_def length_der_len split: if_splits)

lemma flushed_prefix:
  assumes "flushed cs m = Some m'" and "chain_ok lo cs (length m)"
  shows "length m \<le> length m' \<and> length m' \<le> length m + 4 * length cs \<and> take lo m' = take lo m"
  using assms
proof (induction cs arbitrary: lo m')
  case (Cons c cs)
  let ?st = "ch_offset c + pending_len_len c"
  from Cons.prems(1) obtain m1 p where m1: "flushed cs m = Some m1"
    and p: "len_prefix c (length m1 - ?st) = Some p"
    and m': "m' = take (ch_offset c) m1 @ p @ drop ?st m1"
    by (auto split: option.splits)
  have ok: "chain_ok ?st cs (length m)" "lo \<le> ch_offset c" "pending_is_asn1 c \<longrightarrow> pending_len_len c = 1"
    using Cons.prems(2) by auto
  note ih = Cons.IH [OF m1 ok(1)]
  have "?st \<le> length m" using ok(1) by (rule chain_ok_le)
  then have l: "?st \<le> length m1" using ih by simp
  have "take lo (take ?st m1) = take lo (take ?st m)" using ih by simp
  then have "take lo m1 = take lo m" using ok(2) by simp
  then show ?case using ih l ok(2) len_prefix_length [OF p ok(3)] by (auto simp: m' min_def)
qed simp

lemma flushed_step:
  assumes "chain_ok lo (c # cs) (length m)" and "flushed (c # cs) m = Some m'"
  shows "\<exists>m1. flushed cs m = Some m1 \<and> length m1 \<le> length m'"
proof -
  let ?st = "ch_offset c + pending_len_len c"
  from assms(2) obtain m1 p where m1: "flushed cs m = Some m1" "len_prefix c (length m1 - ?st) = Some p"
    "m' = take (ch_offset c) m1 @ p @ drop ?st m1" by (auto split: option.splits)
  have "?st \<le> length m1" using flushed_prefix [OF m1(1)] assms(1) chain_ok_le by fastforce
  then show ?thesis using m1 len_prefix_length(1) [OF m1(2)] assms(1) by auto
qed

lemma chain_ok_suffix: "chain_ok lo (cs @ ds) n \<Longrightarrow> \<exists>lo'. chain_ok lo' ds n"
  by (induction cs arbitrary: lo) auto

lemma flush_child_error: "flush_child al d c s = (ok, s') \<Longrightarrow> \<not> ok \<longrightarrow> cbb_error (cbb_base s')"
  unfolding flush_child_def Let_def by (auto split: if_splits prod.splits bool.splits)

lemma CBB_flush_spec:
  assumes "allocates al" and "cbb_inv s" and "CBB_flush al d s = (ok, s')"
  shows "cbb_inv s' \<and> can_resize (cbb_base s') = can_resize (cbb_base s) \<and>
    (ok \<longrightarrow> d \<le> length (cbb_chain s) \<and> cbb_chain s' = take d (cbb_chain s) \<and> \<not> cbb_error (cbb_base s') \<and>
       flushed (drop d (cbb_chain s)) (contents s) = Some (contents s')) \<and>
    (\<not> ok \<longrightarrow> d \<le> length (cbb_chain s) \<longrightarrow> cbb_error (cbb_base s')) \<and>
    (unbounded al s \<longrightarrow> d \<le> length (cbb_chain s) \<longrightarrow> \<not> cbb_error (cbb_base s) \<longrightarrow>
       (\<exists>m. flushed (drop d (cbb_chain s)) (contents s) = Some m \<and> length m < size_mod) \<longrightarrow> ok)"
  using assms
proof (induction al d s arbitrary: ok s' rule: CBB_flush.induct)
  case (1 al d s)
  let ?ch = "cbb_chain s"
  show ?case
  proof (cases "d > length ?ch \<or> cbb_error (cbb_base s) \<or> d = length ?ch")
    case True
    with 1(3,4) show ?thesis by (auto simp: CBB_flush.simps [of al d s] split: if_splits)
  next
    case False
    then have d: "d < length ?ch" and ne: "\<not> cbb_error (cbb_base s)" by auto
    obtain ok1 s1 where f: "CBB_flush al (Suc d) s = (ok1, s1)" by fastforce
    from 1(1) [OF _ _ 1(2,3) f] False
    have ih: "cbb_inv s1" "can_resize (cbb_base s1) = can_resize (cbb_base s)"
      "ok1 \<Longrightarrow> cbb_chain s1 = take (Suc d) ?ch \<and> \<not> cbb_error (cbb_base s1) \<and>
         flushed (drop (Suc d) ?ch) (contents s) = Some (contents s1)"
      "unbounded al s \<Longrightarrow> flushed (drop (Suc d) ?ch) (contents s) = Some m1 \<Longrightarrow> length m1 < size_mod \<Longrightarrow> ok1" for m1
      using d by auto
    have dr: "drop d ?ch = ?ch ! d # drop (Suc d) ?ch" using d by (rule Cons_nth_drop_Suc [symmetric])
    have ck: "chain_ok 0 (take d ?ch @ drop d ?ch) (length (contents s))"
      using 1(3) length_contents [OF 1(3)] by (simp add: cbb_inv_def)
    obtain lo where lo: "chain_ok lo (drop d ?ch) (length (contents s))" using chain_ok_suffix [OF ck] by blast
    note step = flushed_step [OF lo [unfolded dr]]
    show ?thesis
    proof (cases ok1)
      case False1: False
      then have "\<not> ok" "s' = cbb_on_error d s1" using 1(4) d ne f by (auto simp: CBB_flush.simps [of al d s])
      moreover have "\<not> (\<exists>m. flushed (drop d ?ch) (contents s) = Some m \<and> length m < size_mod)" if "unbounded al s"
      proof
        assume "\<exists>m. flushed (drop d ?ch) (contents s) = Some m \<and> length m < size_mod"
        then obtain m m1 :: "byte list" where "flushed (drop (Suc d) ?ch) (contents s) = Some m1" "length m1 \<le> length m" "length m < size_mod"
          using step unfolding dr by blast
        then show False using ih(4) [OF that] False1 by simp
      qed
      ultimately show ?thesis using ih(1,2) d by auto
    next
      case True
      let ?st = "ch_offset (?ch ! d) + pending_len_len (?ch ! d)"
      have ch1: "cbb_chain s1 = take d ?ch @ [?ch ! d]" using ih(3) [OF True] d by (simp add: take_Suc_conv_app_nth)
      have ld: "length (take d ?ch) = d" using d by simp
      have fc: "flush_child al (length (take d ?ch)) (?ch ! d) s1 = (ok, s')"
        using 1(4) d ne f True ld by (auto simp: CBB_flush.simps [of al d s])
      note sp = flush_child_spec [OF 1(2) ih(1) ch1 fc]
      have un: "unbounded al s1 = unbounded al s" using ih(2) by (simp add: unbounded_def)
      have fl: "flushed (drop d ?ch) (contents s) = (case len_prefix (?ch ! d) (length (contents s1) - ?st) of
          None \<Rightarrow> None | Some p \<Rightarrow> Some (take (ch_offset (?ch ! d)) (contents s1) @ p @ drop ?st (contents s1)))"
        using ih(3) [OF True] by (simp add: dr)
      have "?st \<le> length (contents s1)" using ih(1) ch1 by (simp add: length_contents cbb_inv_def chain_ok_snoc)
      then have "unbounded al s \<longrightarrow> (\<exists>m. flushed (drop d ?ch) (contents s) = Some m \<and> length m < size_mod) \<longrightarrow> ok"
        using sp un by (auto simp: fl split: option.splits)
      moreover have "\<not> ok \<longrightarrow> cbb_error (cbb_base s')" using fc by (rule flush_child_error)
      ultimately show ?thesis using sp ih(2,3) d True by (auto simp: fl)
    qed
  qed
qed

subsection \<open>Operations that append bytes\<close>

text \<open>
  \<open>appends al d op bs\<close>: the operation \<open>op\<close> on the object at depth \<open>d\<close> keeps the buffer
  sound, on success has flushed the open children of \<open>d\<close> and appended exactly \<open>bs\<close>, on
  failure has locked the builder (unless \<open>d\<close> was already closed), and succeeds when memory
  is available and the pending lengths fit.
\<close>

definition appends :: "allocator \<Rightarrow> nat \<Rightarrow> (cbb \<Rightarrow> bool \<times> cbb) \<Rightarrow> byte list \<Rightarrow> bool" where
  "appends al d op bs \<longleftrightarrow>
     (\<forall>s ok s'. cbb_inv s \<longrightarrow> op s = (ok, s') \<longrightarrow>
        cbb_inv s' \<and> can_resize (cbb_base s') = can_resize (cbb_base s) \<and>
        (ok \<longrightarrow> d \<le> length (cbb_chain s) \<and> cbb_chain s' = take d (cbb_chain s) \<and> \<not> cbb_error (cbb_base s') \<and>
           (\<exists>m. flushed (drop d (cbb_chain s)) (contents s) = Some m \<and> contents s' = m @ bs)) \<and>
        (\<not> ok \<longrightarrow> d \<le> length (cbb_chain s) \<longrightarrow> cbb_error (cbb_base s')) \<and>
        (unbounded al s \<longrightarrow> d \<le> length (cbb_chain s) \<longrightarrow> \<not> cbb_error (cbb_base s) \<longrightarrow>
           (\<exists>m. flushed (drop d (cbb_chain s)) (contents s) = Some m \<and> length m + length bs < size_mod) \<longrightarrow> ok))"

definition cbb_seq :: "(cbb \<Rightarrow> bool \<times> cbb) \<Rightarrow> (cbb \<Rightarrow> bool \<times> cbb) \<Rightarrow> cbb \<Rightarrow> bool \<times> cbb" where
  "cbb_seq f g s = (case f s of (False, s') \<Rightarrow> (False, s') | (True, s') \<Rightarrow> g s')"

lemma cbb_seq_apply: "f s = (ok, s') \<Longrightarrow> cbb_seq f g s = (if ok then g s' else (False, s'))"
  by (simp add: cbb_seq_def)

lemma appendsD:
  assumes "appends al d op bs" and "cbb_inv s" and "op s = (ok, s')"
  shows "cbb_inv s'" "can_resize (cbb_base s') = can_resize (cbb_base s)"
    "ok \<Longrightarrow> d \<le> length (cbb_chain s) \<and> cbb_chain s' = take d (cbb_chain s) \<and> \<not> cbb_error (cbb_base s') \<and>
       (\<exists>m. flushed (drop d (cbb_chain s)) (contents s) = Some m \<and> contents s' = m @ bs)"
    "\<not> ok \<Longrightarrow> d \<le> length (cbb_chain s) \<Longrightarrow> cbb_error (cbb_base s')"
    "unbounded al s \<Longrightarrow> d \<le> length (cbb_chain s) \<Longrightarrow> \<not> cbb_error (cbb_base s) \<Longrightarrow>
       flushed (drop d (cbb_chain s)) (contents s) = Some m \<Longrightarrow> length m + length bs < size_mod \<Longrightarrow> ok"
  using assms unfolding appends_def by blast+

lemma flush_appends: "allocates al \<Longrightarrow> appends al d (CBB_flush al d) []"
  unfolding appends_def using CBB_flush_spec [of al _ d] by (metis append_Nil2 list.size(3) add_0_right)

lemma unbounded_cong: "can_resize (cbb_base s') = can_resize (cbb_base s) \<Longrightarrow> unbounded al s' = unbounded al s"
  by (simp add: unbounded_def)

lemma appends_seq:
  assumes f: "appends al d f as" and g: "appends al d g bs"
  shows "appends al d (cbb_seq f g) (as @ bs)"
  unfolding appends_def
proof (intro allI impI)
  fix s ok s'
  assume inv: "cbb_inv s" and r: "cbb_seq f g s = (ok, s')"
  let ?m = "flushed (drop d (cbb_chain s)) (contents s)"
  obtain ok1 s1 where 1: "f s = (ok1, s1)" by fastforce
  note F = appendsD [OF f inv 1]
  show "cbb_inv s' \<and> can_resize (cbb_base s') = can_resize (cbb_base s) \<and>
        (ok \<longrightarrow> d \<le> length (cbb_chain s) \<and> cbb_chain s' = take d (cbb_chain s) \<and> \<not> cbb_error (cbb_base s') \<and>
           (\<exists>m. ?m = Some m \<and> contents s' = m @ as @ bs)) \<and>
        (\<not> ok \<longrightarrow> d \<le> length (cbb_chain s) \<longrightarrow> cbb_error (cbb_base s')) \<and>
        (unbounded al s \<longrightarrow> d \<le> length (cbb_chain s) \<longrightarrow> \<not> cbb_error (cbb_base s) \<longrightarrow>
           (\<exists>m. ?m = Some m \<and> length m + length (as @ bs) < size_mod) \<longrightarrow> ok)"
  proof (cases ok1)
    case False
    then have "\<not> ok" "s' = s1" using r 1 by (simp_all add: cbb_seq_apply)
    then show ?thesis using F False by force
  next
    case True
    then have 2: "g s1 = (ok, s')" using r 1 by (simp add: cbb_seq_apply)
    note G = appendsD [OF g F(1) 2]
    from F(3) [OF True] obtain m where m: "?m = Some m" "contents s1 = m @ as" "d \<le> length (cbb_chain s)"
      "cbb_chain s1 = take d (cbb_chain s)" "\<not> cbb_error (cbb_base s1)" by blast
    then have fl: "flushed (drop d (cbb_chain s1)) (contents s1) = Some (m @ as)" and "d \<le> length (cbb_chain s1)"
      by simp_all
    then show ?thesis using G m F(2) unbounded_cong [OF F(2)] by (auto simp: add.assoc)
  qed
qed

text \<open>Reserving space at the end and filling it.\<close>

definition fill_space :: "byte list \<Rightarrow> cbb \<Rightarrow> bool \<times> cbb" where
  "fill_space bs s = (True, write_buf (cbb_len (cbb_base s) - length bs) bs s)"

lemma buffer_fill_spec:
  assumes al: "allocates al" and inv: "cbb_inv s" and n: "length bs < size_mod"
    and r: "cbb_seq (cbb_buffer_add al (length bs)) (fill_space bs) s = (ok, s')"
  shows "cbb_inv s'" "cbb_chain s' = cbb_chain s" "can_resize (cbb_base s') = can_resize (cbb_base s)"
    "ok \<Longrightarrow> contents s' = contents s @ bs \<and> cbb_error (cbb_base s') = cbb_error (cbb_base s)"
    "\<not> ok \<Longrightarrow> cbb_error (cbb_base s')"
    "unbounded al s \<Longrightarrow> length (contents s) + length bs < size_mod \<Longrightarrow> ok"
proof -
  obtain ok1 s1 where a: "cbb_buffer_add al (length bs) s = (ok1, s1)" by fastforce
  note sp = buffer_add_spec [OF al inv n a]
  have ok: "ok = ok1" "s' = (if ok1 then write_buf (cbb_len (cbb_base s1) - length bs) bs s1 else s1)"
    using r a by (auto simp: cbb_seq_apply fill_space_def split: if_splits)
  have len: "cbb_len (cbb_base s) = length (contents s)" using inv by (simp add: length_contents)
  have w: "cbb_inv s' \<and> contents s' = contents s @ bs" if ok1
  proof -
    have off: "cbb_len (cbb_base s1) - length bs = length (contents s)" using sp(4) that ok(1) len by simp
    have le: "length (contents s) + length bs \<le> cbb_len (cbb_base s1)" using sp(4) that ok(1) len by simp
    have "length (contents s1) = length (contents s) + length bs"
      using sp(1,4) that ok(1) len by (simp add: length_contents)
    moreover have "take (length (contents s)) (contents s1) = contents s" using sp(4) that ok(1) len by simp
    ultimately show ?thesis using write_prefix [OF sp(1) le] ok(2) that off by simp
  qed
  show "cbb_inv s'" using w sp(1) ok by auto
  show "cbb_chain s' = cbb_chain s" "can_resize (cbb_base s') = can_resize (cbb_base s)" using sp ok by auto
  show "ok \<Longrightarrow> contents s' = contents s @ bs \<and> cbb_error (cbb_base s') = cbb_error (cbb_base s)"
    using w sp(4) ok by simp
  show "\<not> ok \<Longrightarrow> cbb_error (cbb_base s')"
    using a ok by (auto simp: cbb_buffer_add_def cbb_buffer_reserve_def Let_def split: if_splits bool.splits prod.splits option.splits)
  show "unbounded al s \<Longrightarrow> length (contents s) + length bs < size_mod \<Longrightarrow> ok" using sp(5) ok len by simp
qed

lemma fill_appends:
  assumes al: "allocates al" and n: "length bs < size_mod"
  shows "appends al d (cbb_seq (CBB_flush al d) (cbb_seq (cbb_buffer_add al (length bs)) (fill_space bs))) bs"
    (is "appends al d (cbb_seq _ ?w) bs")
  unfolding appends_def
proof (intro allI impI)
  fix s ok s'
  assume inv: "cbb_inv s" and r: "cbb_seq (CBB_flush al d) ?w s = (ok, s')"
  obtain ok1 s1 where 1: "CBB_flush al d s = (ok1, s1)" by fastforce
  note F = appendsD [OF flush_appends [OF al] inv 1]
  show "cbb_inv s' \<and> can_resize (cbb_base s') = can_resize (cbb_base s) \<and>
        (ok \<longrightarrow> d \<le> length (cbb_chain s) \<and> cbb_chain s' = take d (cbb_chain s) \<and> \<not> cbb_error (cbb_base s') \<and>
           (\<exists>m. flushed (drop d (cbb_chain s)) (contents s) = Some m \<and> contents s' = m @ bs)) \<and>
        (\<not> ok \<longrightarrow> d \<le> length (cbb_chain s) \<longrightarrow> cbb_error (cbb_base s')) \<and>
        (unbounded al s \<longrightarrow> d \<le> length (cbb_chain s) \<longrightarrow> \<not> cbb_error (cbb_base s) \<longrightarrow>
           (\<exists>m. flushed (drop d (cbb_chain s)) (contents s) = Some m \<and> length m + length bs < size_mod) \<longrightarrow> ok)"
  proof (cases ok1)
    case False
    then have "\<not> ok" "s' = s1" using r 1 by (simp_all add: cbb_seq_apply)
    then show ?thesis using F False by force
  next
    case True
    then have 2: "?w s1 = (ok, s')" using r 1 by (simp add: cbb_seq_apply)
    show ?thesis using buffer_fill_spec [OF al F(1) n 2] F True unbounded_cong [OF F(2)] by auto
  qed
qed

lemma CBB_add_bytes_seq:
  "CBB_add_bytes al d data = cbb_seq (CBB_flush al d) (cbb_seq (cbb_buffer_add al (length data)) (fill_space data))"
  by (auto simp: CBB_add_bytes_def CBB_add_space_def cbb_seq_def fill_space_def fun_eq_iff split: prod.splits bool.splits)

lemma CBB_add_zeros_seq: "CBB_add_zeros al d n = CBB_add_bytes al d (replicate n 0)"
  by (auto simp: CBB_add_bytes_def CBB_add_zeros_def fun_eq_iff split: prod.splits bool.splits)

lemma add_bytes_appends: "allocates al \<Longrightarrow> length bs < size_mod \<Longrightarrow> appends al d (CBB_add_bytes al d bs) bs"
  by (simp add: CBB_add_bytes_seq fill_appends)

lemma add_zeros_appends: "allocates al \<Longrightarrow> n < size_mod \<Longrightarrow> appends al d (CBB_add_zeros al d n) (replicate n 0)"
  by (simp add: CBB_add_zeros_seq add_bytes_appends)

text \<open>\<open>appends\<close> only looks at states that satisfy the invariant.\<close>

lemma appends_cong: "(\<And>s. cbb_inv s \<Longrightarrow> f s = g s) \<Longrightarrow> appends al d f bs = appends al d g bs"
  unfolding appends_def by (simp cong: imp_cong)

lemma add_u_eq:
  assumes al: "allocates al" and n: "n < size_mod" and v: "unat v < 256 ^ n" and inv: "cbb_inv s"
  shows "cbb_add_u al d v n s = CBB_add_bytes al d (be_bytes n (unat v)) s"
proof -
  obtain ok1 s1 where 1: "CBB_flush al d s = (ok1, s1)" by fastforce
  obtain ok2 s2 where 2: "cbb_buffer_add al n s1 = (ok2, s2)" by fastforce
  have i1: "cbb_inv s1" using CBB_flush_spec [OF al inv 1] by blast
  note sp = buffer_add_spec [OF al i1 n 2]
  have "ok2 \<Longrightarrow> cbb_len (cbb_base s2) - n + n \<le> length (cbb_buf (cbb_base s2))"
    using sp(1,4) by (simp add: cbb_inv_def)
  from put_length_spec [OF this, of "unat v"] show ?thesis
    using 1 2 v by (cases ok1; cases ok2) (simp_all add: cbb_add_u_def CBB_add_bytes_def CBB_add_space_def)
qed

lemma add_u_appends:
  "allocates al \<Longrightarrow> n < size_mod \<Longrightarrow> unat v < 256 ^ n \<Longrightarrow> appends al d (cbb_add_u al d v n) (be_bytes n (unat v))"
  using appends_cong [of "cbb_add_u al d v n" "CBB_add_bytes al d (be_bytes n (unat v))"]
  by (simp add: add_u_eq add_bytes_appends)

subsection \<open>Operations that open a child\<close>

definition opens :: "allocator \<Rightarrow> nat \<Rightarrow> (cbb \<Rightarrow> bool \<times> cbb) \<Rightarrow> byte list \<Rightarrow> nat \<Rightarrow> bool \<Rightarrow> bool" where
  "opens al d op hdr ll asn1 \<longleftrightarrow>
     (\<forall>s ok s'. cbb_inv s \<longrightarrow> op s = (ok, s') \<longrightarrow>
        cbb_inv s' \<and> can_resize (cbb_base s') = can_resize (cbb_base s) \<and>
        (ok \<longrightarrow> d \<le> length (cbb_chain s) \<and> \<not> cbb_error (cbb_base s') \<and>
           (\<exists>m. flushed (drop d (cbb_chain s)) (contents s) = Some m \<and>
              contents s' = m @ hdr @ replicate ll 0 \<and>
              cbb_chain s' = take d (cbb_chain s) @
                [\<lparr>ch_offset = length (m @ hdr), pending_len_len = ll, pending_is_asn1 = asn1\<rparr>])) \<and>
        (\<not> ok \<longrightarrow> d \<le> length (cbb_chain s) \<longrightarrow> cbb_error (cbb_base s')) \<and>
        (unbounded al s \<longrightarrow> d \<le> length (cbb_chain s) \<longrightarrow> \<not> cbb_error (cbb_base s) \<longrightarrow>
           (\<exists>m. flushed (drop d (cbb_chain s)) (contents s) = Some m \<and> length m + length hdr + ll < size_mod) \<longrightarrow> ok))"

lemma opensD:
  assumes "opens al d op hdr ll asn1" and "cbb_inv s" and "op s = (ok, s')"
  shows "cbb_inv s'" "can_resize (cbb_base s') = can_resize (cbb_base s)"
    "ok \<Longrightarrow> d \<le> length (cbb_chain s) \<and> \<not> cbb_error (cbb_base s') \<and>
       (\<exists>m. flushed (drop d (cbb_chain s)) (contents s) = Some m \<and> contents s' = m @ hdr @ replicate ll 0 \<and>
          cbb_chain s' = take d (cbb_chain s) @
            [\<lparr>ch_offset = length (m @ hdr), pending_len_len = ll, pending_is_asn1 = asn1\<rparr>])"
    "\<not> ok \<Longrightarrow> d \<le> length (cbb_chain s) \<Longrightarrow> cbb_error (cbb_base s')"
    "unbounded al s \<Longrightarrow> d \<le> length (cbb_chain s) \<Longrightarrow> \<not> cbb_error (cbb_base s) \<Longrightarrow>
       flushed (drop d (cbb_chain s)) (contents s) = Some m \<Longrightarrow> length m + length hdr + ll < size_mod \<Longrightarrow> ok"
  using assms unfolding opens_def by blast+

definition child_prefix :: "nat \<Rightarrow> bool \<Rightarrow> nat \<Rightarrow> byte list option" where
  "child_prefix ll asn1 n = len_prefix \<lparr>ch_offset = 0, pending_len_len = ll, pending_is_asn1 = asn1\<rparr> n"

lemma child_prefix_any:
  "len_prefix \<lparr>ch_offset = off, pending_len_len = ll, pending_is_asn1 = asn1\<rparr> n = child_prefix ll asn1 n"
  by (simp add: child_prefix_def len_prefix_def)

lemma child_prefix_asn1: "child_prefix 1 True n = (if n \<le> 0xfffffffe then Some (der_len n) else None)"
  by (simp add: child_prefix_def len_prefix_def)

lemma child_prefix_plain: "child_prefix ll False n = (if n < 256 ^ ll then Some (be_bytes ll n) else None)"
  by (simp add: child_prefix_def len_prefix_def)

lemma flushed_single:
  "child_prefix ll asn1 (length bs) = Some p \<Longrightarrow>
   flushed [\<lparr>ch_offset = length (m @ hdr), pending_len_len = ll, pending_is_asn1 = asn1\<rparr>] (m @ hdr @ replicate ll 0 @ bs) =
     Some (m @ hdr @ p @ bs)"
  by (simp add: child_prefix_any)

text \<open>Opening a child, writing to it, and going on with the parent, which flushes the child.\<close>

lemma child_appends:
  assumes f: "opens al d f hdr ll asn1" and b: "appends al (Suc d) body bs" and g: "appends al d g cs"
    and p: "child_prefix ll asn1 (length bs) = Some p" and ll: "asn1 \<longrightarrow> ll = 1"
  shows "appends al d (cbb_seq f (cbb_seq body g)) (hdr @ p @ bs @ cs)"
  unfolding appends_def
proof (intro allI impI)
  fix s ok s'
  assume inv: "cbb_inv s" and r: "cbb_seq f (cbb_seq body g) s = (ok, s')"
  let ?m = "flushed (drop d (cbb_chain s)) (contents s)"
  obtain ok1 s1 where 1: "f s = (ok1, s1)" by fastforce
  note F = opensD [OF f inv 1]
  obtain ok2 s2 where 2: "body s1 = (ok2, s2)" by fastforce
  note Bd = appendsD [OF b F(1) 2]
  obtain ok3 s3 where 3: "g s2 = (ok3, s3)" by fastforce
  note G = appendsD [OF g Bd(1) 3]
  have lp: "ll \<le> length p"
    using len_prefix_length(1) [of "\<lparr>ch_offset = 0, pending_len_len = ll, pending_is_asn1 = asn1\<rparr>"] p ll
    by (simp add: child_prefix_def)
  have s1: "\<exists>m. ?m = Some m \<and> Suc d \<le> length (cbb_chain s1) \<and> d \<le> length (cbb_chain s) \<and>
      contents s1 = m @ hdr @ replicate ll 0 \<and> \<not> cbb_error (cbb_base s1) \<and> drop (Suc d) (cbb_chain s1) = [] \<and>
      take d (cbb_chain s1) = take d (cbb_chain s) \<and>
      drop d (cbb_chain s1) = [\<lparr>ch_offset = length (m @ hdr), pending_len_len = ll, pending_is_asn1 = asn1\<rparr>]" if ok1
    using F(3) [OF that] by auto
  have s2: "\<exists>m. ?m = Some m \<and> d \<le> length (cbb_chain s2) \<and> d \<le> length (cbb_chain s) \<and> \<not> cbb_error (cbb_base s2) \<and>
      flushed (drop d (cbb_chain s2)) (contents s2) = Some (m @ hdr @ p @ bs) \<and>
      take d (cbb_chain s2) = take d (cbb_chain s)" if ok1 ok2
  proof -
    from s1 [OF that(1)] obtain m where m: "?m = Some m" "Suc d \<le> length (cbb_chain s1)" "d \<le> length (cbb_chain s)"
      "contents s1 = m @ hdr @ replicate ll 0" "drop (Suc d) (cbb_chain s1) = []" "take d (cbb_chain s1) = take d (cbb_chain s)"
      "drop d (cbb_chain s1) = [\<lparr>ch_offset = length (m @ hdr), pending_len_len = ll, pending_is_asn1 = asn1\<rparr>]" by blast
    have "contents s2 = m @ hdr @ replicate ll 0 @ bs" "cbb_chain s2 = cbb_chain s1" "\<not> cbb_error (cbb_base s2)"
      using Bd(3) [OF that(2)] m by auto
    then show ?thesis using m flushed_single [OF p, of m hdr] by auto
  qed
  have res: "(ok, s') = (if \<not> ok1 then (False, s1) else if \<not> ok2 then (False, s2) else (ok3, s3))"
    using r 1 2 3 by (cases ok1; cases ok2) (simp_all add: cbb_seq_def)
  have prog: "ok1 \<and> ok2 \<and> ok3" if "unbounded al s" "d \<le> length (cbb_chain s)" "\<not> cbb_error (cbb_base s)"
    "?m = Some m" "length m + length (hdr @ p @ bs @ cs) < size_mod" for m
  proof -
    have ok1 using F(5) [OF that(1-4)] that(5) lp by simp
    moreover have ok2 using s1 [OF \<open>ok1\<close>] Bd(5) that(1,4,5) unbounded_cong [OF F(2)] lp by force
    moreover have ok3 using s2 [OF \<open>ok1\<close> \<open>ok2\<close>] G(5) that(1,4,5) unbounded_cong [OF F(2)] unbounded_cong [OF Bd(2)] by force
    ultimately show ?thesis by simp
  qed
  show "cbb_inv s' \<and> can_resize (cbb_base s') = can_resize (cbb_base s) \<and>
        (ok \<longrightarrow> d \<le> length (cbb_chain s) \<and> cbb_chain s' = take d (cbb_chain s) \<and> \<not> cbb_error (cbb_base s') \<and>
           (\<exists>m. ?m = Some m \<and> contents s' = m @ hdr @ p @ bs @ cs)) \<and>
        (\<not> ok \<longrightarrow> d \<le> length (cbb_chain s) \<longrightarrow> cbb_error (cbb_base s')) \<and>
        (unbounded al s \<longrightarrow> d \<le> length (cbb_chain s) \<longrightarrow> \<not> cbb_error (cbb_base s) \<longrightarrow>
           (\<exists>m. ?m = Some m \<and> length m + length (hdr @ p @ bs @ cs) < size_mod) \<longrightarrow> ok)"
  proof (cases "ok1 \<and> ok2")
    case True
    then have eq: "ok = ok3" "s' = s3" using res by auto
    show ?thesis unfolding eq using G(1,2) F(2) Bd(2) prog s2 True G(3,4) by force
  next
    case False
    then have no: "\<not> ok" "s' = (if ok1 then s2 else s1)" using res by (auto split: if_splits)
    have "cbb_inv s' \<and> can_resize (cbb_base s') = can_resize (cbb_base s)" using no F(1,2) Bd(1,2) by simp
    moreover have "d \<le> length (cbb_chain s) \<longrightarrow> cbb_error (cbb_base s')"
      using no F(4) Bd(4) s1 False by auto
    moreover have "\<not> (unbounded al s \<and> d \<le> length (cbb_chain s) \<and> \<not> cbb_error (cbb_base s) \<and>
           (\<exists>m. ?m = Some m \<and> length m + length (hdr @ p @ bs @ cs) < size_mod))" using prog False by blast
    ultimately show ?thesis using no(1) by blast
  qed
qed

lemma add_child_opens:
  assumes al: "allocates al" and f: "appends al d f hdr" and ll: "ll < 256" "asn1 \<longrightarrow> ll = 1"
  shows "opens al d (cbb_seq f (cbb_add_child al d ll asn1)) hdr ll asn1"
  unfolding opens_def
proof (intro allI impI)
  fix s ok s'
  assume inv: "cbb_inv s" and r: "cbb_seq f (cbb_add_child al d ll asn1) s = (ok, s')"
  let ?m = "flushed (drop d (cbb_chain s)) (contents s)"
  obtain ok1 s1 where 1: "f s = (ok1, s1)" by fastforce
  note F = appendsD [OF f inv 1]
  obtain ok2 s2 where 2: "cbb_seq (cbb_buffer_add al ll) (fill_space (replicate ll 0)) s1 = (ok2, s2)" by fastforce
  have "ll < size_mod" using ll(1) by simp
  then have "length (replicate ll (0 :: byte)) < size_mod" by simp
  note W = buffer_fill_spec [OF al F(1) this, simplified, OF 2]
  show "cbb_inv s' \<and> can_resize (cbb_base s') = can_resize (cbb_base s) \<and>
        (ok \<longrightarrow> d \<le> length (cbb_chain s) \<and> \<not> cbb_error (cbb_base s') \<and>
           (\<exists>m. ?m = Some m \<and> contents s' = m @ hdr @ replicate ll 0 \<and>
              cbb_chain s' = take d (cbb_chain s) @
                [\<lparr>ch_offset = length (m @ hdr), pending_len_len = ll, pending_is_asn1 = asn1\<rparr>])) \<and>
        (\<not> ok \<longrightarrow> d \<le> length (cbb_chain s) \<longrightarrow> cbb_error (cbb_base s')) \<and>
        (unbounded al s \<longrightarrow> d \<le> length (cbb_chain s) \<longrightarrow> \<not> cbb_error (cbb_base s) \<longrightarrow>
           (\<exists>m. ?m = Some m \<and> length m + length hdr + ll < size_mod) \<longrightarrow> ok)"
  proof (cases ok1)
    case False
    then have "\<not> ok" "s' = s1" using r 1 by (simp_all add: cbb_seq_apply)
    then show ?thesis using F False by force
  next
    case True
    let ?c = "\<lparr>ch_offset = cbb_len (cbb_base s1), pending_len_len = ll, pending_is_asn1 = asn1\<rparr>"
    have lc: "cbb_len (cbb_base s1) = length (contents s1)" using F(1) by (simp add: length_contents)
    have s': "ok = ok2" "s' = (if ok2 then s2\<lparr>cbb_chain := take d (cbb_chain s1) @ [?c]\<rparr> else s2)"
      using r 1 2 True buffer_add_spec(2,4) [OF al F(1) \<open>ll < size_mod\<close>]
      by (auto simp: cbb_seq_def cbb_add_child_def fill_space_def Let_def  split: prod.splits bool.splits)
    have ch: "cbb_chain s1 = take d (cbb_chain s)" "d \<le> length (cbb_chain s)" using F(3) [OF True] by auto
    then have "chain_ok 0 (take d (cbb_chain s1) @ [?c]) (cbb_len (cbb_base s2))" if ok2
      using F(1) W(1,4) that ll lc length_contents [OF W(1)] by (simp add: chain_ok_snoc cbb_inv_def)
    then have "cbb_inv s'" using s' W(1) by (auto simp: cbb_inv_def)
    moreover have "unbounded al s \<longrightarrow> \<not> cbb_error (cbb_base s) \<longrightarrow>
        (\<exists>m. ?m = Some m \<and> length m + length hdr + ll < size_mod) \<longrightarrow> ok"
      using F(3) [OF True] W(6) unbounded_cong [OF F(2)] s'(1) by auto
    ultimately show ?thesis using F(2,3) True W(3-5) s' ch lc by auto
  qed
qed

end
