(* ===== verification/Codec.thy ===== *)
theory Codec
  imports Cbb
begin

text \<open>
  What the two halves of \<open>crypto/bytestring\<close> promise to each other. A \<open>codec\<close> is a pair of a
  \<open>CBB\<close> writer and a \<open>CBS\<close> reader of the same encoding; the laws are those of \<open>cbs_reader\<close>
  together with the two that tie the writer to the encoding and the reader back to the value.
  Everything built on such a pair (a message of several values, in an output built from
  scratch) round-trips, which is proved once here and interpreted for each pair.
\<close>

subsection \<open>Building an output from scratch\<close>

text \<open>The usual client: \<open>CBB_init\<close>, the writes, \<open>CBB_finish\<close>.\<close>

definition cbb_build :: "allocator \<Rightarrow> nat \<Rightarrow> (cbb \<Rightarrow> bool \<times> cbb) \<Rightarrow> byte list option" where
  "cbb_build al cap op =
     (case cbb_seq (\<lambda>_. CBB_init al cap) op CBB_zero of
        (False, _) \<Rightarrow> None
      | (True, s) \<Rightarrow> fst (CBB_finish al 0 True s))"

lemma CBB_init_spec:
  assumes "allocates al" and "cap < size_mod" and "CBB_init al cap = (ok, s)"
  shows "ok \<Longrightarrow> ok_state s \<and> contents s = [] \<and> cbb_chain s = [] \<and> can_resize (cbb_base s)"
    and "(\<forall>n. al n \<noteq> None) \<Longrightarrow> ok"
proof -
  show "ok \<Longrightarrow> ok_state s \<and> contents s = [] \<and> cbb_chain s = [] \<and> can_resize (cbb_base s)"
    using assms by (auto simp: CBB_init_def cbb_init_def cbb_inv_def contents_def allocates_def
        split: option.splits if_splits)
  assume "\<forall>n. al n \<noteq> None"
  then obtain b where "al cap = Some b" by blast
  then show ok using assms(3) by (simp add: CBB_init_def)
qed

lemma build_appends:
  assumes al: "allocates al" and cap: "cap < size_mod" and op: "appends al 0 op bs"
  shows "cbb_build al cap op = Some out \<Longrightarrow> out = bs"
    and "(\<forall>n. al n \<noteq> None) \<Longrightarrow> length bs < size_mod \<Longrightarrow> cbb_build al cap op = Some bs"
proof -
  obtain ok0 s0 where 0: "CBB_init al cap = (ok0, s0)" by fastforce
  obtain ok1 s1 where 1: "op s0 = (ok1, s1)" by fastforce
  obtain ok2 s2 where 2: "CBB_flush al 0 s1 = (ok2, s2)" by fastforce
  note I = CBB_init_spec [OF al cap 0]
  have b: "cbb_build al cap op = (if ok0 \<and> ok1 \<and> ok2 then Some (contents s2) else None)"
    using 0 1 2 by (cases ok0; cases ok1; cases ok2)
      (simp_all add: cbb_build_def cbb_seq_def CBB_finish_def contents_def)
  have s1: "cbb_inv s1" "ok0 \<Longrightarrow> ok1 \<Longrightarrow> contents s1 = bs \<and> cbb_chain s1 = [] \<and> \<not> cbb_error (cbb_base s1)"
      "can_resize (cbb_base s1) = can_resize (cbb_base s0)" if ok0
    using appendsD [OF op _ 1] I(1) that by auto
  have s2: "contents s2 = bs" if "ok0" "ok1" "ok2"
    using appendsD(3) [OF flush_appends [OF al] s1(1) 2] s1(2) that by simp
  show "cbb_build al cap op = Some out \<Longrightarrow> out = bs" using b s2 by (simp split: if_splits)
  assume free: "\<forall>n. al n \<noteq> None" and len: "length bs < size_mod"
  have ok0 using I(2) free by blast
  then have un: "unbounded al s0" "unbounded al s1" using free I(1) s1(3) by (auto simp: unbounded_def)
  have ok1 using appendsD(5) [OF op _ 1 un(1)] I(1) \<open>ok0\<close> len by simp
  moreover have ok2
    using appendsD(5) [OF flush_appends [OF al] s1(1) 2 un(2)] s1(2) \<open>ok0\<close> \<open>ok1\<close> len by simp
  ultimately show "cbb_build al cap op = Some bs" using b s2 \<open>ok0\<close> by simp
qed

subsection \<open>The interface\<close>

fun read_list :: "'a reader \<Rightarrow> nat \<Rightarrow> 'a list reader" where
  "read_list get 0 = rret []"
| "read_list get (Suc n) = rbind get (\<lambda>v. rbind (read_list get n) (\<lambda>vs. rret (v # vs)))"

fun write_list :: "(allocator \<Rightarrow> nat \<Rightarrow> 'a \<Rightarrow> cbb \<Rightarrow> bool \<times> cbb) \<Rightarrow> allocator \<Rightarrow> nat \<Rightarrow> 'a list \<Rightarrow> cbb \<Rightarrow> bool \<times> cbb" where
  "write_list put al d [] = CBB_flush al d"
| "write_list put al d (v # vs) = cbb_seq (put al d v) (write_list put al d vs)"

locale codec = cbs_reader get for get :: "'a reader" +
  fixes put :: "allocator \<Rightarrow> nat \<Rightarrow> 'a \<Rightarrow> cbb \<Rightarrow> bool \<times> cbb"
    and enc :: "'a \<Rightarrow> byte list"
    and encodable :: "'a \<Rightarrow> bool"
  assumes put_appends: "allocates al \<Longrightarrow> encodable v \<Longrightarrow> appends al d (put al d v) (enc v)"
    and get_enc: "encodable v \<Longrightarrow> get (enc v @ r) = (Some v, r)"
begin

lemma enc_inject: "encodable v \<Longrightarrow> encodable w \<Longrightarrow> enc v = enc w \<Longrightarrow> v = w"
  by (metis get_enc option.inject prod.inject)

lemma enc_prefix_free: "encodable v \<Longrightarrow> encodable w \<Longrightarrow> prefix (enc v) (enc w) \<Longrightarrow> v = w"
  using prefix_free [of "enc v" v "enc w" w] get_enc [of _ "[]"] enc_inject by simp

lemma write_list_appends:
  assumes "allocates al" and "list_all encodable vs"
  shows "appends al d (write_list put al d vs) (concat (map enc vs))"
  using assms(2) by (induction vs) (simp_all add: flush_appends appends_seq put_appends assms(1))

lemma read_list_enc: "list_all encodable vs \<Longrightarrow> read_list get (length vs) (concat (map enc vs) @ r) = (Some vs, r)"
  by (induction vs) (simp_all add: get_enc rbind_def)

text \<open>Whatever a client built by writing \<open>vs\<close>, reading it gives \<open>vs\<close> and stops right after it.\<close>

lemma built_reads_back:
  assumes "allocates al" and "cap < size_mod" and "list_all encodable vs"
    and "cbb_build al cap (write_list put al 0 vs) = Some out"
  shows "read_list get (length vs) (out @ r) = (Some vs, r)"
  using build_appends(1) [OF assms(1,2) write_list_appends assms(4)] assms read_list_enc by simp

lemma build_succeeds:
  assumes "allocates al" and "cap < size_mod" and "list_all encodable vs"
    and "\<forall>n. al n \<noteq> None" and "length (concat (map enc vs)) < size_mod"
  shows "cbb_build al cap (write_list put al 0 vs) = Some (concat (map enc vs))"
  using build_appends(2) [OF assms(1,2) write_list_appends] assms by simp

end

subsection \<open>Fixed-width integers\<close>

lemma be_word_be_bytes [simp]:
  "v < 256 ^ n \<Longrightarrow> n \<le> 8 \<Longrightarrow> (be_word (0 :: u64) (be_bytes n v)) = word_of_nat v"
  by (simp add: be_word_of_nat be_nat_be_bytes)

lemma cbs_get_u_enc [simp]:
  "v < 256 ^ n \<Longrightarrow> n \<le> 8 \<Longrightarrow> cbs_get_u n (be_bytes n v @ r) = (Some (word_of_nat v), r)"
  by simp

lemma unat_ucast_u64: "LENGTH('a) \<le> 64 \<Longrightarrow> unat (ucast (v :: 'a::len word) :: u64) = unat v"
proof -
  assume "LENGTH('a) \<le> 64"
  then have "(2::nat) ^ LENGTH('a) \<le> 2 ^ 64" by (intro power_increasing) simp_all
  then have "unat v < 2 ^ 64" using unsigned_less [of v] by (rule less_le_trans [rotated])
  then show ?thesis by (simp add: unat_ucast_mod)
qed

lemma add_u_ucast:
  fixes v :: "'a::len word"
  assumes "allocates al" and "n < 256" and "unat v < 256 ^ n" and "LENGTH('a) \<le> 64"
  shows "appends al d (cbb_add_u al d (ucast v) n) (be_bytes n (unat v))"
  using add_u_appends [of al n "ucast v" d] assms by (simp add: unat_ucast_u64)

lemma get_u_ucast:
  fixes v :: "'a::len word"
  assumes "n \<le> 8" and "unat v < 256 ^ n" and "LENGTH('a) \<le> 64"
  shows "rbind (cbs_get_u n) (\<lambda>x. rret (ucast x)) (be_bytes n (unat v) @ r) = (Some v, r)"
proof -
  have "ucast (word_of_nat (unat v) :: u64) = v"
    unfolding word_unat_eq_iff using assms(3) unsigned_less [of v] unat_ucast_u64 [of v]
    by (simp add: unat_ucast_mod unat_of_nat)
  then show ?thesis using assms by (simp add: rbind_def)
qed

lemma unat_u16_less: "unat (v :: u16) < 256 ^ 2"
  using unsigned_less [of v] by simp

lemmas unat_width = unat_byte_less unat_u16_less unat_u32_less unat_u64_less

interpretation u8_codec: codec CBS_get_u8 CBB_add_u8 "\<lambda>v. be_bytes 1 (unat v)" "\<lambda>_. True"
proof unfold_locales
  fix al d v assume "allocates al"
  then show "appends al d (CBB_add_u8 al d v) (be_bytes 1 (unat v))"
    unfolding CBB_add_u8_def by (rule add_u_ucast) (simp_all add: unat_byte_less)
qed simp

interpretation u16_codec: codec CBS_get_u16 CBB_add_u16 "\<lambda>v. be_bytes 2 (unat v)" "\<lambda>_. True"
proof unfold_locales
  fix al d v assume "allocates al"
  then show "appends al d (CBB_add_u16 al d v) (be_bytes 2 (unat v))"
    unfolding CBB_add_u16_def by (rule add_u_ucast) (simp_all add: unat_u16_less [simplified])
next
  fix v r show "CBS_get_u16 (be_bytes 2 (unat v) @ r) = (Some v, r)"
    unfolding CBS_get_u16_def by (rule get_u_ucast) (simp_all add: unat_u16_less [simplified])
qed

interpretation u24_codec: codec CBS_get_u24 CBB_add_u24 "\<lambda>v. be_bytes 3 (unat v)" "\<lambda>v. unat v < 0x1000000"
proof unfold_locales
  fix al d v assume "allocates al" "unat (v :: u32) < 0x1000000"
  then show "appends al d (CBB_add_u24 al d v) (be_bytes 3 (unat v))"
    unfolding CBB_add_u24_def by (intro add_u_ucast) simp_all
next
  fix v r assume "unat (v :: u32) < 0x1000000"
  then show "CBS_get_u24 (be_bytes 3 (unat v) @ r) = (Some v, r)"
    unfolding CBS_get_u24_def by (intro get_u_ucast) simp_all
qed (rule exact_simple)

interpretation u32_codec: codec CBS_get_u32 CBB_add_u32 "\<lambda>v. be_bytes 4 (unat v)" "\<lambda>_. True"
proof unfold_locales
  fix al d v assume "allocates al"
  then show "appends al d (CBB_add_u32 al d v) (be_bytes 4 (unat v))"
    unfolding CBB_add_u32_def by (rule add_u_ucast) (simp_all add: unat_u32_less [simplified])
next
  fix v r show "CBS_get_u32 (be_bytes 4 (unat v) @ r) = (Some v, r)"
    unfolding CBS_get_u32_def by (rule get_u_ucast) (simp_all add: unat_u32_less [simplified])
qed (rule exact_simple)

interpretation u64_codec: codec CBS_get_u64 CBB_add_u64 "\<lambda>v. be_bytes 8 (unat v)" "\<lambda>_. True"
proof unfold_locales
  fix al d v assume "allocates al"
  then show "appends al d (CBB_add_u64 al d v) (be_bytes 8 (unat v))"
    unfolding CBB_add_u64_def by (intro add_u_appends) (simp_all add: unat_u64_less [simplified])
next
  fix v r show "CBS_get_u64 (be_bytes 8 (unat v) @ r) = (Some v, r)"
    unfolding CBS_get_u64_def using unat_u64_less [of v] by simp
qed (rule exact_simple)

subsection \<open>Little-endian integers\<close>

lemma bswap_be_bytes: "be_bytes n (bswap n v) = rev (be_bytes n v)"
  using be_bytes_be_nat [of "rev (be_bytes n v)"] by (simp add: bswap_def)

lemma unat_bswap:
  "256 ^ n = (2::nat) ^ LENGTH('a) \<Longrightarrow> unat (word_of_nat (bswap n v) :: 'a::len word) = bswap n v"
  using bswap_less [of n v] by (simp add: unat_of_nat)

lemma be_bytes_unat_bswap:
  "256 ^ n = (2::nat) ^ LENGTH('a) \<Longrightarrow> be_bytes n (unat (word_of_nat (bswap n v) :: 'a::len word)) = rev (be_bytes n v)"
  by (simp add: unat_bswap bswap_be_bytes)

lemma word_bswap_bswap:
  "256 ^ n = (2::nat) ^ LENGTH('a) \<Longrightarrow>
   (word_of_nat (bswap n (unat (word_of_nat (bswap n (unat v)) :: 'a word))) :: 'a::len word) = v"
  using unsigned_less [of v] by (simp add: unat_bswap bswap_bswap)

interpretation u16le_codec: codec CBS_get_u16le CBB_add_u16le "\<lambda>v. rev (be_bytes 2 (unat v))" "\<lambda>_. True"
proof unfold_locales
  fix al d and v :: u16
  have e: "be_bytes 2 (unat (word_of_nat (bswap 2 (unat v)) :: u16)) = rev (be_bytes 2 (unat v))"
    by (rule be_bytes_unat_bswap) simp
  show "appends al d (CBB_add_u16le al d v) (rev (be_bytes 2 (unat v)))" if "allocates al"
    using u16_codec.put_appends [of al d "word_of_nat (bswap 2 (unat v))"] that unfolding CBB_add_u16le_def e by simp
  have "word_of_nat (bswap 2 (unat (word_of_nat (bswap 2 (unat v)) :: u16))) = v" by (rule word_bswap_bswap) simp
  then show "CBS_get_u16le (rev (be_bytes 2 (unat v)) @ r) = (Some v, r)" for r
    using u16_codec.get_enc [of "word_of_nat (bswap 2 (unat v))" r] unfolding CBS_get_u16le_def e by simp
qed (simp add: CBS_get_u16le_def reader_intros)

interpretation u32le_codec: codec CBS_get_u32le CBB_add_u32le "\<lambda>v. rev (be_bytes 4 (unat v))" "\<lambda>_. True"
proof unfold_locales
  fix al d and v :: u32
  have e: "be_bytes 4 (unat (word_of_nat (bswap 4 (unat v)) :: u32)) = rev (be_bytes 4 (unat v))"
    by (rule be_bytes_unat_bswap) simp
  show "appends al d (CBB_add_u32le al d v) (rev (be_bytes 4 (unat v)))" if "allocates al"
    using u32_codec.put_appends [of al d "word_of_nat (bswap 4 (unat v))"] that unfolding CBB_add_u32le_def e by simp
  have "word_of_nat (bswap 4 (unat (word_of_nat (bswap 4 (unat v)) :: u32))) = v" by (rule word_bswap_bswap) simp
  then show "CBS_get_u32le (rev (be_bytes 4 (unat v)) @ r) = (Some v, r)" for r
    using u32_codec.get_enc [of "word_of_nat (bswap 4 (unat v))" r] unfolding CBS_get_u32le_def e by simp
qed (simp add: CBS_get_u32le_def reader_intros)

interpretation u64le_codec: codec CBS_get_u64le CBB_add_u64le "\<lambda>v. rev (be_bytes 8 (unat v))" "\<lambda>_. True"
proof unfold_locales
  fix al d and v :: u64
  have e: "be_bytes 8 (unat (word_of_nat (bswap 8 (unat v)) :: u64)) = rev (be_bytes 8 (unat v))"
    by (rule be_bytes_unat_bswap) simp
  show "appends al d (CBB_add_u64le al d v) (rev (be_bytes 8 (unat v)))" if "allocates al"
    using u64_codec.put_appends [of al d "word_of_nat (bswap 8 (unat v))"] that unfolding CBB_add_u64le_def e by simp
  have "word_of_nat (bswap 8 (unat (word_of_nat (bswap 8 (unat v)) :: u64))) = v" by (rule word_bswap_bswap) simp
  then show "CBS_get_u64le (rev (be_bytes 8 (unat v)) @ r) = (Some v, r)" for r
    using u64_codec.get_enc [of "word_of_nat (bswap 8 (unat v))" r] unfolding CBS_get_u64le_def CBS_get_u64_def [symmetric] e by simp
qed (simp add: CBS_get_u64le_def CBS_get_u64_def [symmetric] reader_intros)

subsection \<open>Length-prefixed byte strings\<close>

text \<open>The client's use of a length-prefixed child: open it, write its contents, flush it.\<close>

definition add_prefixed :: "nat \<Rightarrow> allocator \<Rightarrow> nat \<Rightarrow> byte list \<Rightarrow> cbb \<Rightarrow> bool \<times> cbb" where
  "add_prefixed n al d bs =
     cbb_seq (cbb_add_length_prefixed al d n) (cbb_seq (CBB_add_bytes al (Suc d) bs) (CBB_flush al d))"

lemma length_prefixed_opens:
  assumes "allocates al" and "n < 256"
  shows "opens al d (cbb_add_length_prefixed al d n) [] n False"
proof -
  have "cbb_add_length_prefixed al d n = cbb_seq (CBB_flush al d) (cbb_add_child al d n False)"
    by (simp add: fun_eq_iff cbb_add_length_prefixed_def cbb_seq_def)
  then show ?thesis using add_child_opens [OF assms(1) flush_appends [OF assms(1)]] assms(2) by simp
qed

interpretation prefixed_codec: codec "cbs_get_length_prefixed n" "add_prefixed n"
    "\<lambda>bs. be_bytes n (length bs) @ bs" "\<lambda>bs. length bs < 256 ^ n \<and> n \<in> {1, 2, 3}" for n
proof unfold_locales
  fix al d and bs :: "byte list"
  assume al: "allocates al" and n: "length bs < 256 ^ n \<and> n \<in> {1, 2, 3}"
  have "(256::nat) ^ n \<le> 256 ^ 8" using n by (intro power_increasing) auto
  then have "length bs < size_mod" using n by simp
  then show "appends al d (add_prefixed n al d bs) (be_bytes n (length bs) @ bs)"
    unfolding add_prefixed_def
    using child_appends [OF length_prefixed_opens [OF al] add_bytes_appends [OF al] flush_appends [OF al], of n bs "be_bytes n (length bs)" d] n
    by (auto simp: child_prefix_plain)
next
  fix r and bs :: "byte list"
  assume n: "length bs < 256 ^ n \<and> n \<in> {1, 2, 3}"
  have "(256::nat) ^ n \<le> 256 ^ 8" using n by (intro power_increasing) auto
  then have "length bs < size_mod" using n by simp
  moreover have "n \<le> 8" using n by auto
  ultimately show "cbs_get_length_prefixed n ((be_bytes n (length bs) @ bs) @ r) = (Some bs, r)"
    using conjunct1 [OF n] by (simp add: cbs_get_length_prefixed_def rbind_def unat_of_nat)
qed

end
