(* ===== verification/Cbb_Asn1.thy ===== *)
theory Cbb_Asn1
  imports Codec
begin

text \<open>
  The ASN.1 half of \<open>crypto/bytestring/cbb.c\<close>: tags, integers, booleans, octet strings, object
  identifiers from text, and the sorting of a SET OF. The facts say which DER bytes each
  operation writes, and interpret the codec contract of \<open>Codec\<close> with the readers of
  \<open>cbs.c\<close>. An object passed to these operations is open (\<open>d \<le> length chain\<close>).
\<close>

subsection \<open>Tags\<close>

text \<open>The first loop of \<open>add_base128_integer\<close> counts the seven-bit groups.\<close>

function base128_groups :: "u64 \<Rightarrow> nat" where
  "base128_groups copy = (if copy > 0 then Suc (base128_groups (drop_bit 7 copy)) else 0)"
  by pat_completeness auto
termination
proof (relation "measure unat")
  fix copy :: u64
  assume "copy > 0"
  then have "unat copy > 0" by (simp add: word_less_nat_alt)
  then show "(drop_bit 7 copy, copy) \<in> measure unat" by (simp add: unat_drop_bit)
qed simp

declare base128_groups.simps [simp del]

definition cbb_nop :: "cbb \<Rightarrow> bool \<times> cbb" where
  "cbb_nop s = (True, s)"

definition base128_byte :: "u64 \<Rightarrow> nat \<Rightarrow> byte" where
  "base128_byte v i =
     (let byte = ucast (drop_bit (7 * i) v) AND 0x7f in if i \<noteq> 0 then byte OR 0x80 else byte)"

text \<open>The second loop; the argument is one more than the index \<open>i\<close> of the source.\<close>

fun add_base128_loop :: "allocator \<Rightarrow> nat \<Rightarrow> u64 \<Rightarrow> nat \<Rightarrow> cbb \<Rightarrow> bool \<times> cbb" where
  "add_base128_loop al d v 0 = cbb_nop"
| "add_base128_loop al d v (Suc i) =
     cbb_seq (CBB_add_u8 al d (base128_byte v i)) (add_base128_loop al d v i)"

definition add_base128_integer :: "allocator \<Rightarrow> nat \<Rightarrow> u64 \<Rightarrow> cbb \<Rightarrow> bool \<times> cbb" where
  "add_base128_integer al d v =
     (let len_len = base128_groups v
      in add_base128_loop al d v (if len_len = 0 then 1 else len_len))"

definition CBB_add_asn1 :: "allocator \<Rightarrow> nat \<Rightarrow> u32 \<Rightarrow> cbb \<Rightarrow> bool \<times> cbb" where
  "CBB_add_asn1 al d tag =
     (let tag_bits = ucast (drop_bit 24 tag) AND (0xe0 :: byte);
          tag_number = tag AND CBS_ASN1_TAG_NUMBER_MASK
      in cbb_seq (CBB_flush al d)
        (cbb_seq
           (if tag_number \<ge> 0x1f
            then cbb_seq (CBB_add_u8 al d (tag_bits OR 0x1f)) (add_base128_integer al d (ucast tag_number))
            else CBB_add_u8 al d (tag_bits OR ucast tag_number))
           (cbb_add_child al d 1 True)))"

subsection \<open>Integers, strings and booleans\<close>

text \<open>
  The \<open>goto err\<close> of these functions: a failure locks the builder. \<open>cbb_on_error\<close> writes through
  \<open>base\<close>, so the object at depth \<open>d\<close> must be open, \<open>d \<le> length (cbb_chain s)\<close>; for a flushed child,
  where C follows a NULL pointer, \<open>cbb_exec\<close> of \<open>Cbb_Machine\<close> makes the call \<open>Undef\<close>.
\<close>

definition or_error :: "nat \<Rightarrow> (cbb \<Rightarrow> bool \<times> cbb) \<Rightarrow> cbb \<Rightarrow> bool \<times> cbb" where
  "or_error d op s = (case op s of (False, s') \<Rightarrow> (False, cbb_on_error d s') | (True, s') \<Rightarrow> (True, s'))"

text \<open>The loop over the bytes of the value, most significant first, and the test after it.\<close>

fun add_uint64_loop :: "allocator \<Rightarrow> nat \<Rightarrow> u64 \<Rightarrow> bool \<Rightarrow> nat \<Rightarrow> cbb \<Rightarrow> bool \<times> cbb" where
  "add_uint64_loop al d v started 0 = (if \<not> started then CBB_add_u8 al d 0 else cbb_nop)"
| "add_uint64_loop al d v started (Suc n) =
     (let byte = ucast (drop_bit (8 * n) v) AND (0xff :: byte)
      in if \<not> started
         then (if byte = 0 then add_uint64_loop al d v False n
               else cbb_seq (if byte AND 0x80 \<noteq> 0 then CBB_add_u8 al d 0 else cbb_nop)
                      (cbb_seq (CBB_add_u8 al d byte) (add_uint64_loop al d v True n)))
         else cbb_seq (CBB_add_u8 al d byte) (add_uint64_loop al d v True n))"

definition CBB_add_asn1_uint64_with_tag :: "u32 \<Rightarrow> allocator \<Rightarrow> nat \<Rightarrow> u64 \<Rightarrow> cbb \<Rightarrow> bool \<times> cbb" where
  "CBB_add_asn1_uint64_with_tag tag al d v =
     cbb_seq (or_error d (cbb_seq (CBB_add_asn1 al d tag) (add_uint64_loop al (Suc d) v False 8)))
       (CBB_flush al d)"

definition CBB_add_asn1_uint64 :: "allocator \<Rightarrow> nat \<Rightarrow> u64 \<Rightarrow> cbb \<Rightarrow> bool \<times> cbb" where
  "CBB_add_asn1_uint64 = CBB_add_asn1_uint64_with_tag CBS_ASN1_INTEGER"

text \<open>
  An \<open>int64_t\<close> is its two's complement word; \<open>bytes[i]\<close> is byte \<open>i\<close> of its little-endian
  representation in memory.
\<close>

definition le_byte :: "u64 \<Rightarrow> nat \<Rightarrow> byte" where
  "le_byte v i = ucast (drop_bit (8 * i) v)"

fun int64_start :: "u64 \<Rightarrow> nat \<Rightarrow> nat" where
  "int64_start v 0 = 0"
| "int64_start v (Suc n) =
     (if le_byte v (Suc n) = 0xff \<and> le_byte v n AND 0x80 \<noteq> 0 then int64_start v n else Suc n)"

fun add_le_bytes :: "allocator \<Rightarrow> nat \<Rightarrow> u64 \<Rightarrow> nat \<Rightarrow> cbb \<Rightarrow> bool \<times> cbb" where
  "add_le_bytes al d v 0 = cbb_nop"
| "add_le_bytes al d v (Suc i) = cbb_seq (CBB_add_u8 al d (le_byte v i)) (add_le_bytes al d v i)"

definition CBB_add_asn1_int64_with_tag :: "u32 \<Rightarrow> allocator \<Rightarrow> nat \<Rightarrow> u64 \<Rightarrow> cbb \<Rightarrow> bool \<times> cbb" where
  "CBB_add_asn1_int64_with_tag tag al d v =
     (if sint v \<ge> 0 then CBB_add_asn1_uint64_with_tag tag al d v
      else cbb_seq (or_error d (cbb_seq (CBB_add_asn1 al d tag) (add_le_bytes al (Suc d) v (Suc (int64_start v 7)))))
             (CBB_flush al d))"

definition CBB_add_asn1_int64 :: "allocator \<Rightarrow> nat \<Rightarrow> u64 \<Rightarrow> cbb \<Rightarrow> bool \<times> cbb" where
  "CBB_add_asn1_int64 = CBB_add_asn1_int64_with_tag CBS_ASN1_INTEGER"

definition CBB_add_asn1_octet_string :: "allocator \<Rightarrow> nat \<Rightarrow> byte list \<Rightarrow> cbb \<Rightarrow> bool \<times> cbb" where
  "CBB_add_asn1_octet_string al d data =
     or_error d (cbb_seq (CBB_add_asn1 al d CBS_ASN1_OCTETSTRING)
       (cbb_seq (CBB_add_bytes al (Suc d) data) (CBB_flush al d)))"

definition CBB_add_asn1_bool :: "allocator \<Rightarrow> nat \<Rightarrow> bool \<Rightarrow> cbb \<Rightarrow> bool \<times> cbb" where
  "CBB_add_asn1_bool al d v =
     or_error d (cbb_seq (CBB_add_asn1 al d CBS_ASN1_BOOLEAN)
       (cbb_seq (CBB_add_u8 al (Suc d) (if v then 0xff else 0)) (CBB_flush al d)))"

subsection \<open>Object identifiers\<close>

definition parse_dotted_decimal :: "u64 reader" where
  "parse_dotted_decimal =
     rbind CBS_get_u64_decimal (\<lambda>v cbs.
       case CBS_get_u8 cbs of
         (None, cbs) \<Rightarrow> (Some v, cbs)
       | (Some dot, cbs) \<Rightarrow> if dot = 46 \<and> length cbs > 0 then (Some v, cbs) else (None, cbs))"

subsection \<open>What the operations write\<close>

lemma cbb_nop_right [simp]: "cbb_seq f cbb_nop = f"
  by (auto simp: fun_eq_iff cbb_seq_def cbb_nop_def split: prod.splits bool.splits)

lemma cbb_nop_left [simp]: "cbb_seq cbb_nop f = f"
  by (simp add: fun_eq_iff cbb_seq_def cbb_nop_def)

lemma cbb_seq_assoc: "cbb_seq (cbb_seq f g) h = cbb_seq f (cbb_seq g h)"
  by (auto simp: fun_eq_iff cbb_seq_def split: prod.splits bool.splits)

text \<open>Writing one byte after another, after a first operation.\<close>

fun add_each :: "allocator \<Rightarrow> nat \<Rightarrow> byte list \<Rightarrow> cbb \<Rightarrow> bool \<times> cbb" where
  "add_each al d [] = cbb_nop"
| "add_each al d (b # bs) = cbb_seq (CBB_add_u8 al d b) (add_each al d bs)"

lemma u8_appends: "allocates al \<Longrightarrow> appends al d (CBB_add_u8 al d b) [b]"
  using u8_codec.put_appends [of al d b] by simp

lemma add_each_after:
  assumes "allocates al" and "appends al d f as"
  shows "appends al d (cbb_seq f (add_each al d bs)) (as @ bs)"
  using assms(2)
proof (induction bs arbitrary: f as)
  case (Cons b bs)
  from Cons.IH [OF appends_seq [OF Cons.prems u8_appends [OF assms(1)]]]
  show ?case by (simp add: cbb_seq_assoc)
qed simp

lemma add_each_appends: "allocates al \<Longrightarrow> bs \<noteq> [] \<Longrightarrow> appends al d (add_each al d bs) bs"
  by (cases bs) (simp_all add: add_each_after [OF _ u8_appends, simplified])

lemma or_error_seq_appends:
  assumes "appends al d (cbb_seq f g) bs"
  shows "appends al d (cbb_seq (or_error d f) g) bs"
  unfolding appends_def
proof (intro allI impI)
  fix s ok s'
  assume inv: "cbb_inv s" and r: "cbb_seq (or_error d f) g s = (ok, s')"
  obtain ok1 s1 where 1: "f s = (ok1, s1)" by fastforce
  obtain ok2 s2 where 2: "cbb_seq f g s = (ok2, s2)" by fastforce
  have "ok = ok2" "s' = (if ok1 then s2 else cbb_on_error d s2)" "ok2 \<longrightarrow> ok1"
    using r 1 2 by (auto simp: or_error_def cbb_seq_def split: bool.splits prod.splits)
  then show "cbb_inv s' \<and> can_resize (cbb_base s') = can_resize (cbb_base s) \<and>
        (ok \<longrightarrow> d \<le> length (cbb_chain s) \<and> cbb_chain s' = take d (cbb_chain s) \<and> \<not> cbb_error (cbb_base s') \<and>
           (\<exists>m. flushed (drop d (cbb_chain s)) (contents s) = Some m \<and> contents s' = m @ bs)) \<and>
        (\<not> ok \<longrightarrow> d \<le> length (cbb_chain s) \<longrightarrow> cbb_error (cbb_base s')) \<and>
        (unbounded al s \<longrightarrow> d \<le> length (cbb_chain s) \<longrightarrow> \<not> cbb_error (cbb_base s) \<longrightarrow>
           (\<exists>m. flushed (drop d (cbb_chain s)) (contents s) = Some m \<and> length m + length bs < size_mod) \<longrightarrow> ok)"
    using appendsD [OF assms inv 2] by auto
qed

lemma or_error_appends: "appends al d op bs \<Longrightarrow> appends al d (or_error d op) bs"
  using or_error_seq_appends [of al d op cbb_nop bs] by simp

lemma rev_upt_Suc: "rev [0..<Suc k] = map Suc (rev [0..<k]) @ [0]"
  by (metis map_Suc_upt rev.simps(2) rev_map upt_conv_Cons zero_less_Suc)

lemma b128_high_groups:
  "b128_high (unat w) = map (\<lambda>i. word_of_nat (unat w div 128 ^ i mod 128 + 128)) (rev [0..<base128_groups w])"
proof (induction w rule: base128_groups.induct)
  case (1 w)
  show ?case
  proof (cases "w = 0")
    case True
    then show ?thesis by (simp add: base128_groups.simps)
  next
    case False
    then have pos: "w > 0" "unat w \<noteq> 0" by (simp_all add: word_neq_0_conv unat_eq_0)
    let ?k = "base128_groups (drop_bit 7 w)"
    have "b128_high (unat w div 128) =
        map (\<lambda>i. word_of_nat (unat w div 128 div 128 ^ i mod 128 + 128)) (rev [0..<?k])"
      using 1 [OF pos(1)] by (simp add: unat_drop_bit)
    then have "b128_high (unat w) = map (\<lambda>i. word_of_nat (unat w div 128 ^ Suc i mod 128 + 128)) (rev [0..<?k])
        @ [word_of_nat (unat w mod 128 + 128)]"
      using pos by (simp add: b128_high_step div_mult2_eq del: of_nat_add)
    moreover have "base128_groups w = Suc ?k" using pos by (simp add: base128_groups.simps [of w])
    ultimately show ?thesis by (simp only: rev_upt_Suc) (simp add: comp_def del: of_nat_add)
  qed
qed

lemma low7_of_nat: "(ucast (w :: u64) AND 0x7f :: byte) = word_of_nat (unat w mod 128)"
proof -
  have "unat w mod 256 mod 128 = unat w mod 128" by (rule mod_mod_cancel) simp
  then show ?thesis unfolding word_unat_eq_iff by (simp add: low7 unat_byte_of_nat unat_ucast_mod)
qed

lemma base128_byte_0: "base128_byte v 0 = word_of_nat (unat v mod 128)"
  by (simp add: base128_byte_def low7_of_nat)

lemma base128_byte_Suc: "base128_byte v (Suc i) = word_of_nat (unat v div 128 ^ Suc i mod 128 + 128)"
proof -
  have p: "(2::nat) ^ (7 + 7 * i) = 128 * 128 ^ i" by (simp add: power_add power_mult)
  have "unat v div 128 ^ Suc i mod 128 < 2 ^ 7" by simp
  from word_or_arith [OF this, of 1, where 'a = 8]
  have "(word_of_nat (unat v div 128 ^ Suc i mod 128) :: byte) OR 0x80 = word_of_nat (unat v div 128 ^ Suc i mod 128 + 128)"
    by (simp add: or.commute add.commute)
  then show ?thesis by (simp add: base128_byte_def low7_of_nat unat_drop_bit p)
qed

lemma add_base128_loop_each:
  "add_base128_loop al d v n = add_each al d (map (base128_byte v) (rev [0..<n]))"
  by (induction n) simp_all

lemma base128_bytes: "map (base128_byte v) (rev [0..<if base128_groups v = 0 then 1 else base128_groups v]) = b128 (unat v)"
proof (cases "v = 0")
  case True
  then show ?thesis by (simp add: base128_groups.simps base128_byte_0 b128_def)
next
  case False
  then have g: "base128_groups v = Suc (base128_groups (drop_bit 7 v))"
    by (subst base128_groups.simps) (simp add: word_neq_0_conv)
  have "map (base128_byte v \<circ> Suc) (rev [0..<base128_groups (drop_bit 7 v)]) = b128_high (unat v div 128)"
    using b128_high_groups [of "drop_bit 7 v"] by (simp add: comp_def base128_byte_Suc unat_drop_bit div_mult2_eq del: of_nat_add)
  moreover have "(if base128_groups v = 0 then 1 else base128_groups v) = Suc (base128_groups (drop_bit 7 v))"
    using g by simp
  ultimately show ?thesis by (simp only: rev_upt_Suc) (simp add: base128_byte_0 b128_def)
qed

lemma add_base128_appends: "allocates al \<Longrightarrow> appends al d (add_base128_integer al d v) (b128 (unat v))"
  by (simp add: add_base128_integer_def Let_def add_base128_loop_each base128_bytes add_each_appends del: upt_Suc)

lemma tag_bits_of_nat: "(ucast (drop_bit 24 (tag :: u32)) AND 0xe0 :: byte) = word_of_nat (unat tag div 536870912 * 32)"
proof -
  have m: "(0xe0 :: byte) = push_bit 5 (mask 3)" by (simp add: mask_eq_exp_minus_1)
  have t: "unat tag div 16777216 < 256" using unat_u32_less [of tag] by (simp add: less_mult_imp_div_less)
  have "unat tag div 16777216 div 32 = unat tag div 536870912" by (simp add: div_mult2_eq [symmetric])
  moreover have "unat tag div 536870912 < 8" using unat_u32_less [of tag] by (simp add: less_mult_imp_div_less)
  ultimately show ?thesis
    unfolding m and_push_mask word_unat_eq_iff unat_of_nat using t by (simp add: unat_bits)
qed

lemma tag_number_of_nat: "unat ((tag :: u32) AND CBS_ASN1_TAG_NUMBER_MASK) = unat tag mod 536870912"
  using unat_and_mask [of CBS_ASN1_TAG_NUMBER_MASK 29 tag] by (simp add: mask_eq_exp_minus_1)

lemma add_asn1_opens:
  assumes al: "allocates al"
  shows "opens al d (CBB_add_asn1 al d tag) (der_tag tag) 1 True"
proof -
  let ?c = "unat tag div 536870912" and ?n = "unat tag mod 536870912"
  let ?bits = "ucast (drop_bit 24 tag) AND (0xe0 :: byte)" and ?num = "tag AND CBS_ASN1_TAG_NUMBER_MASK"
  let ?w = "if ?num \<ge> 0x1f then cbb_seq (CBB_add_u8 al d (?bits OR 0x1f)) (add_base128_integer al d (ucast ?num))
            else CBB_add_u8 al d (?bits OR ucast ?num)"
  have num: "?num \<ge> 0x1f \<longleftrightarrow> ?n \<ge> 31" by (simp add: word_le_nat_alt tag_number_of_nat)
  have or: "n < 32 \<Longrightarrow> (?bits OR word_of_nat n) = word_of_nat (?c * 32 + n)" for n
    using word_or_arith [of n 5 ?c, where 'a = 8] by (simp add: tag_bits_of_nat del: of_nat_add of_nat_mult)
  have "appends al d ?w (der_tag tag)"
  proof (cases "?n \<ge> 31")
    case True
    have "unat (ucast ?num :: u64) = ?n" by (simp add: unat_ucast_u64 tag_number_of_nat)
    then show ?thesis
      using appends_seq [OF u8_appends [OF al] add_base128_appends [OF al], of d "?bits OR 0x1f" "ucast ?num"]
        True num or [of 31] by (simp add: der_tag_def Let_def)
  next
    case False
    have "ucast ?num = (word_of_nat ?n :: byte)"
      by (metis tag_number_of_nat of_nat_unat)
    then show ?thesis
      using u8_appends [OF al, of d "?bits OR ucast ?num"] False num or [of ?n] by (simp add: der_tag_def Let_def)
  qed
  from appends_seq [OF flush_appends [OF al] this]
  have "appends al d (cbb_seq (CBB_flush al d) ?w) (der_tag tag)" by (simp only: append_Nil)
  then have "opens al d (cbb_seq (cbb_seq (CBB_flush al d) ?w) (cbb_add_child al d 1 True)) (der_tag tag) 1 True"
    by (rule add_child_opens [OF al]) simp_all
  then show ?thesis unfolding CBB_add_asn1_def Let_def cbb_seq_assoc [of "CBB_flush al d"] .
qed

text \<open>The common shape of the typed operations.\<close>

lemma add_element_appends:
  assumes al: "allocates al" and body: "appends al (Suc d) body c" and len: "length c \<le> 0xfffffffe"
  shows "appends al d (cbb_seq (CBB_add_asn1 al d tag) (cbb_seq body (CBB_flush al d))) (der_element tag c)"
  using child_appends [OF add_asn1_opens [OF al] body flush_appends [OF al], of "der_len (length c)" tag] len
  by (simp add: child_prefix_asn1 [simplified] der_element_def der_header_def)

lemma add_element_appends_err:
  assumes al: "allocates al" and body: "appends al (Suc d) body c" and len: "length c \<le> 0xfffffffe"
  shows "appends al d (cbb_seq (or_error d (cbb_seq (CBB_add_asn1 al d tag) body)) (CBB_flush al d)) (der_element tag c)"
  using or_error_seq_appends [of al d "cbb_seq (CBB_add_asn1 al d tag) body" "CBB_flush al d"] add_element_appends [OF assms]
  by (simp add: cbb_seq_assoc)

lemma valid_universal: "valid_tag CBS_ASN1_INTEGER" "valid_tag CBS_ASN1_BOOLEAN" "valid_tag CBS_ASN1_OCTETSTRING"
  by (simp_all add: valid_tag_def)

lemma exact_get_asn1 [reader_intros]: "exact_reader (CBS_get_asn1 tag)"
  unfolding CBS_get_asn1_def cbs_get_asn1_def CBS_get_any_asn1_element_def by (intro reader_intros)

subsection \<open>Octet strings and booleans\<close>

interpretation octet_string_codec: codec "CBS_get_asn1 CBS_ASN1_OCTETSTRING" CBB_add_asn1_octet_string
  "der_element CBS_ASN1_OCTETSTRING" "\<lambda>c. length c \<le> 0xfffffffe"
proof unfold_locales
  fix al d and c :: "byte list"
  assume "allocates al" "length c \<le> 0xfffffffe"
  then show "appends al d (CBB_add_asn1_octet_string al d c) (der_element CBS_ASN1_OCTETSTRING c)"
    unfolding CBB_add_asn1_octet_string_def
    by (intro or_error_appends add_element_appends add_bytes_appends) simp_all
qed (simp_all add: reader_intros CBS_get_asn1_Some valid_universal)

lemma CBS_get_asn1_bool_Some:
  "CBS_get_asn1_bool s = (Some v, r) \<longleftrightarrow> s = der_element CBS_ASN1_BOOLEAN [if v then 0xff else 0] @ r"
proof
  assume "CBS_get_asn1_bool s = (Some v, r)"
  then obtain c s' where c: "CBS_get_asn1 CBS_ASN1_BOOLEAN s = (Some c, s')"
    and *: "(if length c \<noteq> 1 then (None, s') else if hd c \<noteq> 0 \<and> hd c \<noteq> 0xff then (None, s') else (Some (hd c \<noteq> 0), s')) = (Some v, r)"
    unfolding CBS_get_asn1_bool_def Let_def by (elim rbind_SomeE)
  from * have "r = s'" "length c = 1" "v = (hd c \<noteq> 0)" "hd c = 0 \<or> hd c = 0xff"
    by (auto split: if_splits)
  then have "r = s'" "c = [if v then 0xff else 0]" by (auto simp: length_Suc_conv)
  then show "s = der_element CBS_ASN1_BOOLEAN [if v then 0xff else 0] @ r" using c by (simp add: CBS_get_asn1_Some)
next
  assume "s = der_element CBS_ASN1_BOOLEAN [if v then 0xff else 0] @ r"
  then have "CBS_get_asn1 CBS_ASN1_BOOLEAN s = (Some [if v then 0xff else 0], r)"
    by (simp add: CBS_get_asn1_Some valid_universal)
  then show "CBS_get_asn1_bool s = (Some v, r)" by (simp add: CBS_get_asn1_bool_def)
qed

interpretation bool_codec: codec CBS_get_asn1_bool CBB_add_asn1_bool
  "\<lambda>v. der_element CBS_ASN1_BOOLEAN [if v then 0xff else 0]" "\<lambda>_. True"
proof unfold_locales
  fix al d v
  assume "allocates al"
  then show "appends al d (CBB_add_asn1_bool al d v) (der_element CBS_ASN1_BOOLEAN [if v then 0xff else 0])"
    unfolding CBB_add_asn1_bool_def
    by (intro or_error_appends add_element_appends u8_appends) simp_all
next
  show "exact_reader CBS_get_asn1_bool"
    unfolding CBS_get_asn1_bool_def Let_def by (intro reader_intros)
qed (simp add: CBS_get_asn1_bool_Some)

subsection \<open>Unsigned integers\<close>

text \<open>The shortest two's complement encoding of a natural number.\<close>

fun uint_octets :: "nat \<Rightarrow> byte list" where
  "uint_octets n = (if n < 128 then [word_of_nat n] else uint_octets (n div 256) @ [word_of_nat n])"

declare uint_octets.simps [simp del]

lemma uint_octets_small [simp]: "n < 128 \<Longrightarrow> uint_octets n = [word_of_nat n]"
  by (subst uint_octets.simps) simp

lemma uint_octets_big: "128 \<le> n \<Longrightarrow> uint_octets n = uint_octets (n div 256) @ [word_of_nat n]"
  by (subst uint_octets.simps) simp

definition minimal_uint :: "byte list \<Rightarrow> bool" where
  "minimal_uint bs \<longleftrightarrow> bs \<noteq> [] \<and> unat (hd bs) < 128 \<and> \<not> (length bs > 1 \<and> hd bs = 0 \<and> unat (bs ! 1) < 128)"

lemma minimal_uint_octets: "minimal_uint (uint_octets n) \<and> be_nat (uint_octets n) = n"
proof (induction n rule: uint_octets.induct)
  case (1 n)
  show ?case
  proof (cases "n < 128")
    case True
    then show ?thesis by (simp add: minimal_uint_def unat_byte_of_nat)
  next
    case False
    let ?p = "uint_octets (n div 256)"
    have ih: "minimal_uint ?p" "be_nat ?p = n div 256" using 1 False by simp_all
    have eq: "uint_octets n = ?p @ [word_of_nat n]" using False by (simp add: uint_octets_big)
    have "be_nat (uint_octets n) = n" by (simp add: eq ih unat_byte_of_nat)
    moreover have "minimal_uint (?p @ [word_of_nat n])"
    proof (cases "length ?p = 1")
      case True
      then obtain b where b: "?p = [b]" by (auto simp: length_Suc_conv)
      then have "b = 0 \<Longrightarrow> n div 256 = 0" using ih by simp
      then show ?thesis using ih False b by (auto simp: minimal_uint_def unat_byte_of_nat)
    next
      case False
      then have "length ?p > 1" using ih(1) by (cases ?p) (auto simp: minimal_uint_def)
      then show ?thesis using ih(1) by (auto simp: minimal_uint_def nth_append)
    qed
    ultimately show ?thesis by (simp add: eq)
  qed
qed

lemma uint_octets_unique: "minimal_uint bs \<Longrightarrow> uint_octets (be_nat bs) = bs"
proof (induction bs rule: rev_induct)
  case (snoc b bs)
  show ?case
  proof (cases "bs = []")
    case True
    with snoc show ?thesis by (simp add: minimal_uint_def)
  next
    case False
    then have m: "minimal_uint bs" using snoc.prems by (cases bs) (auto simp: minimal_uint_def nth_append split: if_splits)
    have "\<not> be_nat (bs @ [b]) < 128"
    proof
      assume lt: "be_nat (bs @ [b]) < 128"
      then have "\<forall>x \<in> set bs. x = 0" and b: "unat b < 128" by (auto simp: be_nat_eq_0 [symmetric])
      then have "hd bs = 0" "length bs > 1 \<Longrightarrow> bs ! 1 = 0" using False by auto
      moreover have "length bs = 1 \<or> length bs > 1" using False by (cases bs) auto
      ultimately show False using snoc.prems False b by (auto simp: minimal_uint_def nth_append split: if_splits)
    qed
    then show ?thesis using snoc.IH [OF m] unat_byte_less [of b] by (simp add: uint_octets_big not_less low_byte del: of_nat_add of_nat_mult)
  qed
qed (simp add: minimal_uint_def)

lemma length_uint_octets: "n < 128 * 256 ^ k \<Longrightarrow> length (uint_octets n) \<le> Suc k"
proof (induction k arbitrary: n)
  case (Suc k)
  then have "n div 256 < 128 * 256 ^ k" by (simp add: less_mult_imp_div_less)
  with Suc.IH [of "n div 256"] show ?case by (cases "n < 128") (simp_all add: uint_octets_big not_less)
qed simp

lemma length_uint64_octets: "length (uint_octets (unat (v :: u64))) \<le> 9"
  using length_uint_octets [of "unat v" 8] unat_u64_less [of v] by simp

fun uint_emit :: "u64 \<Rightarrow> bool \<Rightarrow> nat \<Rightarrow> byte list" where
  "uint_emit v started 0 = (if started then [] else [0])"
| "uint_emit v started (Suc n) =
     (let b = le_byte v n
      in if started then b # uint_emit v True n
         else if b = 0 then uint_emit v False n
         else (if b AND 0x80 \<noteq> 0 then [0] else []) @ b # uint_emit v True n)"

lemma add_uint64_loop_each: "add_uint64_loop al d v started n = add_each al d (uint_emit v started n)"
proof (induction n arbitrary: started)
  case (Suc n)
  have m: "(0xff :: byte) = mask 8" by (simp add: mask_eq_exp_minus_1)
  have "x AND (0xff :: byte) = x" for x
    unfolding word_unat_eq_iff unat_and_mask [OF m] using unat_byte_less [of x] by simp
  with Suc show ?case by (simp add: le_byte_def Let_def)
qed simp

lemma unat_le_byte: "unat (le_byte v i) = unat v div 256 ^ i mod 256"
  by (simp add: le_byte_def unat_ucast_mod unat_drop_bit power_mult)

lemma be_bytes_lead: "be_bytes (Suc n) v = word_of_nat (v div 256 ^ n) # be_bytes n v"
proof (induction n arbitrary: v)
  case (Suc n)
  have "be_bytes (Suc (Suc n)) v = be_bytes (Suc n) (v div 256) @ [word_of_nat v]" by simp
  also have "\<dots> = word_of_nat (v div 256 div 256 ^ n) # be_bytes n (v div 256) @ [word_of_nat v]"
    by (simp only: Suc append_Cons)
  also have "\<dots> = word_of_nat (v div 256 ^ Suc n) # be_bytes (Suc n) v" by (simp add: div_mult2_eq)
  finally show ?case .
qed simp

lemma uint_emit_started: "uint_emit v True n = be_bytes n (unat v)"
proof (induction n)
  case (Suc n)
  have "le_byte v n = word_of_nat (unat v div 256 ^ n)"
    unfolding word_unat_eq_iff unat_le_byte unat_byte_of_nat ..
  with Suc show ?case by (simp only: be_bytes_lead uint_emit.simps Let_def) simp
qed simp

lemma uint_emit_octets: "uint_emit v False n = uint_octets (unat v mod 256 ^ n)"
proof (induction n)
  case (Suc n)
  let ?b = "le_byte v n"
  have m: "unat v mod 256 ^ Suc n = 256 ^ n * unat ?b + unat v mod 256 ^ n"
    using mod_mult2_eq [of "unat v" "256 ^ n" 256] by (simp add: unat_le_byte mult.commute)
  show ?case
  proof (cases "?b = 0")
    case True
    then show ?thesis using Suc m by simp
  next
    case False
    let ?e = "(if ?b AND 0x80 \<noteq> 0 then [0] else []) @ ?b # be_bytes n (unat v)"
    have "be_nat (?b # be_bytes n (unat v)) = unat v mod 256 ^ Suc n"
      by (simp only: m) (simp add: be_nat_Cons be_nat_be_bytes)
    then have "be_nat ?e = unat v mod 256 ^ Suc n" by (simp add: be_nat_Cons [of 0])
    moreover have "minimal_uint ?e" using False by (auto simp: minimal_uint_def high_bit_iff)
    ultimately show ?thesis using uint_octets_unique [of ?e] False
      by (simp add: uint_emit_started Let_def)
  qed
qed simp

lemma uint64_with_tag_appends:
  assumes "allocates al"
  shows "appends al d (CBB_add_asn1_uint64_with_tag tag al d v) (der_element tag (uint_octets (unat v)))"
proof -
  have "uint_emit v False 8 = uint_octets (unat v)" using uint_emit_octets [of v 8] unat_u64_less [of v] by simp
  moreover have "uint_octets (unat v) \<noteq> []" using minimal_uint_octets [of "unat v"] by (simp add: minimal_uint_def)
  moreover have "length (uint_octets (unat v)) \<le> 0xfffffffe" using length_uint64_octets [of v] by simp
  ultimately show ?thesis
    unfolding CBB_add_asn1_uint64_with_tag_def add_uint64_loop_each
    using assms by (intro add_element_appends_err) (simp_all add: add_each_appends)
qed

lemma asn1_uint64_loop_eval:
  "asn1_uint64_loop out bs =
     (let n = unat out * 256 ^ length bs + be_nat bs in if n < size_mod then Some (word_of_nat n) else None)"
proof (induction bs arbitrary: out)
  case Nil
  then show ?case using unat_u64_less [of out] by simp
next
  case (Cons b bs)
  show ?case
  proof (cases "drop_bit 56 out = 0")
    case True
    then have lt: "unat out < 2 ^ 56" by (simp add: drop_bit_eq_0_iff)
    have "push_bit 8 out OR ucast b = word_of_nat (unat out * 256 + unat b)"
      using shift8_or [of out b] by simp
    moreover have "unat out * 256 + unat b < size_mod" using lt unat_byte_less [of b] by simp
    ultimately have "unat (push_bit 8 out OR ucast b) = unat out * 256 + unat b"
      by (simp add: unat_of_nat del: of_nat_add of_nat_mult)
    then show ?thesis using True Cons [of "push_bit 8 out OR ucast b"]
      by (simp add: be_nat_Cons algebra_simps)
  next
    case False
    then have "2 ^ 56 \<le> unat out" by (simp add: drop_bit_eq_0_iff not_less)
    moreover have "(256::nat) ^ 1 \<le> 256 ^ length (b # bs)" by (intro power_increasing) simp_all
    ultimately have "2 ^ 56 * 256 ^ 1 \<le> unat out * 256 ^ length (b # bs)" by (rule mult_le_mono)
    then have "\<not> unat out * 256 ^ length (b # bs) + be_nat (b # bs) < size_mod" by simp
    then show ?thesis using False by (simp only: asn1_uint64_loop.simps Let_def if_False) simp
  qed
qed

lemma valid_integer_cases:
  "CBS_is_valid_asn1_integer bs =
     (if bs = [] \<or> (length bs > 1 \<and> (hd bs = 0 \<and> unat (bs ! 1) < 128 \<or> hd bs = 0xff \<and> 128 \<le> unat (bs ! 1)))
      then None else Some (128 \<le> unat (hd bs)))"
proof (cases bs)
  case (Cons b cs)
  then show ?thesis by (cases cs) (auto simp: CBS_is_valid_asn1_integer_def high_bit_iff Let_def not_less)
qed (simp add: CBS_is_valid_asn1_integer_def)

lemma is_unsigned_minimal: "CBS_is_unsigned_asn1_integer bs \<longleftrightarrow> minimal_uint bs"
proof -
  have "unat (0xff :: byte) = 255" by simp
  then show ?thesis
    by (auto simp: CBS_is_unsigned_asn1_integer_def valid_integer_cases minimal_uint_def split: if_splits)
qed

lemma CBS_get_asn1_uint64_Some:
  "CBS_get_asn1_uint64 s = (Some v, r) \<longleftrightarrow> s = der_element CBS_ASN1_INTEGER (uint_octets (unat v)) @ r"
proof
  assume "CBS_get_asn1_uint64 s = (Some v, r)"
  then obtain c s' where c: "CBS_get_asn1 CBS_ASN1_INTEGER s = (Some c, s')"
    and *: "(if \<not> CBS_is_unsigned_asn1_integer c then (None, s') else (asn1_uint64_loop 0 c, s')) = (Some v, r)"
    unfolding CBS_get_asn1_uint64_def by (elim rbind_SomeE)
  from * have "r = s'" "minimal_uint c" "be_nat c < size_mod" "v = word_of_nat (be_nat c)"
    by (auto simp: asn1_uint64_loop_eval is_unsigned_minimal Let_def split: if_splits)
  moreover from this have "uint_octets (unat v) = c" by (simp add: unat_of_nat uint_octets_unique)
  ultimately show "s = der_element CBS_ASN1_INTEGER (uint_octets (unat v)) @ r" using c by (simp add: CBS_get_asn1_Some)
next
  assume "s = der_element CBS_ASN1_INTEGER (uint_octets (unat v)) @ r"
  then have "CBS_get_asn1 CBS_ASN1_INTEGER s = (Some (uint_octets (unat v)), r)"
    using length_uint64_octets [of v] by (simp add: CBS_get_asn1_Some valid_universal)
  then show "CBS_get_asn1_uint64 s = (Some v, r)"
    using minimal_uint_octets [of "unat v"] unat_u64_less [of v]
    by (simp add: CBS_get_asn1_uint64_def asn1_uint64_loop_eval is_unsigned_minimal)
qed

interpretation uint64_codec: codec CBS_get_asn1_uint64 CBB_add_asn1_uint64
  "\<lambda>v. der_element CBS_ASN1_INTEGER (uint_octets (unat v))" "\<lambda>_. True"
proof unfold_locales
  show "exact_reader CBS_get_asn1_uint64"
    unfolding CBS_get_asn1_uint64_def by (intro reader_intros)
qed (simp_all add: CBB_add_asn1_uint64_def uint64_with_tag_appends CBS_get_asn1_uint64_Some)

subsection \<open>Signed integers\<close>

text \<open>The shortest two's complement encoding of an \<open>int64_t\<close>, given as its word.\<close>

definition int64_octets :: "u64 \<Rightarrow> byte list" where
  "int64_octets v = (if unat v < 2 ^ 63 then uint_octets (unat v) else map (\<lambda>b. NOT b) (uint_octets (unat (NOT v))))"

lemma sint_nonneg: "0 \<le> sint (v :: u64) \<longleftrightarrow> unat v < 2 ^ 63"
proof -
  have "bit v 63 \<longleftrightarrow> bit (unat v) 63" by (simp add: bit_unsigned_iff)
  also have "\<dots> \<longleftrightarrow> odd (unat v div 2 ^ 63)" by (simp add: bit_iff_odd)
  also have "\<dots> \<longleftrightarrow> 2 ^ 63 \<le> unat v"
  proof (cases "2 ^ 63 \<le> unat v")
    case True
    then have "unat v div 2 ^ 63 = 1" using unat_u64_less [of v] by (simp add: le_div_geq)
    with True show ?thesis by simp
  qed simp
  finally show ?thesis using bit_last_iff [of v] by auto
qed

lemma unat_not: "unat (NOT (w :: 'a::len word)) = 2 ^ LENGTH('a) - 1 - unat w"
proof -
  let ?k = "2 ^ LENGTH('a) - Suc (unat w)"
  have "Suc (unat w) \<le> 2 ^ LENGTH('a)" by (rule Suc_leI) (rule unsigned_less)
  then have "(word_of_nat ?k :: 'a word) = NOT w" by (simp add: of_nat_diff not_eq_complement)
  then have "unat (NOT w) = ?k mod 2 ^ LENGTH('a)" by (metis unat_of_nat)
  also have "\<dots> = ?k" by simp
  finally show ?thesis by simp
qed

lemma unat_not_byte: "unat (NOT (b :: byte)) = 255 - unat b"
  using unat_not [of b] by simp

lemma not_ff: "NOT (0xff :: byte) = 0"
  unfolding word_unat_eq_iff unat_not_byte by simp

lemma be_nat_not: "be_nat (map (\<lambda>b. NOT b) xs) = 256 ^ length xs - 1 - be_nat xs"
proof (induction xs rule: rev_induct)
  case (snoc b xs)
  have "be_nat xs < 256 ^ length xs" "unat b < 256" by (rule be_nat_less unat_byte_less)+
  with snoc show ?case by (simp add: unat_not_byte)
qed simp


lemma map_not_not [simp]: "map ((\<lambda>b::byte. NOT b) \<circ> (\<lambda>b. NOT b)) xs = xs"
  by (simp add: comp_def)

lemma minimal_uint_less: "minimal_uint c \<Longrightarrow> be_nat c < 128 * 256 ^ (length c - 1)"
proof (cases c)
  case (Cons b bs)
  assume "minimal_uint c"
  then have "unat b \<le> 127" using Cons by (simp add: minimal_uint_def)
  then have "unat b * 256 ^ length bs \<le> 127 * 256 ^ length bs" by simp
  moreover have "be_nat bs < 256 ^ length bs" by (rule be_nat_less)
  ultimately have "unat b * 256 ^ length bs + be_nat bs < 128 * 256 ^ length bs" by linarith
  then show ?thesis using Cons by (simp add: be_nat_Cons)
qed (simp add: minimal_uint_def)

lemma minimal_uint_63: "minimal_uint c \<Longrightarrow> length c \<le> 8 \<Longrightarrow> be_nat c < 2 ^ 63"
proof -
  assume "minimal_uint c" "length c \<le> 8"
  moreover have "(256::nat) ^ (length c - 1) \<le> 256 ^ 7" using \<open>length c \<le> 8\<close> by (intro power_increasing) auto
  ultimately show ?thesis using minimal_uint_less [of c] by simp
qed

lemma be_nat_pad: "be_nat (replicate k 0 @ c) = be_nat c"
  by (simp add: be_nat_append be_nat_eq_0)

text \<open>The sign-extended word of a contents of at most eight bytes.\<close>

definition int64_value :: "byte list \<Rightarrow> u64" where
  "int64_value c = be_word 0 (replicate (8 - length c) (if 128 \<le> unat (hd c) then 0xff else 0) @ c)"

lemma int64_value_octets:
  assumes valid: "CBS_is_valid_asn1_integer c \<noteq> None" and len: "length c \<le> 8"
  shows "int64_octets (int64_value c) = c"
proof (cases "128 \<le> unat (hd c)")
  case False
  then have m: "minimal_uint c" using valid by (auto simp: valid_integer_cases minimal_uint_def split: if_splits)
  have "int64_value c = word_of_nat (be_nat c)" using False by (simp add: int64_value_def be_word_of_nat be_nat_pad)
  then have "unat (int64_value c) = be_nat c" "be_nat c < 2 ^ 63"
    using minimal_uint_63 [OF m len] by (simp_all add: unat_of_nat)
  then show ?thesis using uint_octets_unique [OF m] by (simp add: int64_octets_def)
next
  case True
  let ?n = "map (\<lambda>b. NOT b) c" and ?p = "replicate (8 - length c) (0xff :: byte) @ c"
  have c: "c \<noteq> []" using valid by (auto simp: valid_integer_cases split: if_splits)
  have m: "minimal_uint ?n"
    using valid True c unat_byte_less [of "hd c"]
    by (auto simp: valid_integer_cases minimal_uint_def hd_map unat_not_byte word_unat_eq_iff split: if_splits)
  have "unat (int64_value c) = be_nat ?p" using True len by (simp add: int64_value_def unat_be_word)
  then have "unat (NOT (int64_value c)) = be_nat (map (\<lambda>b. NOT b) ?p)"
    using len be_nat_not [of ?p] by (simp add: unat_not)
  also have "\<dots> = be_nat ?n" by (simp only: map_append map_replicate not_ff be_nat_pad)
  finally have u: "unat (NOT (int64_value c)) = be_nat ?n" .
  have "be_nat ?n < 2 ^ 63" using minimal_uint_63 [OF m] len by simp
  then have "\<not> unat (int64_value c) < 2 ^ 63" using u by (simp add: unat_not)
  then show ?thesis using u uint_octets_unique [OF m] by (simp add: int64_octets_def)
qed

lemma uint_octets_63:
  assumes "n < 2 ^ 63"
  shows "minimal_uint (uint_octets n)" "length (uint_octets n) \<le> 8" "be_nat (uint_octets n) = n"
  using minimal_uint_octets [of n] length_uint_octets [of n 7] assms by simp_all

lemma unat_not_63: "\<not> unat (v :: u64) < 2 ^ 63 \<Longrightarrow> unat (NOT v) < 2 ^ 63"
  using unat_u64_less [of v] by (simp add: unat_not)

lemma int64_octets_valid:
  "CBS_is_valid_asn1_integer (int64_octets v) = Some (\<not> unat v < 2 ^ 63)"
  "length (int64_octets v) \<le> 8" "length (int64_octets v) \<ge> 1"
proof -
  have e: "unat (0xff :: byte) = 255" by simp
  have *: "CBS_is_valid_asn1_integer (int64_octets v) = Some (\<not> unat v < 2 ^ 63) \<and>
    length (int64_octets v) \<le> 8 \<and> length (int64_octets v) \<ge> 1"
  proof (cases "unat v < 2 ^ 63")
    case True
    note u = uint_octets_63 [OF True]
    from u True show ?thesis
      by (auto simp: int64_octets_def valid_integer_cases minimal_uint_def Suc_le_eq)
  next
    case False
    note u = uint_octets_63 [OF unat_not_63 [OF False]]
    let ?c = "uint_octets (unat (NOT v))"
    have c: "?c \<noteq> []" "unat (hd ?c) < 128" using u(1) by (auto simp: minimal_uint_def)
    have h: "unat (hd (map (\<lambda>b. NOT b) ?c)) = 255 - unat (hd ?c)" using c(1) by (simp add: hd_map unat_not_byte)
    have 1: "length ?c > 1 \<Longrightarrow> unat (map (\<lambda>b. NOT b) ?c ! 1) = 255 - unat (?c ! 1)" by (simp add: unat_not_byte)
    have "hd (map (\<lambda>b. NOT b) ?c) = 0xff \<longleftrightarrow> unat (hd ?c) = 0" unfolding word_unat_eq_iff h using c(2) by auto
    moreover have "hd (map (\<lambda>b. NOT b) ?c) \<noteq> 0" unfolding word_unat_eq_iff h using c(2) by auto
    ultimately show ?thesis
      using False u(1,2) c h 1 unfolding int64_octets_def valid_integer_cases
      by (auto simp: minimal_uint_def unat_eq_0 Suc_le_eq)
  qed
  from * show "CBS_is_valid_asn1_integer (int64_octets v) = Some (\<not> unat v < 2 ^ 63)"
    "length (int64_octets v) \<le> 8" "length (int64_octets v) \<ge> 1" by simp_all
qed

lemma int64_octets_inject: "int64_octets v = int64_octets w \<Longrightarrow> v = w"
proof -
  assume eq: "int64_octets v = int64_octets w"
  have sg: "unat v < 2 ^ 63 \<longleftrightarrow> unat w < 2 ^ 63"
    using int64_octets_valid(1) [of v] int64_octets_valid(1) [of w] eq by simp
  show ?thesis
  proof (cases "unat v < 2 ^ 63")
    case True
    then have "uint_octets (unat v) = uint_octets (unat w)" using eq sg by (simp add: int64_octets_def)
    then show ?thesis by (metis minimal_uint_octets word_unat_eq_iff)
  next
    case False
    then have "map (\<lambda>b. NOT b) (uint_octets (unat (NOT v))) = map (\<lambda>b. NOT b) (uint_octets (unat (NOT w)))"
      using eq sg by (simp add: int64_octets_def)
    then have "uint_octets (unat (NOT v)) = uint_octets (unat (NOT w))"
      by (rule map_injective) (auto simp: inj_def dest: arg_cong [where f = "\<lambda>b. NOT b"])
    then show ?thesis by (metis minimal_uint_octets word_unat_eq_iff word_not_not)
  qed
qed

lemma CBS_get_asn1_int64_Some:
  "CBS_get_asn1_int64 s = (Some v, r) \<longleftrightarrow> s = der_element CBS_ASN1_INTEGER (int64_octets v) @ r"
proof -
  have sx: "be_word 0 (rev (write_at (replicate 8 f) 0 (rev c))) = be_word (0 :: u64) (replicate (8 - length c) f @ c)"
    if "length c \<le> 8" for f c using that by (simp add: write_at_def rev_replicate)
  have val: "be_word 0 (rev (write_at (replicate 8 (if neg then 0xff else 0)) 0 (rev c))) = int64_value c"
    if "CBS_is_valid_asn1_integer c = Some neg" "length c \<le> 8" for neg c
    using that sx [OF that(2)] by (auto simp: int64_value_def valid_integer_cases split: if_splits)
  show ?thesis
  proof
    assume "CBS_get_asn1_int64 s = (Some v, r)"
    then obtain c s' where c: "CBS_get_asn1 CBS_ASN1_INTEGER s = (Some c, s')"
      and *: "(case CBS_is_valid_asn1_integer c of None \<Rightarrow> (None, s') | Some neg \<Rightarrow> if length c > 8 then (None, s')
        else (Some (be_word 0 (rev (write_at (replicate 8 (if neg then 0xff else 0)) 0 (rev c)))), s')) = (Some v, r)"
      unfolding CBS_get_asn1_int64_def Let_def by (elim rbind_SomeE)
    from * have "r = s'" "CBS_is_valid_asn1_integer c \<noteq> None" "length c \<le> 8" "v = int64_value c"
      by (auto simp: val split: option.splits if_splits)
    with int64_value_octets [of c] c show "s = der_element CBS_ASN1_INTEGER (int64_octets v) @ r"
      by (simp add: CBS_get_asn1_Some)
  next
    assume "s = der_element CBS_ASN1_INTEGER (int64_octets v) @ r"
    then have "CBS_get_asn1 CBS_ASN1_INTEGER s = (Some (int64_octets v), r)"
      using int64_octets_valid(2) [of v] by (simp add: CBS_get_asn1_Some valid_universal)
    moreover have "int64_value (int64_octets v) = v"
      by (rule int64_octets_inject) (simp add: int64_value_octets int64_octets_valid(1,2))
    ultimately show "CBS_get_asn1_int64 s = (Some v, r)"
      using int64_octets_valid(1,2) [of v] by (simp add: CBS_get_asn1_int64_def val not_less)
  qed
qed

lemma le_byte_not: "i \<le> 7 \<Longrightarrow> le_byte (NOT v) i = NOT (le_byte v i)"
  by (rule bit_word_eqI) (auto simp: le_byte_def bit_simps)

lemma be_bytes_le_byte: "be_bytes n (unat v) = map (le_byte v) (rev [0..<n])"
proof (induction n)
  case (Suc n)
  have "le_byte v n = word_of_nat (unat v div 256 ^ n)"
    unfolding word_unat_eq_iff unat_le_byte unat_byte_of_nat ..
  then show ?case by (simp only: be_bytes_lead Suc) simp
qed simp

lemma int64_start_spec:
  assumes "n \<le> 7" and "unat (NOT v) < 128 * 256 ^ n"
  shows "int64_start v n \<le> n \<and> minimal_uint (be_bytes (Suc (int64_start v n)) (unat (NOT v))) \<and>
    unat (NOT v) < 256 ^ Suc (int64_start v n)"
  using assms
proof (induction n)
  case 0
  then show ?case by (simp add: minimal_uint_def unat_byte_of_nat unat_ucast_mod)
next
  case (Suc n)
  let ?w = "NOT v"
  have nb: "le_byte v (Suc n) = NOT (le_byte ?w (Suc n))" "le_byte v n = NOT (le_byte ?w n)"
    using Suc.prems(1) le_byte_not [of "Suc n" v] le_byte_not [of n v] by simp_all
  have b1: "le_byte v (Suc n) = 0xff \<longleftrightarrow> unat ?w div 256 ^ Suc n mod 256 = 0"
    unfolding nb word_unat_eq_iff unat_not_byte unat_le_byte by auto
  have b2: "le_byte v n AND 0x80 \<noteq> 0 \<longleftrightarrow> unat ?w div 256 ^ n mod 256 < 128"
    unfolding nb high_bit_iff unat_not_byte unat_le_byte by auto
  have q: "unat ?w div 256 ^ Suc n < 128" using Suc.prems(2) by (simp add: less_mult_imp_div_less)
  show ?case
  proof (cases "le_byte v (Suc n) = 0xff \<and> le_byte v n AND 0x80 \<noteq> 0")
    case True
    then have "unat ?w div 256 ^ Suc n = 0" and lt: "unat ?w div 256 ^ n mod 256 < 128" using b1 b2 q by auto
    then have "unat ?w div 256 ^ n div 256 = 0" 
      by (metis div_mult2_eq power_Suc2)
    then have "unat ?w div 256 ^ n < 128" using lt by (simp add: div_eq_0_iff)
    then have "unat ?w < 128 * 256 ^ n" by (simp add: div_less_iff_less_mult)
    then show ?thesis using Suc True by simp
  next
    case False
    have "minimal_uint (word_of_nat (unat ?w div 256 ^ Suc n) # word_of_nat (unat ?w div 256 ^ n) # be_bytes n (unat ?w))"
      using False b1 b2 q by (auto simp: minimal_uint_def unat_byte_of_nat word_unat_eq_iff)
    then have "minimal_uint (be_bytes (Suc (Suc n)) (unat ?w))" by (simp only: be_bytes_lead)
    moreover have "unat ?w < 256 ^ Suc (Suc n)" using Suc.prems(2) by simp
    moreover have "int64_start v (Suc n) = Suc n" using False by auto
    ultimately show ?thesis by simp
  qed
qed

lemma add_le_bytes_each: "add_le_bytes al d v n = add_each al d (be_bytes n (unat v))"
  unfolding be_bytes_le_byte by (induction n) simp_all

lemma int64_emit:
  assumes "\<not> unat v < 2 ^ 63"
  shows "be_bytes (Suc (int64_start v 7)) (unat v) = int64_octets v"
proof -
  let ?k = "int64_start v 7" and ?w = "NOT v"
  have w: "unat ?w < 128 * 256 ^ 7" using unat_not_63 [OF assms] by simp
  have sp: "?k \<le> 7" "minimal_uint (be_bytes (Suc ?k) (unat ?w))" "unat ?w < 256 ^ Suc ?k"
    using int64_start_spec [OF _ w] by auto
  have "uint_octets (unat ?w) = be_bytes (Suc ?k) (unat ?w)"
    using uint_octets_unique [OF sp(2)] sp(3) by (simp only: be_nat_be_bytes mod_less)
  moreover have "be_bytes (Suc ?k) (unat v) = map (\<lambda>b. NOT b) (be_bytes (Suc ?k) (unat ?w))"
    unfolding be_bytes_le_byte using sp(1) by (auto simp: le_byte_not)
  ultimately show ?thesis using assms by (simp only: int64_octets_def if_False)
qed

lemma int64_with_tag_appends:
  assumes "allocates al"
  shows "appends al d (CBB_add_asn1_int64_with_tag tag al d v) (der_element tag (int64_octets v))"
proof (cases "unat v < 2 ^ 63")
  case True
  then show ?thesis using uint64_with_tag_appends [OF assms, of d tag v]
    by (simp add: CBB_add_asn1_int64_with_tag_def sint_nonneg int64_octets_def)
next
  case False
  have "int64_octets v \<noteq> []" "length (int64_octets v) \<le> 0xfffffffe" using int64_octets_valid(2,3) [of v] by auto
  with False show ?thesis
    unfolding CBB_add_asn1_int64_with_tag_def add_le_bytes_each int64_emit [OF False] sint_nonneg
    using assms by (simp only: if_False) (intro add_element_appends_err add_each_appends, simp_all)
qed

interpretation int64_codec: codec CBS_get_asn1_int64 CBB_add_asn1_int64
  "\<lambda>v. der_element CBS_ASN1_INTEGER (int64_octets v)" "\<lambda>_. True"
proof unfold_locales
  show "exact_reader CBS_get_asn1_int64"
    unfolding CBS_get_asn1_int64_def Let_def by (intro reader_intros)
qed (simp_all add: CBB_add_asn1_int64_def int64_with_tag_appends CBS_get_asn1_int64_Some)

end
