(* ===== verification/Oid.thy ===== *)
theory Oid
  imports Cbb_Asn1
begin

text \<open>
  Object identifiers as text: \<open>CBB_add_asn1_oid_from_text\<close> of \<open>crypto/bytestring/cbb.c\<close> and
  \<open>CBS_asn1_oid_to_text\<close> of \<open>crypto/bytestring/cbs.c\<close>, with the two conversions between the
  dotted decimal form and the base-128 encoding and the proof that they are inverse.
\<close>

subsection \<open>From text to the encoding\<close>

lemma u64_decimal_loop_consumes:
  "get_u64_decimal_loop v seen s = (Some x, r) \<Longrightarrow> length r \<le> length s \<and> (\<not> seen \<longrightarrow> length r < length s)"
  by (induction v seen s rule: get_u64_decimal_loop.induct) (fastforce simp: Let_def split: if_splits)+

lemma parse_dotted_consumes: "parse_dotted_decimal s = (Some v, r) \<Longrightarrow> length r < length s"
proof -
  assume "parse_dotted_decimal s = (Some v, r)"
  then obtain x s' where "get_u64_decimal_loop 0 False s = (Some x, s')"
    and *: "(case CBS_get_u8 s' of (None, cbs) \<Rightarrow> (Some x, cbs)
       | (Some dot, cbs) \<Rightarrow> if dot = 46 \<and> length cbs > 0 then (Some x, cbs) else (None, cbs)) = (Some v, r)"
    unfolding parse_dotted_decimal_def CBS_get_u64_decimal_def by (elim rbind_SomeE)
  then have "length s' < length s" by (auto dest: u64_decimal_loop_consumes)
  moreover have "length r \<le> length s'" using * by (cases s') (auto split: if_splits)
  ultimately show ?thesis by simp
qed

text \<open>The loop over the components after the first two.\<close>

function oid_text_loop :: "allocator \<Rightarrow> nat \<Rightarrow> cbs \<Rightarrow> cbb \<Rightarrow> bool \<times> cbb" where
  "oid_text_loop al d cbs =
     (if length cbs > 0
      then (case parse_dotted_decimal cbs of
              (None, _) \<Rightarrow> (\<lambda>s. (False, s))
            | (Some a, cbs') \<Rightarrow> cbb_seq (add_base128_integer al d a) (oid_text_loop al d cbs'))
      else cbb_nop)"
  by pat_completeness auto
termination
  by (relation "measure (\<lambda>(al, d, cbs). length cbs)") (auto dest!: parse_dotted_consumes [OF sym])

declare oid_text_loop.simps [simp del]

definition CBB_add_asn1_oid_from_text :: "allocator \<Rightarrow> nat \<Rightarrow> byte list \<Rightarrow> cbb \<Rightarrow> bool \<times> cbb" where
  "CBB_add_asn1_oid_from_text al d text =
     cbb_seq (CBB_flush al d)
       (case parse_dotted_decimal text of
          (None, _) \<Rightarrow> (\<lambda>s. (False, s))
        | (Some a, cbs) \<Rightarrow>
          (case parse_dotted_decimal cbs of
             (None, _) \<Rightarrow> (\<lambda>s. (False, s))
           | (Some b, cbs) \<Rightarrow>
             if a > 2 \<or> (a < 2 \<and> b > 39) \<or> b > - 1 - 80 then (\<lambda>s. (False, s))
             else cbb_seq (add_base128_integer al d (40 * a + b)) (oid_text_loop al d cbs)))"

subsection \<open>From the encoding to text\<close>

text \<open>The digits \<open>snprintf\<close> prints for \<open>%llu\<close>.\<close>

fun decimal :: "nat \<Rightarrow> byte list" where
  "decimal n = (if n < 10 then [word_of_nat (48 + n)] else decimal (n div 10) @ [word_of_nat (48 + n mod 10)])"

declare decimal.simps [simp del]

definition add_decimal :: "allocator \<Rightarrow> nat \<Rightarrow> u64 \<Rightarrow> cbb \<Rightarrow> bool \<times> cbb" where
  "add_decimal al d v = CBB_add_bytes al d (decimal (unat v))"

lemma parse_base128_consumes: "parse_base128_integer s = (Some v, r) \<Longrightarrow> length r < length s"
  by (auto simp: parse_base128_integer_Some)

function oid_to_text_loop :: "allocator \<Rightarrow> cbs \<Rightarrow> cbb \<Rightarrow> bool \<times> cbb" where
  "oid_to_text_loop al copy =
     (if length copy \<noteq> 0
      then (case parse_base128_integer copy of
              (None, _) \<Rightarrow> (\<lambda>s. (False, s))
            | (Some v, copy') \<Rightarrow>
                cbb_seq (CBB_add_u8 al 0 46) (cbb_seq (add_decimal al 0 v) (oid_to_text_loop al copy')))
      else cbb_nop)"
  by pat_completeness auto
termination
  by (relation "measure (\<lambda>(al, copy). length copy)") (auto dest!: parse_base128_consumes [OF sym])

declare oid_to_text_loop.simps [simp del]

definition oid_text_writer :: "allocator \<Rightarrow> cbs \<Rightarrow> cbb \<Rightarrow> bool \<times> cbb" where
  "oid_text_writer al cbs =
     (case parse_base128_integer cbs of
        (None, _) \<Rightarrow> (\<lambda>s. (False, s))
      | (Some v, copy) \<Rightarrow>
        cbb_seq
          (if v \<ge> 80 then cbb_seq (CBB_add_bytes al 0 [50, 46]) (add_decimal al 0 (v - 80))
           else cbb_seq (add_decimal al 0 (v div 40)) (cbb_seq (CBB_add_u8 al 0 46) (add_decimal al 0 (v mod 40))))
          (cbb_seq (oid_to_text_loop al copy) (CBB_add_u8 al 0 0)))"

text \<open>The result is the NUL-terminated text.\<close>

definition CBS_asn1_oid_to_text :: "allocator \<Rightarrow> cbs \<Rightarrow> byte list option" where
  "CBS_asn1_oid_to_text al cbs = cbb_build al 32 (oid_text_writer al cbs)"

subsection \<open>The conversions are inverse\<close>

lemma decimal_small: "n < 10 \<Longrightarrow> decimal n = [word_of_nat (48 + n)]"
  by (subst decimal.simps) simp

lemma decimal_big: "\<not> n < 10 \<Longrightarrow> decimal n = decimal (n div 10) @ [word_of_nat (48 + n mod 10)]"
  by (subst decimal.simps) simp

lemma decimal_digit:
  assumes "m < 10"
  shows "OPENSSL_isdigit (uint (word_of_nat (48 + m) :: byte))" and "ucast (word_of_nat (48 + m) :: byte) - 48 = (word_of_nat m :: u64)"
proof -
  have u: "unat (word_of_nat (48 + m) :: byte) = 48 + m" using assms by (simp only: unat_byte_of_nat) simp
  then have "uint (word_of_nat (48 + m) :: byte) = int (48 + m)" by (metis uint_nat)
  then show "OPENSSL_isdigit (uint (word_of_nat (48 + m) :: byte))" using assms by (simp add: OPENSSL_isdigit_def)
  have "ucast (word_of_nat (48 + m) :: byte) = (word_of_nat (48 + m) :: u64)" using u by (metis of_nat_unat)
  then show "ucast (word_of_nat (48 + m) :: byte) - 48 = (word_of_nat m :: u64)" by simp
qed

lemma u64_decimal_step:
  assumes "v = word_of_nat q" and "q * 10 + m < size_mod" and "m < 10" and "q \<noteq> 0 \<or> \<not> seen"
  shows "get_u64_decimal_loop v seen (word_of_nat (48 + m) # t) = get_u64_decimal_loop (word_of_nat (q * 10 + m)) True t"
proof -
  have q: "unat v = q" using assms by (simp add: unat_of_nat)
  have m: "unat (word_of_nat m :: u64) = m" using assms by (simp add: unat_of_nat)
  have v10: "unat (v * 10) = q * 10" using assms q by (simp add: unat_word_ariths)
  have mx: "unat (- 1 - word_of_nat m :: u64) = size_mod - 1 - m"
    using unat_not [of "word_of_nat m :: u64"] m by (simp add: not_eq_complement minus_diff_commute)
  have d: "unat ((- 1 :: u64) div 10) = (size_mod - 1) div 10" by (simp add: unat_div)
  have "\<not> (v = 0 \<and> seen)" using assms(4) q by auto
  moreover have "\<not> v > (- 1) div 10" unfolding word_less_nat_alt d q using assms by simp
  moreover have "\<not> v * 10 > - 1 - word_of_nat m" unfolding word_less_nat_alt v10 mx using assms by simp
  ultimately show ?thesis using decimal_digit [OF assms(3)] assms(1) by auto
qed

lemma u64_decimal_loop_decimal:
  "n < size_mod \<Longrightarrow> get_u64_decimal_loop 0 False (decimal n @ t) = get_u64_decimal_loop (word_of_nat n) True t"
proof (induction n arbitrary: t rule: decimal.induct)
  case (1 n)
  show ?case
  proof (cases "n < 10")
    case True
    then show ?thesis using u64_decimal_step [of 0 0 n False t] 1 by (simp add: decimal_small)
  next
    case False
    let ?q = "n div 10" and ?m = "n mod 10"
    have "get_u64_decimal_loop 0 False (decimal n @ t) =
        get_u64_decimal_loop 0 False (decimal ?q @ word_of_nat (48 + ?m) # t)" using False by (simp add: decimal_big)
    also have "\<dots> = get_u64_decimal_loop (word_of_nat ?q) True (word_of_nat (48 + ?m) # t)"
      using 1 False by simp
    also have "\<dots> = get_u64_decimal_loop (word_of_nat (?q * 10 + ?m)) True t"
      using 1 False by (intro u64_decimal_step) auto
    finally show ?thesis by simp
  qed
qed

text \<open>A dotted component is followed by the end or by a dot and another component.\<close>

lemma parse_dotted_last: "parse_dotted_decimal (decimal (unat v)) = (Some v, [])"
  using u64_decimal_loop_decimal [of "unat v" "[]"] unat_u64_less [of v]
  by (simp add: parse_dotted_decimal_def CBS_get_u64_decimal_def)

lemma parse_dotted_more: "t \<noteq> [] \<Longrightarrow> parse_dotted_decimal (decimal (unat v) @ 46 # t) = (Some v, t)"
  using u64_decimal_loop_decimal [of "unat v" "46 # t"] unat_u64_less [of v]
  by (simp add: parse_dotted_decimal_def CBS_get_u64_decimal_def OPENSSL_isdigit_def)

fun dotted :: "u64 list \<Rightarrow> byte list" where
  "dotted [] = []"
| "dotted [v] = decimal (unat v)"
| "dotted (v # w # vs) = decimal (unat v) @ 46 # dotted (w # vs)"

lemma decimal_nonempty [simp]: "decimal n \<noteq> []"
  by (subst decimal.simps) simp

lemma dotted_nonempty: "vs \<noteq> [] \<Longrightarrow> dotted vs \<noteq> []"
  by (induction vs rule: dotted.induct) simp_all

lemma parse_dotted: "parse_dotted_decimal (dotted (v # vs)) = (Some v, dotted vs)"
  by (cases vs) (simp_all add: parse_dotted_last parse_dotted_more dotted_nonempty)

lemma oid_text_loop_after:
  assumes "allocates al" and "appends al d f as"
  shows "appends al d (cbb_seq f (oid_text_loop al d (dotted vs))) (as @ concat (map (\<lambda>v. b128 (unat v)) vs))"
  using assms(2)
proof (induction vs arbitrary: f as)
  case Nil
  then show ?case by (simp add: oid_text_loop.simps)
next
  case (Cons v vs)
  have "oid_text_loop al d (dotted (v # vs)) = cbb_seq (add_base128_integer al d v) (oid_text_loop al d (dotted vs))"
    using dotted_nonempty [of "v # vs"] by (simp add: oid_text_loop.simps [of _ _ "dotted (v # vs)"] parse_dotted)
  then show ?case
    using Cons.IH [OF appends_seq [OF Cons.prems add_base128_appends [OF assms(1), of d v]]] by (simp add: cbb_seq_assoc)
qed

text \<open>An object identifier: its first two arcs and the others.\<close>

definition valid_arcs :: "u64 \<Rightarrow> u64 \<Rightarrow> bool" where
  "valid_arcs a b \<longleftrightarrow> unat a \<le> 2 \<and> (unat a < 2 \<longrightarrow> unat b \<le> 39) \<and> unat b < size_mod - 80"

definition oid_octets :: "u64 \<Rightarrow> u64 \<Rightarrow> u64 list \<Rightarrow> byte list" where
  "oid_octets a b vs = b128 (40 * unat a + unat b) @ concat (map (\<lambda>v. b128 (unat v)) vs)"

lemma valid_arcs_word:
  assumes "valid_arcs a b"
  shows "unat (40 * a + b) = 40 * unat a + unat b" and "\<not> (a > 2 \<or> (a < 2 \<and> b > 39) \<or> b > - 1 - 80)"
proof -
  have "40 * unat a + unat b < size_mod" using assms by (auto simp: valid_arcs_def)
  then show "unat (40 * a + b) = 40 * unat a + unat b" by (simp add: unat_word_ariths)
  have "unat (- 1 - 80 :: u64) = size_mod - 81" by simp
  then show "\<not> (a > 2 \<or> (a < 2 \<and> b > 39) \<or> b > - 1 - 80)"
    using assms unfolding valid_arcs_def word_less_nat_alt by auto
qed

lemma oid_from_text_appends:
  assumes "allocates al" and "valid_arcs a b"
  shows "appends al d (CBB_add_asn1_oid_from_text al d (dotted (a # b # vs))) (oid_octets a b vs)"
proof -
  note w = valid_arcs_word [OF assms(2)]
  have "appends al d (cbb_seq (CBB_flush al d) (add_base128_integer al d (40 * a + b))) (b128 (40 * unat a + unat b))"
    using appends_seq [OF flush_appends [OF assms(1)] add_base128_appends [OF assms(1)], of d "40 * a + b"] w(1) by simp
  from oid_text_loop_after [OF assms(1) this, of vs] w(2) show ?thesis
    by (auto simp: CBB_add_asn1_oid_from_text_def oid_octets_def cbb_seq_assoc parse_dotted simp del: dotted.simps)
qed

subsubsection \<open>Back to text\<close>

lemma length_decimal: "n < 10 ^ k \<Longrightarrow> 0 < k \<Longrightarrow> length (decimal n) \<le> k"
proof (induction k arbitrary: n)
  case (Suc k)
  show ?case
  proof (cases "n < 10")
    case True
    then show ?thesis by (simp add: decimal_small)
  next
    case False
    then have "0 < k" using Suc.prems by (cases k) auto
    moreover have "n div 10 < 10 ^ k" using Suc.prems by (simp add: less_mult_imp_div_less)
    ultimately show ?thesis using Suc.IH [of "n div 10"] False by (simp add: decimal_big)
  qed
qed simp

lemma add_decimal_appends: "allocates al \<Longrightarrow> appends al d (add_decimal al d v) (decimal (unat v))"
  using length_decimal [of "unat v" 20] unat_u64_less [of v] unfolding add_decimal_def
  by (intro add_bytes_appends) simp_all

lemma oid_to_text_loop_after:
  fixes vs :: "u64 list"
  assumes "allocates al" and "appends al 0 f as"
  shows "appends al 0 (cbb_seq f (oid_to_text_loop al (concat (map (\<lambda>v. b128 (unat v)) vs))))
    (as @ concat (map (\<lambda>v. 46 # decimal (unat v)) vs))"
  using assms(2)
proof (induction vs arbitrary: f as)
  case Nil
  then show ?case by (simp add: oid_to_text_loop.simps)
next
  case (Cons v vs)
  let ?e = "concat (map (\<lambda>v. b128 (unat v)) vs)"
  have "parse_base128_integer (b128 (unat v) @ ?e) = (Some v, ?e)" by (simp add: parse_base128_integer_Some)
  then have "oid_to_text_loop al (b128 (unat v) @ ?e) =
      cbb_seq (CBB_add_u8 al 0 46) (cbb_seq (add_decimal al 0 v) (oid_to_text_loop al ?e))"
    by (simp add: oid_to_text_loop.simps [of _ "b128 (unat v) @ ?e"])
  then show ?case
    using Cons.IH [OF appends_seq [OF Cons.prems appends_seq [OF u8_appends [OF assms(1), of 0 46]
        add_decimal_appends [OF assms(1), of 0 v]]]] by (simp add: cbb_seq_assoc)
qed

lemma dotted_tail: "dotted (v # vs) = decimal (unat v) @ concat (map (\<lambda>v. 46 # decimal (unat v)) vs)"
  by (induction vs arbitrary: v) simp_all

lemma first_arcs_text:
  assumes "allocates al" and "valid_arcs a b"
  defines "v \<equiv> 40 * a + b"
  shows "appends al 0 (if v \<ge> 80 then cbb_seq (CBB_add_bytes al 0 [50, 46]) (add_decimal al 0 (v - 80))
     else cbb_seq (add_decimal al 0 (v div 40)) (cbb_seq (CBB_add_u8 al 0 46) (add_decimal al 0 (v mod 40))))
     (dotted [a, b])"
proof -
  have v: "unat v = 40 * unat a + unat b" using valid_arcs_word(1) [OF assms(2)] by (simp add: v_def)
  show ?thesis
  proof (cases "unat a = 2")
    case True
    then have "v \<ge> 80" using v by (simp add: word_le_nat_alt)
    moreover have "unat (v - 80) = unat b" using v True by (simp add: unat_sub word_le_nat_alt)
    ultimately show ?thesis
      using appends_seq [OF add_bytes_appends [OF assms(1), of "[50, 46]" 0] add_decimal_appends [OF assms(1), of 0 "v - 80"]] True
      by (simp add: decimal_small)
  next
    case False
    then have ab: "unat a < 2" "unat b \<le> 39" using assms(2) by (auto simp: valid_arcs_def)
    then have "\<not> v \<ge> 80" "unat (v div 40) = unat a" "unat (v mod 40) = unat b"
      using v by (auto simp: word_le_nat_alt unat_div unat_mod)
    then show ?thesis
      using appends_seq [OF add_decimal_appends [OF assms(1), of 0 "v div 40"]
          appends_seq [OF u8_appends [OF assms(1), of 0 46] add_decimal_appends [OF assms(1), of 0 "v mod 40"]]]
      by simp
  qed
qed

lemma oid_text_writer_appends:
  assumes "allocates al" and "valid_arcs a b"
  shows "appends al 0 (oid_text_writer al (oid_octets a b vs)) (dotted (a # b # vs) @ [0])"
proof -
  have p: "parse_base128_integer (oid_octets a b vs) = (Some (40 * a + b), concat (map (\<lambda>v. b128 (unat v)) vs))"
    using valid_arcs_word(1) [OF assms(2)] by (simp add: parse_base128_integer_Some oid_octets_def)
  note w = appends_seq [OF oid_to_text_loop_after [OF assms(1) first_arcs_text [OF assms], of vs] u8_appends [OF assms(1), of 0 0]]
  show ?thesis using w unfolding oid_text_writer_def p
    by (simp add: cbb_seq_assoc dotted_tail)
qed

lemma oid_to_text_octets:
  assumes "allocates al" and "valid_arcs a b"
  shows "CBS_asn1_oid_to_text al (oid_octets a b vs) = Some txt \<Longrightarrow> txt = dotted (a # b # vs) @ [0]"
    and "(\<forall>n. al n \<noteq> None) \<Longrightarrow> length (dotted (a # b # vs)) < size_mod - 1 \<Longrightarrow>
      CBS_asn1_oid_to_text al (oid_octets a b vs) = Some (dotted (a # b # vs) @ [0])"
  using build_appends [OF assms(1) _ oid_text_writer_appends [OF assms, of vs], of 32]
  by (simp_all add: CBS_asn1_oid_to_text_def del: dotted.simps)

end
