(* ===== verification/Unicode.thy ===== *)
theory Unicode
  imports Cbb_Asn1
begin

text \<open>
  \<open>crypto/bytestring/unicode.c\<close>: reading and writing code points in UTF-8, Latin-1, UCS-2 and
  UTF-32. The readers are proved to accept exactly the shortest encodings of valid code
  points, and each reader with its writer is a codec in the sense of \<open>Codec\<close>.
\<close>

definition is_valid_code_point :: "u32 \<Rightarrow> bool" where
  "is_valid_code_point v =
     (if v > 0x10ffff \<or> v AND 0xfffe = 0xfffe \<or> (v \<ge> 0xfdd0 \<and> v \<le> 0xfdef) \<or> (v \<ge> 0xd800 \<and> v \<le> 0xdfff)
      then False else True)"

definition BOTTOM_BITS :: "nat \<Rightarrow> byte" where
  "BOTTOM_BITS n = ucast ((push_bit n 1 :: u32) - 1)"

definition TOP_BITS :: "nat \<Rightarrow> byte" where
  "TOP_BITS n = NOT (BOTTOM_BITS (8 - n))"

subsection \<open>Readers\<close>

text \<open>The loop over the \<open>n\<close> continuation bytes.\<close>

fun utf8_loop :: "nat \<Rightarrow> u32 \<Rightarrow> u32 reader" where
  "utf8_loop 0 v s = (Some v, s)"
| "utf8_loop (Suc n) v s =
     (case CBS_get_u8 s of
        (None, s') \<Rightarrow> (None, s')
      | (Some c, s') \<Rightarrow>
        if c AND TOP_BITS 2 \<noteq> TOP_BITS 1 then (None, s')
        else utf8_loop n (push_bit 6 v OR ucast (c AND BOTTOM_BITS 6)) s')"

definition utf8_tail :: "nat \<Rightarrow> u32 \<Rightarrow> u32 \<Rightarrow> u32 reader" where
  "utf8_tail len v lower_bound =
     rbind (utf8_loop len v) (\<lambda>v. if \<not> is_valid_code_point v \<or> v < lower_bound then rfail else rret v)"

definition CBS_get_utf8 :: "u32 reader" where
  "CBS_get_utf8 =
     rbind CBS_get_u8 (\<lambda>c.
       if c \<le> 0x7f then rret (ucast c)
       else if c AND TOP_BITS 3 = TOP_BITS 2 then utf8_tail 1 (ucast (c AND BOTTOM_BITS 5)) 0x80
       else if c AND TOP_BITS 4 = TOP_BITS 3 then utf8_tail 2 (ucast (c AND BOTTOM_BITS 4)) 0x800
       else if c AND TOP_BITS 5 = TOP_BITS 4 then utf8_tail 3 (ucast (c AND BOTTOM_BITS 3)) 0x10000
       else rfail)"

definition CBS_get_latin1 :: "u32 reader" where
  "CBS_get_latin1 = rbind CBS_get_u8 (\<lambda>c. rret (ucast c))"

definition CBS_get_ucs2_be :: "u32 reader" where
  "CBS_get_ucs2_be =
     rbind CBS_get_u16 (\<lambda>c. if \<not> is_valid_code_point (ucast c) then rfail else rret (ucast c))"

definition CBS_get_utf32_be :: "u32 reader" where
  "CBS_get_utf32_be = rbind CBS_get_u32 (\<lambda>c. if is_valid_code_point c then rret c else rfail)"

subsection \<open>Writers\<close>

definition CBB_get_utf8_len :: "u32 \<Rightarrow> nat" where
  "CBB_get_utf8_len u = (if u \<le> 0x7f then 1 else if u \<le> 0x7ff then 2 else if u \<le> 0xffff then 3 else 4)"

definition cbb_fail :: "cbb \<Rightarrow> bool \<times> cbb" where
  "cbb_fail s = (False, s)"

definition CBB_add_utf8 :: "allocator \<Rightarrow> nat \<Rightarrow> u32 \<Rightarrow> cbb \<Rightarrow> bool \<times> cbb" where
  "CBB_add_utf8 al d u =
     (let low = \<lambda>k. TOP_BITS 1 OR ucast (drop_bit k u AND ucast (BOTTOM_BITS 6))
      in if \<not> is_valid_code_point u then cbb_fail
         else if u \<le> 0x7f then CBB_add_u8 al d (ucast u)
         else if u \<le> 0x7ff
         then cbb_seq (CBB_add_u8 al d (TOP_BITS 2 OR ucast (drop_bit 6 u))) (CBB_add_u8 al d (low 0))
         else if u \<le> 0xffff
         then cbb_seq (CBB_add_u8 al d (TOP_BITS 3 OR ucast (drop_bit 12 u)))
                (cbb_seq (CBB_add_u8 al d (low 6)) (CBB_add_u8 al d (low 0)))
         else if u \<le> 0x10ffff
         then cbb_seq (CBB_add_u8 al d (TOP_BITS 4 OR ucast (drop_bit 18 u)))
                (cbb_seq (CBB_add_u8 al d (low 12))
                   (cbb_seq (CBB_add_u8 al d (low 6)) (CBB_add_u8 al d (low 0))))
         else cbb_fail)"

definition CBB_add_latin1 :: "allocator \<Rightarrow> nat \<Rightarrow> u32 \<Rightarrow> cbb \<Rightarrow> bool \<times> cbb" where
  "CBB_add_latin1 al d u = (if u \<le> 0xff then CBB_add_u8 al d (ucast u) else cbb_fail)"

definition CBB_add_ucs2_be :: "allocator \<Rightarrow> nat \<Rightarrow> u32 \<Rightarrow> cbb \<Rightarrow> bool \<times> cbb" where
  "CBB_add_ucs2_be al d u =
     (if u \<le> 0xffff \<and> is_valid_code_point u then CBB_add_u16 al d (ucast u) else cbb_fail)"

definition CBB_add_utf32_be :: "allocator \<Rightarrow> nat \<Rightarrow> u32 \<Rightarrow> cbb \<Rightarrow> bool \<times> cbb" where
  "CBB_add_utf32_be al d u = (if is_valid_code_point u then CBB_add_u32 al d u else cbb_fail)"

subsection \<open>Bits of the lead and continuation bytes\<close>

lemma BOTTOM_BITS_mask: "n \<le> 8 \<Longrightarrow> BOTTOM_BITS n = mask n"
  unfolding BOTTOM_BITS_def by (rule bit_word_eqI) (simp add: bit_simps mask_eq_exp_minus_1 [symmetric] push_bit_of_1)

lemma TOP_BITS_mask: "n \<le> 8 \<Longrightarrow> TOP_BITS n = push_bit (8 - n) (mask n)"
  unfolding TOP_BITS_def by (rule bit_word_eqI) (auto simp: BOTTOM_BITS_mask bit_simps)

lemma unat_and_BOTTOM: "n \<le> 8 \<Longrightarrow> unat ((c :: byte) AND BOTTOM_BITS n) = unat c mod 2 ^ n"
  by (rule unat_and_mask) (rule BOTTOM_BITS_mask)

lemma unat_and_TOP:
  assumes "n \<le> 8"
  shows "unat ((c :: byte) AND TOP_BITS n) = unat c div 2 ^ (8 - n) * 2 ^ (8 - n)"
proof -
  let ?x = "unat c div 2 ^ (8 - n)"
  have "(2::nat) ^ n * 2 ^ (8 - n) = 256" using assms by (simp add: power_add [symmetric])
  then have x: "?x < 2 ^ n" "?x * 2 ^ (8 - n) < 256"
    using unat_byte_less [of c] le_less_trans [OF div_times_less_eq_dividend [of "unat c" "2 ^ (8 - n)"]]
    by (simp_all add: less_mult_imp_div_less)
  have "unat (c AND TOP_BITS n) = ?x mod 2 ^ n * 2 ^ (8 - n) mod 256"
    unfolding TOP_BITS_mask [OF assms] and_push_mask by (simp add: unat_bits)
  then show ?thesis using x by simp
qed

lemma all_ones: "255 AND (c :: byte) = c"
proof -
  have m: "(255 :: byte) = mask 8" by (simp add: mask_eq_exp_minus_1)
  show ?thesis unfolding word_unat_eq_iff and.commute [of 255] unat_and_mask [OF m] using unat_byte_less [of c] by simp
qed

lemma unat_TOP: "n \<le> 8 \<Longrightarrow> unat (TOP_BITS n) = 255 div 2 ^ (8 - n) * 2 ^ (8 - n)"
  using unat_and_TOP [of n 255] by (simp add: all_ones)

lemma lead_byte_iff:
  "n < 8 \<Longrightarrow> (c :: byte) AND TOP_BITS (Suc n) = TOP_BITS n \<longleftrightarrow>
     unat c div 2 ^ (7 - n) * 2 ^ (7 - n) = 255 div 2 ^ (8 - n) * 2 ^ (8 - n)"
  unfolding word_unat_eq_iff by (simp add: unat_and_TOP unat_TOP)

lemma lead2: "(c :: byte) AND TOP_BITS 3 = TOP_BITS 2 \<longleftrightarrow> 192 \<le> unat c \<and> unat c < 224"
  using lead_byte_iff [of 2 c] by auto

lemma lead3: "(c :: byte) AND TOP_BITS 4 = TOP_BITS 3 \<longleftrightarrow> 224 \<le> unat c \<and> unat c < 240"
  using lead_byte_iff [of 3 c] by auto

lemma lead4: "(c :: byte) AND TOP_BITS 5 = TOP_BITS 4 \<longleftrightarrow> 240 \<le> unat c \<and> unat c < 248"
  using lead_byte_iff [of 4 c] by auto

lemma cont_byte: "(c :: byte) AND TOP_BITS 2 = TOP_BITS 1 \<longleftrightarrow> 128 \<le> unat c \<and> unat c < 192"
  using lead_byte_iff [of 1 c] unfolding Suc_1 by (auto simp del: One_nat_def)

subsection \<open>The canonical encoding\<close>

fun utf8_cont :: "nat \<Rightarrow> nat \<Rightarrow> byte list" where
  "utf8_cont 0 w = []"
| "utf8_cont (Suc n) w = word_of_nat (128 + w div 64 ^ n mod 64) # utf8_cont n w"

definition utf8 :: "nat \<Rightarrow> byte list" where
  "utf8 u = (if u < 0x80 then [word_of_nat u]
     else if u < 0x800 then word_of_nat (192 + u div 64) # utf8_cont 1 u
     else if u < 0x10000 then word_of_nat (224 + u div 4096) # utf8_cont 2 u
     else word_of_nat (240 + u div 262144) # utf8_cont 3 u)"

lemma utf8_step:
  assumes "unat (v :: u32) < 2 ^ 26"
  shows "unat (push_bit 6 v OR ucast ((c :: byte) AND BOTTOM_BITS 6)) = unat v * 64 + unat c mod 64"
proof -
  have "unat c mod 64 < 2 ^ 6" by simp
  from word_or_arith [OF this, of "unat v", where 'a = 32]
  have "(word_of_nat (unat v * 64) :: u32) OR word_of_nat (unat c mod 64) = word_of_nat (unat v * 64 + unat c mod 64)"
    by (simp del: of_nat_add of_nat_mult)
  moreover have "push_bit 6 v = word_of_nat (unat v * 64)" by (simp add: push_bit_eq_mult)
  moreover have "ucast (c AND BOTTOM_BITS 6) = (word_of_nat (unat c mod 64) :: u32)"
    by (metis (no_types) of_nat_unat unat_and_BOTTOM [of 6 c, simplified])
  moreover have "unat v * 64 + unat c mod 64 < 2 ^ 32" using assms mod_less_divisor [of 64 "unat c"] by simp
  ultimately show ?thesis by (simp add: unat_of_nat del: of_nat_add of_nat_mult)
qed

lemma cont_digit:
  "128 \<le> b \<and> b < 192 \<and> a = v * 64 + b mod 64 \<longleftrightarrow> b = 128 + a mod 64 \<and> a div 64 = (v :: nat)"
proof
  assume l: "128 \<le> b \<and> b < 192 \<and> a = v * 64 + b mod 64"
  then obtain k where "b = 128 + k" "k < 64" using le_Suc_ex [of 128 b] by auto
  moreover from this have "(128 + k) mod 64 = k" using mod_mult_self1 [of k 2 64] by (simp add: add.commute)
  ultimately show "b = 128 + a mod 64 \<and> a div 64 = v" using l by simp
next
  assume r: "b = 128 + a mod 64 \<and> a div 64 = v"
  then have "b mod 64 = a mod 64" using mod_mult_self1 [of "a mod 64" 2 64] by (simp add: add.commute)
  then show "128 \<le> b \<and> b < 192 \<and> a = v * 64 + b mod 64" using r div_mult_mod_eq [of a 64] by auto
qed

lemma utf8_loop_Some:
  assumes "unat v < 2 ^ (32 - 6 * n)" and "n \<le> 5"
  shows "utf8_loop n v s = (Some w, r) \<longleftrightarrow> s = utf8_cont n (unat w) @ r \<and> unat w div 64 ^ n = unat v"
  using assms
proof (induction n arbitrary: v s)
  case 0
  then show ?case by (auto simp: word_unat_eq_iff)
next
  case (Suc n)
  show ?case
  proof (cases s)
    case (Cons c t)
    let ?v = "push_bit 6 v OR ucast (c AND BOTTOM_BITS 6)"
    have e: "32 - 6 * Suc n \<le> 26" "32 - 6 * n = 32 - 6 * Suc n + 6" using Suc.prems by auto
    have "unat v < 2 ^ 26" using Suc.prems(1) e(1) by (meson less_le_trans one_le_numeral power_increasing)
    then have v: "unat ?v = unat v * 64 + unat c mod 64" by (rule utf8_step)
    have "unat v * 64 + unat c mod 64 < (unat v + 1) * 64" by simp
    also have "\<dots> \<le> 2 ^ (32 - 6 * Suc n) * 64" using Suc.prems(1) by (intro mult_le_mono) auto
    also have "\<dots> = 2 ^ (32 - 6 * n)" unfolding e(2) power_add by simp
    finally have "unat ?v < 2 ^ (32 - 6 * n)" using v by simp
    note ih = Suc.IH [OF this, of t] Suc.prems(2)
    have c: "128 \<le> unat c \<and> unat c < 192 \<and> unat w div 64 ^ n = unat v * 64 + unat c mod 64 \<longleftrightarrow>
       c = word_of_nat (128 + unat w div 64 ^ n mod 64) \<and> unat w div 64 ^ Suc n = unat v"
    proof -
      let ?q = "unat w div 64 ^ n"
      have q: "unat w div 64 ^ Suc n = ?q div 64" by (metis div_mult2_eq power_Suc2)
      have "128 + ?q mod 64 < 256" using mod_less_divisor [of 64 ?q] by linarith
      then have eq: "c = word_of_nat (128 + ?q mod 64) \<longleftrightarrow> unat c = 128 + ?q mod 64"
        unfolding word_unat_eq_iff unat_byte_of_nat by simp
      show ?thesis unfolding q eq by (rule cont_digit)
    qed
    have "utf8_loop (Suc n) v s = (Some w, r) \<longleftrightarrow> 128 \<le> unat c \<and> unat c < 192 \<and> utf8_loop n ?v t = (Some w, r)"
      using Cons by (auto simp add: cont_byte [simplified])
    also have "\<dots> \<longleftrightarrow> t = utf8_cont n (unat w) @ r \<and>
        (128 \<le> unat c \<and> unat c < 192 \<and> unat w div 64 ^ n = unat v * 64 + unat c mod 64)"
      using ih v by auto
    also have "\<dots> \<longleftrightarrow> s = utf8_cont (Suc n) (unat w) @ r \<and> unat w div 64 ^ Suc n = unat v"
      unfolding c using Cons by (auto simp del: of_nat_add)
    finally show ?thesis .
  qed simp
qed

lemma utf8_tail_Some:
  assumes "unat v < 2 ^ (32 - 6 * n)" and "n \<le> 5"
  shows "utf8_tail n v lo s = (Some w, r) \<longleftrightarrow>
    s = utf8_cont n (unat w) @ r \<and> unat w div 64 ^ n = unat v \<and> is_valid_code_point w \<and> lo \<le> w"
proof -
  have "utf8_tail n v lo s = (Some w, r) \<longleftrightarrow> utf8_loop n v s = (Some w, r) \<and> is_valid_code_point w \<and> lo \<le> w"
    by (auto simp: utf8_tail_def rbind_def split: prod.splits option.splits if_splits)
  then show ?thesis using utf8_loop_Some [OF assms] by auto
qed

lemma valid_code_point_less: "is_valid_code_point w \<Longrightarrow> unat w < 0x110000"
  by (auto simp: is_valid_code_point_def word_less_nat_alt split: if_splits)

lemma valid_ascii: "unat w < 0x80 \<Longrightarrow> is_valid_code_point w"
proof -
  assume w: "unat w < 0x80"
  have "unat (w AND 0xfffe) \<le> unat w" by (metis word_and_le2 word_le_nat_alt)
  then have "w AND 0xfffe \<noteq> 0xfffe" using w by (auto simp: word_unat_eq_iff)
  then show ?thesis using w by (simp add: is_valid_code_point_def word_less_nat_alt word_le_nat_alt)
qed

text \<open>The lead byte holds the high bits of the code point above a base that fixes the length.\<close>

lemma lead_value:
  assumes "k \<le> 8" and "base mod 2 ^ k = 0" and "base + 2 ^ k \<le> 256"
  shows "base \<le> unat c \<and> unat c < base + 2 ^ k \<and> q = unat ((c :: byte) AND BOTTOM_BITS k) \<longleftrightarrow>
    c = word_of_nat (base + q) \<and> q < 2 ^ k"
proof -
  have m: "unat (c AND BOTTOM_BITS k) = unat c mod 2 ^ k" using assms(1) by (rule unat_and_BOTTOM)
  have sub: "unat c mod 2 ^ k = unat c - base" if "base \<le> unat c" "unat c < base + 2 ^ k"
  proof -
    have "unat c mod 2 ^ k = (base + (unat c - base)) mod 2 ^ k" using that by simp
    also have "\<dots> = (unat c - base) mod 2 ^ k" using assms(2) by (metis mod_add_left_eq add_0)
    finally show ?thesis using that by simp
  qed
  have add: "(base + q) mod 2 ^ k = q" if "q < 2 ^ k" using assms(2) that by (metis mod_add_left_eq add_0 mod_less)
  have u: "unat (word_of_nat (base + q) :: byte) = base + q" if "q < 2 ^ k"
    unfolding unat_byte_of_nat using that assms(3) by simp
  show ?thesis unfolding m
    using sub add u by (auto simp: word_unat_eq_iff)
qed

lemma utf8_lead_Some:
  assumes k: "k \<le> 5" and b: "base mod 2 ^ k = 0" "base + 2 ^ k \<le> 256" and n: "0 < n" "n \<le> 3"
  shows "base \<le> unat c \<and> unat c < base + 2 ^ k \<and> utf8_tail n (ucast (c AND BOTTOM_BITS k)) lo t = (Some w, r) \<longleftrightarrow>
    c # t = word_of_nat (base + unat w div 64 ^ n) # utf8_cont n (unat w) @ r \<and> is_valid_code_point w \<and> lo \<le> w \<and>
    unat w < 2 ^ k * 64 ^ n"
proof -
  have u: "unat (ucast (c AND BOTTOM_BITS k) :: u32) = unat (c AND BOTTOM_BITS k)"
    using unat_byte_less [of "c AND BOTTOM_BITS k"] by (simp add: unat_ucast_mod)
  have "unat (c AND BOTTOM_BITS k) < 2 ^ 8" using unat_byte_less [of "c AND BOTTOM_BITS k"] by simp
  also have "(2::nat) ^ 8 \<le> 2 ^ (32 - 6 * n)" using n by (intro power_increasing) auto
  finally have t: "utf8_tail n (ucast (c AND BOTTOM_BITS k)) lo t = (Some w, r) \<longleftrightarrow> t = utf8_cont n (unat w) @ r \<and>
      unat w div 64 ^ n = unat (c AND BOTTOM_BITS k) \<and> is_valid_code_point w \<and> lo \<le> w"
    using utf8_tail_Some [of "ucast (c AND BOTTOM_BITS k)" n lo t w r] n u by simp
  have "unat w div 64 ^ n < 2 ^ k \<longleftrightarrow> unat w < 2 ^ k * 64 ^ n" by (simp add: div_less_iff_less_mult)
  then show ?thesis unfolding t using lead_value [of k base c "unat w div 64 ^ n"] k b by auto
qed

lemma CBS_get_utf8_Some:
  "CBS_get_utf8 s = (Some w, r) \<longleftrightarrow> s = utf8 (unat w) @ r \<and> is_valid_code_point w"
proof (cases s)
  case Nil
  then show ?thesis by (auto simp: CBS_get_utf8_def rbind_def utf8_def)
next
  case (Cons c t)
  let ?tail = "\<lambda>n k lo. utf8_tail n (ucast (c AND BOTTOM_BITS k)) lo t"
  have g: "CBS_get_utf8 s =
    (if unat c < 128 then (Some (ucast c), t)
     else if 192 \<le> unat c \<and> unat c < 224 then ?tail 1 5 0x80 
     else if 224 \<le> unat c \<and> unat c < 240 then ?tail 2 4 0x800
     else if 240 \<le> unat c \<and> unat c < 248 then ?tail 3 3 0x10000 else (None, t))"
    using Cons by (simp add: CBS_get_utf8_def lead2 lead3 lead4 word_le_nat_alt not_less less_Suc_eq_le [symmetric])
  have v: "unat (ucast c :: u32) = unat c" using unat_byte_less [of c] by (simp add: unat_ucast_mod)
  have "CBS_get_utf8 s = (Some w, r) \<longleftrightarrow>
     (unat c < 128 \<and> w = ucast c \<and> r = t) \<or>
     (192 \<le> unat c \<and> unat c < 192 + 2 ^ 5 \<and> ?tail 1 5 0x80 = (Some w, r)) \<or>
     (224 \<le> unat c \<and> unat c < 224 + 2 ^ 4 \<and> ?tail 2 4 0x800 = (Some w, r)) \<or>
     (240 \<le> unat c \<and> unat c < 240 + 2 ^ 3 \<and> ?tail 3 3 0x10000 = (Some w, r))"
    unfolding g by auto
  also have "\<dots> \<longleftrightarrow> (unat w < 128 \<and> c # t = word_of_nat (unat w) # r) \<or>
     (c # t = word_of_nat (192 + unat w div 64) # utf8_cont 1 (unat w) @ r \<and> is_valid_code_point w \<and> 0x80 \<le> w \<and> unat w < 0x800) \<or>
     (c # t = word_of_nat (224 + unat w div 4096) # utf8_cont 2 (unat w) @ r \<and> is_valid_code_point w \<and> 0x800 \<le> w \<and> unat w < 0x10000) \<or>
     (c # t = word_of_nat (240 + unat w div 262144) # utf8_cont 3 (unat w) @ r \<and> is_valid_code_point w \<and> 0x10000 \<le> w \<and> unat w < 0x200000)"
  proof -
    have a: "unat c < 128 \<and> w = ucast c \<and> r = t \<longleftrightarrow> unat w < 128 \<and> c # t = word_of_nat (unat w) # r"
      using v by (auto simp: word_unat_eq_iff unat_ucast_mod unat_byte_of_nat)
    show ?thesis
      unfolding a using utf8_lead_Some [of 5 192 1 c "0x80" t w r] utf8_lead_Some [of 4 224 2 c "0x800" t w r]
        utf8_lead_Some [of 3 240 3 c "0x10000" t w r] by simp
  qed
  also have "\<dots> \<longleftrightarrow> s = utf8 (unat w) @ r \<and> is_valid_code_point w"
    using Cons valid_ascii [of w] valid_code_point_less [of w]
    by (auto simp: utf8_def word_le_nat_alt not_less)
  finally show ?thesis .
qed

subsection \<open>What the writers append\<close>

lemma top_or:
  assumes "n \<le> 8" and "q < 2 ^ (8 - n)"
  shows "TOP_BITS n OR word_of_nat q = word_of_nat (255 div 2 ^ (8 - n) * 2 ^ (8 - n) + q)"
proof -
  have "TOP_BITS n = word_of_nat (255 div 2 ^ (8 - n) * 2 ^ (8 - n))"
    by (metis assms(1) of_nat_unat ucast_id unat_TOP)
  then show ?thesis using word_or_arith [OF assms(2)] by (simp del: of_nat_add of_nat_mult)
qed

lemma ucast_of_nat_byte: "ucast (w :: u32) = (word_of_nat (unat w) :: byte)"
  by simp

lemma low_bits: "TOP_BITS 1 OR ucast (drop_bit k (u :: u32) AND ucast (BOTTOM_BITS 6)) = word_of_nat (128 + unat u div 2 ^ k mod 64)"
proof -
  have m: "(ucast (BOTTOM_BITS 6) :: u32) = mask 6"
    unfolding BOTTOM_BITS_mask [of 6, simplified] by (simp add: mask_eq_exp_minus_1)
  have "unat (drop_bit k u AND ucast (BOTTOM_BITS 6)) = unat u div 2 ^ k mod 64"
    using unat_and_mask [OF m, of "drop_bit k u"] by (simp add: unat_drop_bit)
  then show ?thesis unfolding ucast_of_nat_byte using top_or [of 1 "unat u div 2 ^ k mod 64"]
    by (simp add: less_trans [OF mod_less_divisor] del: of_nat_add of_nat_mult)
qed

lemma lead_bits: "n \<le> 8 \<Longrightarrow> unat u div 2 ^ k < 2 ^ (8 - n) \<Longrightarrow>
  TOP_BITS n OR ucast (drop_bit k (u :: u32)) = word_of_nat (255 div 2 ^ (8 - n) * 2 ^ (8 - n) + unat u div 2 ^ k)"
  unfolding ucast_of_nat_byte unat_drop_bit by (rule top_or)

lemma utf8_cont_unfold:
  "utf8_cont 1 w = [word_of_nat (128 + w mod 64)]"
  "utf8_cont 2 w = [word_of_nat (128 + w div 64 mod 64), word_of_nat (128 + w mod 64)]"
  "utf8_cont 3 w = [word_of_nat (128 + w div 4096 mod 64), word_of_nat (128 + w div 64 mod 64), word_of_nat (128 + w mod 64)]"
  by (simp_all add: numeral_2_eq_2 numeral_3_eq_3)

lemma CBB_add_utf8_eq:
  assumes "is_valid_code_point u"
  shows "CBB_add_utf8 al d u = add_each al d (utf8 (unat u))"
proof -
  have lt: "unat u < 0x110000" using assms by (rule valid_code_point_less)
  have l2: "unat u < 0x800 \<Longrightarrow> TOP_BITS 2 OR ucast (drop_bit 6 u) = word_of_nat (192 + unat u div 64)"
    using lead_bits [of 2 u 6] by (simp add: less_mult_imp_div_less del: of_nat_add of_nat_mult)
  have l3: "unat u < 0x10000 \<Longrightarrow> TOP_BITS 3 OR ucast (drop_bit 12 u) = word_of_nat (224 + unat u div 4096)"
    using lead_bits [of 3 u 12] by (simp add: less_mult_imp_div_less del: of_nat_add of_nat_mult)
  have l4: "TOP_BITS 4 OR ucast (drop_bit 18 u) = word_of_nat (240 + unat u div 262144)"
    using lead_bits [of 4 u 18] lt by (simp add: less_mult_imp_div_less del: of_nat_add of_nat_mult)
  have lo: "TOP_BITS 1 OR ucast (drop_bit k u AND ucast (BOTTOM_BITS 6)) = word_of_nat (128 + unat u div 2 ^ k mod 64)" for k
    by (rule low_bits)
  have le: "u \<le> 0x7f \<longleftrightarrow> unat u < 0x80" "u \<le> 0x7ff \<longleftrightarrow> unat u < 0x800" "u \<le> 0xffff \<longleftrightarrow> unat u < 0x10000"
    "u \<le> 0x10ffff \<longleftrightarrow> unat u < 0x110000"
    by (auto simp: word_le_nat_alt)
  show ?thesis
    using assms lt l2 l3 l4 lo [of 0] lo [of 6] lo [of 12]
    unfolding CBB_add_utf8_def utf8_def Let_def le utf8_cont_unfold
    by (simp del: of_nat_add of_nat_mult)
qed

interpretation utf8_codec: codec CBS_get_utf8 CBB_add_utf8 "\<lambda>u. utf8 (unat u)" is_valid_code_point
proof unfold_locales
  show "exact_reader CBS_get_utf8"
  proof (rule exact_readerI)
    fix s w r
    assume "CBS_get_utf8 s = (Some w, r)"
    then show "\<exists>p. s = p @ r \<and> (\<forall>t. CBS_get_utf8 (p @ t) = (Some w, t))" by (auto simp: CBS_get_utf8_Some)
  next
    have loop: "suffix r s" if "utf8_loop n v s = (x, r)" for n v s x r
      using that
    proof (induction n arbitrary: v s)
      case (Suc n)
      then show ?case by (cases s) (auto split: if_splits intro: suffix_ConsI)
    qed simp
    have tail: "suffix r s" if "utf8_tail n v lo s = (x, r)" for n v lo s x r
      using that loop [of n v s] by (auto simp: utf8_tail_def rbind_def split: prod.splits option.splits if_splits)
    fix s r
    assume "CBS_get_utf8 s = (None, r)"
    then show "suffix r s"
      by (cases s) (auto simp: CBS_get_utf8_def split: if_splits dest: tail intro: suffix_ConsI)
  qed
next
  fix al d u assume "allocates al" "is_valid_code_point u"
  then show "appends al d (CBB_add_utf8 al d u) (utf8 (unat u))"
    unfolding CBB_add_utf8_eq [OF \<open>is_valid_code_point u\<close>] by (intro add_each_appends) (simp_all add: utf8_def)
qed (simp add: CBS_get_utf8_Some)

interpretation latin1_codec: codec CBS_get_latin1 CBB_add_latin1 "\<lambda>u. [ucast u]" "\<lambda>u. unat u < 0x100"
proof unfold_locales
  show "exact_reader CBS_get_latin1" unfolding CBS_get_latin1_def by (intro reader_intros)
next
  fix al d and u :: u32 assume "allocates al" "unat u < 0x100"
  then show "appends al d (CBB_add_latin1 al d u) [ucast u]" by (simp add: CBB_add_latin1_def word_le_nat_alt u8_appends)
next
  fix u :: u32 and r assume "unat u < 0x100"
  then have "ucast (ucast u :: byte) = u" unfolding word_unat_eq_iff by (simp add: unat_ucast_mod)
  then show "CBS_get_latin1 ([ucast u] @ r) = (Some u, r)" by (simp add: CBS_get_latin1_def)
qed

interpretation ucs2_codec: codec CBS_get_ucs2_be CBB_add_ucs2_be "\<lambda>u. be_bytes 2 (unat u)"
  "\<lambda>u. unat u < 0x10000 \<and> is_valid_code_point u"
proof unfold_locales
  show "exact_reader CBS_get_ucs2_be" unfolding CBS_get_ucs2_be_def by (intro reader_intros)
next
  fix al d u assume *: "allocates al" "unat u < 0x10000 \<and> is_valid_code_point u"
  then have "unat (ucast u :: u16) = unat u" by (simp add: unat_ucast_mod)
  then show "appends al d (CBB_add_ucs2_be al d u) (be_bytes 2 (unat u))"
    using * u16_codec.put_appends [of al d "ucast u"] by (simp add: CBB_add_ucs2_be_def word_le_nat_alt)
next
  fix u r assume *: "unat u < 0x10000 \<and> is_valid_code_point u"
  then have "unat (ucast u :: u16) = unat u" by (simp add: unat_ucast_mod)
  then have "CBS_get_u16 (be_bytes 2 (unat u) @ r) = (Some (ucast u), r)" "ucast (ucast u :: u16) = u"
    using u16_codec.get_enc [of "ucast u" r] by (simp_all add: word_unat_eq_iff unat_ucast_mod)
  then show "CBS_get_ucs2_be (be_bytes 2 (unat u) @ r) = (Some u, r)" using * by (simp add: CBS_get_ucs2_be_def)
qed

interpretation utf32_codec: codec CBS_get_utf32_be CBB_add_utf32_be "\<lambda>u. be_bytes 4 (unat u)" is_valid_code_point
proof unfold_locales
  show "exact_reader CBS_get_utf32_be" unfolding CBS_get_utf32_be_def by (intro reader_intros)
next
  fix al d u assume "allocates al" "is_valid_code_point u"
  then show "appends al d (CBB_add_utf32_be al d u) (be_bytes 4 (unat u))"
    using u32_codec.put_appends [of al d u] by (simp add: CBB_add_utf32_be_def)
next
  fix u r assume "is_valid_code_point u"
  then show "CBS_get_utf32_be (be_bytes 4 (unat u) @ r) = (Some u, r)"
    using u32_codec.get_enc [of u r] by (simp add: CBS_get_utf32_be_def)
qed

lemma length_utf8: "is_valid_code_point u \<Longrightarrow> length (utf8 (unat u)) = CBB_get_utf8_len u"
  using valid_code_point_less [of u] by (auto simp: utf8_def CBB_get_utf8_len_def word_le_nat_alt utf8_cont_unfold)

end
