(* ===== verification/Set_Of.thy ===== *)
theory Set_Of
  imports Cbb_Asn1 "HOL-Library.List_Lexorder" "HOL-Library.Multiset"
begin

text \<open>
  \<open>CBB_flush_asn1_set_of\<close> of \<open>crypto/bytestring/cbb.c\<close>: the elements written to an object are
  parsed back, sorted by their encodings as DER demands for a SET OF, and written over the
  old contents. \<open>qsort\<close> is an insertion sort with the comparison function of the source; the
  comparison is proved to be the lexicographic order on byte strings, so any sorting
  algorithm gives the same result.
\<close>

definition compare_set_of_element :: "cbs \<Rightarrow> cbs \<Rightarrow> int" where
  "compare_set_of_element a b =
     (let a_len = length a; b_len = length b; min_len = (if a_len < b_len then a_len else b_len);
          ret = OPENSSL_memcmp a b min_len
      in if ret \<noteq> 0 then ret else if a_len = b_len then 0 else if a_len < b_len then - 1 else 1)"

fun insert_by :: "('a \<Rightarrow> 'a \<Rightarrow> int) \<Rightarrow> 'a \<Rightarrow> 'a list \<Rightarrow> 'a list" where
  "insert_by cmp x [] = [x]"
| "insert_by cmp x (y # ys) = (if cmp x y \<le> 0 then x # y # ys else y # insert_by cmp x ys)"

definition qsort :: "('a \<Rightarrow> 'a \<Rightarrow> int) \<Rightarrow> 'a list \<Rightarrow> 'a list" where
  "qsort cmp xs = foldr (insert_by cmp) xs []"

text \<open>The two loops that walk over the elements: counting them, and collecting them.\<close>

lemma any_element_consumes: "CBS_get_any_asn1_element s = (Some e, r) \<Longrightarrow> s = el_out e @ r \<and> el_out e \<noteq> []"
  using length_der_tag(2) [of "el_tag e"] by (auto simp: CBS_get_any_asn1_element_Some der_header_def der_element_def)

function split_elements :: "cbs \<Rightarrow> cbs list option" where
  "split_elements cbs =
     (if length cbs \<noteq> 0
      then (case CBS_get_any_asn1_element cbs of
              (None, _) \<Rightarrow> None
            | (Some e, rest) \<Rightarrow> map_option (\<lambda>es. el_out e # es) (split_elements rest))
      else Some [])"
  by pat_completeness auto
termination
  by (relation "measure length") (auto dest!: any_element_consumes [OF sym])

declare split_elements.simps [simp del]

fun write_children :: "nat \<Rightarrow> cbs list \<Rightarrow> cbb \<Rightarrow> cbb" where
  "write_children offset [] s = s"
| "write_children offset (c # cs) s = write_children (offset + length c) cs (write_buf offset c s)"

text \<open>\<open>sizeof(CBS)\<close> is 16.\<close>

definition CBB_flush_asn1_set_of :: "allocator \<Rightarrow> nat \<Rightarrow> cbb \<Rightarrow> bool \<times> cbb" where
  "CBB_flush_asn1_set_of al d s =
     (case CBB_flush al d s of
        (False, s) \<Rightarrow> (False, s)
      | (True, s) \<Rightarrow>
        (case split_elements (CBB_data d s) of
           None \<Rightarrow> (False, put_error ERR_R_SHOULD_NOT_HAVE_BEEN_CALLED s)
         | Some counted \<Rightarrow>
           let num_children = length counted
           in if num_children < 2 then (True, s)
              else (case (OPENSSL_memdup al (CBB_data d s), al (num_children * 16)) of
                      (Some buf, Some _) \<Rightarrow>
                        (case split_elements buf of
                           None \<Rightarrow> (False, s)
                         | Some children \<Rightarrow>
                             (True, write_children (CBB_start d s) (qsort compare_set_of_element children) s))
                    | _ \<Rightarrow> (False, s))))"

subsection \<open>The order\<close>

lemma memcmp_lex:
  "compare_set_of_element a b \<le> 0 \<longleftrightarrow> a \<le> b"
proof (induction a arbitrary: b)
  case Nil
  then show ?case by (cases b) (simp_all add: compare_set_of_element_def)
next
  case (Cons x a)
  then show ?case
  proof (cases b)
    case (Cons y b')
    then show ?thesis using Cons.IH [of b']
      by (auto simp: compare_set_of_element_def Let_def)
  qed (simp add: compare_set_of_element_def)
qed

lemma insert_by_insort: "insert_by compare_set_of_element x ys = insort x ys"
  by (induction ys) (simp_all add: memcmp_lex)

lemma qsort_sort: "qsort compare_set_of_element xs = sort xs"
  by (induction xs) (simp_all add: qsort_def insert_by_insort)

subsection \<open>Splitting and joining\<close>

lemma split_elements_concat: "split_elements s = Some es \<Longrightarrow> concat es = s"
proof (induction s arbitrary: es rule: split_elements.induct)
  case (1 s)
  show ?case
  proof (cases "s = []")
    case True
    with 1(2) show ?thesis by (simp add: split_elements.simps)
  next
    case False
    with 1(2) obtain e r es' where e: "CBS_get_any_asn1_element s = (Some e, r)"
      and es': "split_elements r = Some es'" "es = el_out e # es'"
      by (auto simp: split_elements.simps [of s] split: prod.splits option.splits)
    from 1(1) [OF _ e [symmetric] refl es'(1)] False any_element_consumes [OF e] es'(2) show ?thesis by simp
  qed
qed

lemma split_elements_complete:
  assumes "\<And>e. e \<in> set es \<Longrightarrow> \<exists>x. CBS_get_any_asn1_element e = (Some x, [])"
  shows "split_elements (concat es) = Some es"
  using assms
proof (induction es)
  case Nil
  then show ?case by (simp add: split_elements.simps)
next
  case (Cons e es)
  then obtain x where x: "CBS_get_any_asn1_element e = (Some x, [])" by auto
  then have "e = el_out x" "e \<noteq> []" using any_element_consumes [OF x] by auto
  moreover have "CBS_get_any_asn1_element (e @ concat es) = (Some x, concat es)"
    using any_element.frame [OF x] by simp
  ultimately have "split_elements (e @ concat es) = map_option (\<lambda>es. el_out x # es) (split_elements (concat es))"
    by (subst split_elements.simps) simp
  with Cons \<open>e = el_out x\<close> show ?case by simp
qed

lemma write_children_spec:
  assumes "cbb_inv s" and "off + length (concat cs) \<le> cbb_len (cbb_base s)"
  shows "write_children off cs s = write_buf off (concat cs) s"
  using assms
proof (induction cs arbitrary: off s)
  case Nil
  then show ?case by (simp add: write_buf_def)
next
  case (Cons c cs)
  have "cbb_inv (write_buf off c s)" using Cons.prems by (intro write_buf_spec) simp_all
  then have "write_children (off + length c) cs (write_buf off c s) = write_buf (off + length c) (concat cs) (write_buf off c s)"
    using Cons.prems by (intro Cons.IH) simp_all
  also have "\<dots> = write_buf off (c @ concat cs) s"
    using Cons.prems by (intro write_buf_append) simp_all
  finally show ?case by simp
qed

lemma length_concat_sort: "length (concat (sort xs)) = length (concat xs)"
proof -
  have "mset (map length (sort xs)) = mset (map length xs)" by simp
  then have "sum_list (map length (sort xs)) = sum_list (map length xs)" by (metis sum_mset_sum_list)
  then show ?thesis by (simp add: length_concat)
qed

lemma CBB_data_contents: "cbb_inv s \<Longrightarrow> CBB_start d s \<le> cbb_len (cbb_base s) \<Longrightarrow> CBB_data d s = drop (CBB_start d s) (contents s)"
  by (simp add: CBB_data_def CBB_len_def contents_def drop_take)

lemma chain_start_le:
  "chain_ok lo cs n \<Longrightarrow> k < length cs \<Longrightarrow> ch_offset (cs ! k) + pending_len_len (cs ! k) \<le> n"
proof (induction cs arbitrary: lo k)
  case (Cons c cs)
  then show ?case by (cases k) (auto dest: chain_ok_le)
qed simp

lemma CBB_start_le: "cbb_inv s \<Longrightarrow> d \<le> length (cbb_chain s) \<Longrightarrow> CBB_start d s \<le> cbb_len (cbb_base s)"
  using chain_start_le [of 0 "cbb_chain s" "cbb_len (cbb_base s)" "d - 1"] by (auto simp: CBB_start_def cbb_inv_def)

text \<open>On success the contents of the object are its elements in ascending order.\<close>

lemma flush_set_of_spec:
  assumes al: "allocates al" and inv: "cbb_inv s" and r: "CBB_flush_asn1_set_of al d s = (True, s')"
  obtains m pre es where "flushed (drop d (cbb_chain s)) (contents s) = Some m"
    and "m = pre @ concat es" and "contents s' = pre @ concat (sort es)" and "cbb_inv s'"
    and "length pre = CBB_start d s" and "split_elements (concat es) = Some es"
proof -
  obtain ok1 s1 where f: "CBB_flush al d s = (ok1, s1)" by fastforce
  with r have ok1: ok1 by (cases ok1) (auto simp: CBB_flush_asn1_set_of_def)
  have sp: "cbb_inv s1" "d \<le> length (cbb_chain s)" "cbb_chain s1 = take d (cbb_chain s)"
      "flushed (drop d (cbb_chain s)) (contents s) = Some (contents s1)"
    using CBB_flush_spec [OF al inv f] ok1 by auto
  have st: "CBB_start d s1 = CBB_start d s" using sp(2,3) by (cases d) (auto simp: CBB_start_def)
  have le: "CBB_start d s1 \<le> cbb_len (cbb_base s1)" using sp by (intro CBB_start_le) simp_all
  have dat: "CBB_data d s1 = drop (CBB_start d s) (contents s1)" using CBB_data_contents [OF sp(1) le] st by simp
  let ?pre = "take (CBB_start d s) (contents s1)"
  have lpre: "length ?pre = CBB_start d s" using le st sp(1) by (simp add: length_contents)
  from r f ok1 obtain es where es: "split_elements (CBB_data d s1) = Some es"
    by (auto simp: CBB_flush_asn1_set_of_def split: option.splits)
  have cat: "concat es = CBB_data d s1" using es by (rule split_elements_concat)
  have m: "contents s1 = ?pre @ concat es" using cat dat by simp
  show thesis
  proof (cases "length es < 2")
    case True
    then have "s' = s1" using r f ok1 es by (simp add: CBB_flush_asn1_set_of_def)
    moreover have "sort es = es" using True by (cases es; cases "tl es") auto
    ultimately show ?thesis using that [of "contents s1" ?pre es] sp m lpre es cat by simp
  next
    case False
    obtain buf x where b: "OPENSSL_memdup al (CBB_data d s1) = Some buf" "al (length es * 16) = Some x"
      using r f ok1 es False by (auto simp: CBB_flush_asn1_set_of_def Let_def split: option.splits)
    then have buf: "buf = CBB_data d s1" using al by (auto simp: memdup_copy)
    have "s' = write_children (CBB_start d s1) (sort es) s1"
      using r f ok1 es False b buf by (simp add: CBB_flush_asn1_set_of_def Let_def qsort_sort)
    moreover have fit: "CBB_start d s1 + length (concat (sort es)) \<le> cbb_len (cbb_base s1)"
      using cat dat le st sp(1) by (simp only: length_concat_sort) (simp add: length_contents)
    ultimately have s': "s' = write_buf (CBB_start d s1) (concat (sort es)) s1"
      using write_children_spec [OF sp(1)] by simp
    have "contents s' = ?pre @ concat (sort es) @ drop (CBB_start d s + length (concat (sort es))) (contents s1)"
      using write_prefix(1) [OF sp(1) fit] s' st by simp
    also have "drop (CBB_start d s + length (concat (sort es))) (contents s1) = []"
      using cat dat le st sp(1) by (simp only: length_concat_sort) (simp add: length_contents)
    finally have "contents s' = ?pre @ concat (sort es)" by simp
    then show ?thesis using that [of "contents s1" ?pre es] sp m lpre es cat write_prefix(2) [OF sp(1) fit] s' by simp
  qed
qed

end
