(* ===== verification/Cbb_Machine.thy ===== *)
theory Cbb_Machine
  imports Oid Unicode Set_Of
begin

text \<open>
  The builder as a state machine: the operations of \<open>cbb.c\<close> and \<open>unicode.c\<close> that change a \<open>CBB\<close>,
  called in any order on any object of the chain, from \<open>CBB_init\<close> or \<open>CBB_init_fixed\<close>. All
  reachable states keep the invariant of the buffer, so no operation writes outside it; a fixed
  buffer keeps its capacity; and an error is never forgotten.
\<close>

datatype cbb_op =
    Flush nat
  | Add_bytes nat "byte list"
  | Add_zeros nat nat
  | Add_space nat nat
  | Reserve nat nat
  | Did_write nat nat
  | Add_u8 nat byte
  | Add_u16 nat u16
  | Add_u16le nat u16
  | Add_u24 nat u32
  | Add_u32 nat u32
  | Add_u32le nat u32
  | Add_u64 nat u64
  | Add_u64le nat u64
  | Add_length_prefixed nat nat
  | Discard_child nat
  | Add_asn1 nat u32
  | Add_asn1_uint64 nat u64
  | Add_asn1_int64 nat u64
  | Add_asn1_octet_string nat "byte list"
  | Add_asn1_bool nat bool
  | Add_asn1_oid_from_text nat "byte list"
  | Flush_asn1_set_of nat
  | Add_utf8 nat u32
  | Add_latin1 nat u32
  | Add_ucs2_be nat u32
  | Add_utf32_be nat u32

text \<open>The sizes a caller passes are values of \<open>size_t\<close>; the length prefixes have one to three bytes.\<close>

fun op_ok :: "cbb_op \<Rightarrow> bool" where
  "op_ok (Add_bytes d bs) \<longleftrightarrow> length bs < size_mod"
| "op_ok (Add_zeros d n) \<longleftrightarrow> n < size_mod"
| "op_ok (Add_space d n) \<longleftrightarrow> n < size_mod"
| "op_ok (Reserve d n) \<longleftrightarrow> n < size_mod"
| "op_ok (Did_write d n) \<longleftrightarrow> n < size_mod"
| "op_ok (Add_length_prefixed d n) \<longleftrightarrow> n \<in> {1, 2, 3}"
| "op_ok (Add_asn1_octet_string d bs) \<longleftrightarrow> length bs < size_mod"
| "op_ok _ \<longleftrightarrow> True"

text \<open>
  One call. The functions that follow \<open>base\<close> without asking \<open>CBB_flush\<close> first need an open object:
  \<open>CBB_did_write\<close>, and those that end in \<open>cbb_on_error\<close> when they fail. The call is \<open>Undef\<close> on a
  flushed child, where that pointer is NULL.
\<close>

definition returns :: "(cbb \<Rightarrow> bool \<times> cbb) \<Rightarrow> cbb \<Rightarrow> (bool \<times> cbb) c_result" where
  "returns f s = Ret (f s)"

definition if_open :: "nat \<Rightarrow> (cbb \<Rightarrow> bool \<times> cbb) \<Rightarrow> cbb \<Rightarrow> (bool \<times> cbb) c_result" where
  "if_open d f s = (if d > length (cbb_chain s) then Undef else Ret (f s))"

fun cbb_exec :: "allocator \<Rightarrow> cbb_op \<Rightarrow> cbb \<Rightarrow> (bool \<times> cbb) c_result" where
  "cbb_exec al (Flush d) = returns (CBB_flush al d)"
| "cbb_exec al (Add_bytes d bs) = returns (CBB_add_bytes al d bs)"
| "cbb_exec al (Add_zeros d n) = returns (CBB_add_zeros al d n)"
| "cbb_exec al (Add_space d n) = returns (CBB_add_space al d n)"
| "cbb_exec al (Reserve d n) = returns (CBB_reserve al d n)"
| "cbb_exec al (Did_write d n) = CBB_did_write d n"
| "cbb_exec al (Add_u8 d v) = returns (CBB_add_u8 al d v)"
| "cbb_exec al (Add_u16 d v) = returns (CBB_add_u16 al d v)"
| "cbb_exec al (Add_u16le d v) = returns (CBB_add_u16le al d v)"
| "cbb_exec al (Add_u24 d v) = returns (CBB_add_u24 al d v)"
| "cbb_exec al (Add_u32 d v) = returns (CBB_add_u32 al d v)"
| "cbb_exec al (Add_u32le d v) = returns (CBB_add_u32le al d v)"
| "cbb_exec al (Add_u64 d v) = returns (CBB_add_u64 al d v)"
| "cbb_exec al (Add_u64le d v) = returns (CBB_add_u64le al d v)"
| "cbb_exec al (Add_length_prefixed d n) = returns (cbb_add_length_prefixed al d n)"
| "cbb_exec al (Discard_child d) = returns (\<lambda>s. (True, CBB_discard_child d s))"
| "cbb_exec al (Add_asn1 d tag) = returns (CBB_add_asn1 al d tag)"
| "cbb_exec al (Add_asn1_uint64 d v) = if_open d (CBB_add_asn1_uint64 al d v)"
| "cbb_exec al (Add_asn1_int64 d v) = if_open d (CBB_add_asn1_int64 al d v)"
| "cbb_exec al (Add_asn1_octet_string d bs) = if_open d (CBB_add_asn1_octet_string al d bs)"
| "cbb_exec al (Add_asn1_bool d v) = if_open d (CBB_add_asn1_bool al d v)"
| "cbb_exec al (Add_asn1_oid_from_text d t) = returns (CBB_add_asn1_oid_from_text al d t)"
| "cbb_exec al (Flush_asn1_set_of d) = returns (CBB_flush_asn1_set_of al d)"
| "cbb_exec al (Add_utf8 d u) = returns (CBB_add_utf8 al d u)"
| "cbb_exec al (Add_latin1 d u) = returns (CBB_add_latin1 al d u)"
| "cbb_exec al (Add_ucs2_be d u) = returns (CBB_add_ucs2_be al d u)"
| "cbb_exec al (Add_utf32_be d u) = returns (CBB_add_utf32_be al d u)"

text \<open>
  A step, labelled with what the operation returned, and the states a program can reach. A call
  without a defined result is no step.
\<close>

inductive cbb_step :: "allocator \<Rightarrow> cbb \<Rightarrow> bool \<Rightarrow> cbb \<Rightarrow> bool" for al where
  exec: "op_ok op \<Longrightarrow> cbb_exec al op s = Ret (ok, s') \<Longrightarrow> cbb_step al s ok s'"

inductive_cases cbb_stepE [elim!]: "cbb_step al s ok s'"

inductive cbb_reach :: "allocator \<Rightarrow> cbb \<Rightarrow> cbb \<Rightarrow> bool" for al where
  reach_start: "cbb_reach al s s"
| reach_next: "cbb_reach al s s' \<Longrightarrow> cbb_step al s' ok s'' \<Longrightarrow> cbb_reach al s s''"

subsection \<open>What an operation keeps\<close>

definition frame :: "cbb \<Rightarrow> cbb \<Rightarrow> bool" where
  "frame s s' \<longleftrightarrow> can_resize (cbb_base s') = can_resize (cbb_base s) \<and>
     (cbb_error (cbb_base s) \<longrightarrow> cbb_error (cbb_base s')) \<and>
     (\<not> can_resize (cbb_base s) \<longrightarrow> cbb_cap (cbb_base s') = cbb_cap (cbb_base s))"

lemma frame_refl [simp]: "frame s s"
  by (simp add: frame_def)

lemma frame_trans [trans]: "frame s s' \<Longrightarrow> frame s' s'' \<Longrightarrow> frame s s''"
  by (simp add: frame_def)

lemma frame_updates [simp]:
  "frame s (put_error r s)" "frame s (set_error s)" "frame s (cbb_on_error d s)"
  "frame s (write_buf off bs s)" "frame s (s\<lparr>cbb_chain := c\<rparr>)"
  "frame s (s\<lparr>cbb_base := (cbb_base s)\<lparr>cbb_len := n\<rparr>\<rparr>)"
  by (simp_all add: frame_def put_error_def set_error_def cbb_on_error_def write_buf_def)

lemma frame_then [simp]:
  "frame s s' \<Longrightarrow> frame s (put_error r s')" "frame s s' \<Longrightarrow> frame s (set_error s')"
  "frame s s' \<Longrightarrow> frame s (cbb_on_error d s')" "frame s s' \<Longrightarrow> frame s (write_buf off bs s')"
  "frame s s' \<Longrightarrow> frame s (s'\<lparr>cbb_chain := c\<rparr>)"
  "frame s s' \<Longrightarrow> frame s (s'\<lparr>cbb_base := (cbb_base s')\<lparr>cbb_len := n\<rparr>\<rparr>)"
  by (blast intro: frame_trans frame_updates)+

lemma frame_reserve: "frame s (snd (cbb_buffer_reserve al n s))"
  by (simp add: cbb_buffer_reserve_def Let_def frame_def put_error_def set_error_def split: option.split)

lemma frame_buffer_add: "frame s (snd (cbb_buffer_add al n s))"
  using frame_reserve [of s al n] by (cases "cbb_buffer_reserve al n s") (simp add: cbb_buffer_add_def split: bool.split)

lemma frame_put_length: "frame s (snd (put_length n off v s))"
proof (induction n arbitrary: v s)
  case (Suc n)
  show ?case using frame_trans [OF frame_updates(4) Suc.IH] by simp
qed simp

text \<open>The end of \<open>flush_child\<close>, the same for both kinds of length.\<close>

lemma frame_close:
  assumes "frame s t"
  shows "frame s (snd (case put_length n off v t of (rest, u) \<Rightarrow>
    if rest \<noteq> 0 then (False, cbb_on_error d (put_error ERR_R_OVERFLOW u)) else (True, u\<lparr>cbb_chain := take d (cbb_chain u)\<rparr>)))"
  using frame_trans [OF assms frame_put_length [of t n off v]] by (cases "put_length n off v t") simp

lemma frame_moved:
  assumes "frame s (snd m)"
  shows "frame s (snd (case m of (False, s') \<Rightarrow> (False, cbb_on_error d s')
    | (True, s') \<Rightarrow> (case put_length n off v (write_buf o1 bs s') of (rest, u) \<Rightarrow>
        if rest \<noteq> 0 then (False, cbb_on_error d (put_error ERR_R_OVERFLOW u)) else (True, u\<lparr>cbb_chain := take d (cbb_chain u)\<rparr>))))"
proof -
  obtain ok1 s1 where m: "m = (ok1, s1)" by fastforce
  then have "frame s (write_buf o1 bs s1)" using assms by simp
  from frame_close [OF this, of d n off v] show ?thesis using m assms by (cases ok1) simp_all
qed

lemma frame_flush_child: "frame s (snd (flush_child al d c s))"
proof -
  have m: "frame s (snd (if P then (case cbb_buffer_add al n s of (False, s') \<Rightarrow> (False, s')
      | (True, s') \<Rightarrow> (True, write_buf off (take l (drop k (cbb_buf (cbb_base s')))) s')) else (True, s)))" for P n off l k
    using frame_buffer_add [of s al n] by (cases "cbb_buffer_add al n s") (simp split: bool.split)
  show ?thesis
    unfolding flush_child_def Let_def if_distrib [of snd] if_distrib [of "frame s"]
    by (simp only: frame_moved [OF m] frame_close [OF frame_refl] frame_then frame_refl snd_conv if_cancel)
qed

lemma frame_flush: "frame s (snd (CBB_flush al d s))"
proof (induction al d s rule: CBB_flush.induct)
  case (1 al d s)
  show ?case
  proof (cases "d > length (cbb_chain s) \<or> cbb_error (cbb_base s) \<or> d = length (cbb_chain s)")
    case True
    then show ?thesis by (subst CBB_flush.simps) auto
  next
    case False
    obtain ok1 s1 where 1: "CBB_flush al (Suc d) s = (ok1, s1)" by fastforce
    have s1: "frame s s1" using "1.IH" False 1 by simp
    then show ?thesis using False 1 frame_trans [OF s1 frame_flush_child]
      by (subst CBB_flush.simps) (simp split: bool.split)
  qed
qed

text \<open>
  \<open>safe\<close> operations keep the invariant and the frame; sequences of safe operations are safe.
\<close>

definition safe :: "(cbb \<Rightarrow> bool \<times> cbb) \<Rightarrow> bool" where
  "safe f \<longleftrightarrow> (\<forall>s. cbb_inv s \<longrightarrow> cbb_inv (snd (f s)) \<and> frame s (snd (f s)))"

named_theorems safe_intros

lemma safeD: "safe f \<Longrightarrow> cbb_inv s \<Longrightarrow> f s = (ok, s') \<Longrightarrow> cbb_inv s' \<and> frame s s'"
  unfolding safe_def by (metis snd_conv)

lemma safeI: "(\<And>s ok s'. cbb_inv s \<Longrightarrow> f s = (ok, s') \<Longrightarrow> cbb_inv s' \<and> frame s s') \<Longrightarrow> safe f"
  unfolding safe_def by (metis prod.collapse)

lemma safe_seq [safe_intros]: "safe f \<Longrightarrow> safe g \<Longrightarrow> safe (cbb_seq f g)"
proof (rule safeI)
  fix s ok s' assume f: "safe f" and g: "safe g" and inv: "cbb_inv s" and r: "cbb_seq f g s = (ok, s')"
  obtain ok1 s1 where 1: "f s = (ok1, s1)" by fastforce
  have s1: "cbb_inv s1" "frame s s1" using safeD [OF f inv 1] by simp_all
  show "cbb_inv s' \<and> frame s s'"
    using safeD [OF g s1(1)] r 1 s1 frame_trans [OF s1(2)] by (cases ok1) (simp_all add: cbb_seq_apply)
qed

lemma safe_or_error [safe_intros]: "safe f \<Longrightarrow> safe (or_error d f)"
proof (rule safeI)
  fix s ok s' assume f: "safe f" and inv: "cbb_inv s" and r: "or_error d f s = (ok, s')"
  obtain ok1 s1 where 1: "f s = (ok1, s1)" by fastforce
  have s1: "cbb_inv s1" "frame s s1" using safeD [OF f inv 1] by simp_all
  show "cbb_inv s' \<and> frame s s'" using r 1 s1 by (cases ok1) (auto simp: or_error_def)
qed

lemma safe_if [safe_intros]: "safe f \<Longrightarrow> safe g \<Longrightarrow> safe (if P then f else g)"
  by simp

lemma safe_constant [safe_intros]: "safe cbb_nop" "safe cbb_fail" "safe (\<lambda>s. (False, s))"
  by (simp_all add: safe_def cbb_nop_def cbb_fail_def)

lemma safe_flush [safe_intros]: "allocates al \<Longrightarrow> safe (CBB_flush al d)"
  unfolding safe_def using CBB_flush_spec [of al _ d] frame_flush by (metis prod.collapse)

lemma safe_buffer_add: "allocates al \<Longrightarrow> n < size_mod \<Longrightarrow> safe (cbb_buffer_add al n)"
  unfolding safe_def using buffer_add_spec(1) [of al _ n] frame_buffer_add by (metis prod.collapse)

lemma safe_buffer_reserve: "allocates al \<Longrightarrow> n < size_mod \<Longrightarrow> safe (cbb_buffer_reserve al n)"
  unfolding safe_def using reserve_spec(1) [of al _ n] frame_reserve by (metis prod.collapse)

lemma safe_fill: "allocates al \<Longrightarrow> length bs < size_mod \<Longrightarrow> safe (cbb_seq (cbb_buffer_add al (length bs)) (fill_space bs))"
proof (rule safeI)
  fix s ok s' assume al: "allocates al" and n: "length bs < size_mod" and inv: "cbb_inv s"
    and r: "cbb_seq (cbb_buffer_add al (length bs)) (fill_space bs) s = (ok, s')"
  obtain ok1 s1 where 1: "cbb_buffer_add al (length bs) s = (ok1, s1)" by fastforce
  have "frame s s1" using frame_buffer_add [of s al "length bs"] 1 by simp
  then have "frame s s'" using r 1 by (cases ok1) (auto simp: cbb_seq_apply fill_space_def)
  then show "cbb_inv s' \<and> frame s s'" using buffer_fill_spec(1) [OF al inv n r] by simp
qed

lemma safe_add_bytes [safe_intros]: "allocates al \<Longrightarrow> length bs < size_mod \<Longrightarrow> safe (CBB_add_bytes al d bs)"
  unfolding CBB_add_bytes_seq by (intro safe_seq safe_flush safe_fill)

lemma safe_add_zeros: "allocates al \<Longrightarrow> n < size_mod \<Longrightarrow> safe (CBB_add_zeros al d n)"
  unfolding CBB_add_zeros_seq by (simp add: safe_add_bytes)

lemma safe_add_space: "allocates al \<Longrightarrow> n < size_mod \<Longrightarrow> safe (CBB_add_space al d n)"
proof -
  assume "allocates al" "n < size_mod"
  then have "safe (cbb_seq (CBB_flush al d) (cbb_buffer_add al n))" by (intro safe_seq safe_flush safe_buffer_add)
  then show ?thesis by (simp add: safe_def CBB_add_space_def cbb_seq_def)
qed

lemma safe_reserve: "allocates al \<Longrightarrow> n < size_mod \<Longrightarrow> safe (CBB_reserve al d n)"
proof -
  assume "allocates al" "n < size_mod"
  then have "safe (cbb_seq (CBB_flush al d) (cbb_buffer_reserve al n))" by (intro safe_seq safe_flush safe_buffer_reserve)
  then show ?thesis by (simp add: safe_def CBB_reserve_def cbb_seq_def)
qed

lemma did_write_safe:
  assumes n: "n < size_mod" and inv: "cbb_inv s" and r: "CBB_did_write d n s = Ret (ok, s')"
  shows "cbb_inv s' \<and> frame s s'"
proof -
  let ?b = "cbb_base s"
  define nl where "nl = (cbb_len ?b + n) mod size_mod"
  have "s' = s \<or> cbb_len ?b \<le> nl \<and> nl \<le> cbb_cap ?b \<and> s' = s\<lparr>cbb_base := ?b\<lparr>cbb_len := nl\<rparr>\<rparr>"
    using r by (auto simp: CBB_did_write_def Let_def nl_def [symmetric] simp del: mod_less split: if_splits)
  moreover have "cbb_len ?b \<le> nl \<Longrightarrow> chain_ok 0 (cbb_chain s) nl"
    using inv chain_ok_mono unfolding cbb_inv_def by blast
  ultimately show ?thesis using inv by (elim disjE) (simp_all add: cbb_inv_def)
qed

lemma add_u_error:
  assumes al: "allocates al" and inv: "cbb_inv s" and n: "n < size_mod" and 1: "CBB_add_space al d n s = (True, s1)"
  shows "cbb_add_u al d v n s =
    (let s2 = write_buf (cbb_len (cbb_base s1) - n) (be_bytes n (unat v)) s1
     in if unat v div 256 ^ n \<noteq> 0 then (False, cbb_on_error d s2) else (True, s2))"
    and "cbb_inv (write_buf (cbb_len (cbb_base s1) - n) (be_bytes n (unat v)) s1)"
proof -
  obtain s0 where 0: "CBB_flush al d s = (True, s0)" "cbb_buffer_add al n s0 = (True, s1)"
    using 1 by (auto simp: CBB_add_space_def split: prod.splits bool.splits)
  have "cbb_inv s0" using safeD [OF safe_flush [OF al] inv 0(1)] by simp
  then have room: "n \<le> cbb_len (cbb_base s1)" using buffer_add_spec(4) [OF al _ n 0(2)] by simp
  have s1: "cbb_inv s1" using safeD [OF safe_add_space [OF al n] inv 1] by simp
  then have "cbb_len (cbb_base s1) - n + n \<le> length (cbb_buf (cbb_base s1))" using room by (simp add: cbb_inv_def)
  from put_length_spec [OF this, of "unat v"] show "cbb_add_u al d v n s =
    (let s2 = write_buf (cbb_len (cbb_base s1) - n) (be_bytes n (unat v)) s1
     in if unat v div 256 ^ n \<noteq> 0 then (False, cbb_on_error d s2) else (True, s2))"
    using 1 by (simp add: cbb_add_u_def Let_def)
  show "cbb_inv (write_buf (cbb_len (cbb_base s1) - n) (be_bytes n (unat v)) s1)"
    using room s1 by (intro write_buf_spec) simp_all
qed

lemma safe_add_u [safe_intros]:
  assumes al: "allocates al" and n: "n < size_mod"
  shows "safe (cbb_add_u al d v n)"
proof (rule safeI)
  fix s ok s' assume inv: "cbb_inv s" and r: "cbb_add_u al d v n s = (ok, s')"
  obtain ok1 s1 where 1: "CBB_add_space al d n s = (ok1, s1)" by fastforce
  have k: "cbb_inv s1" "frame s s1" using safeD [OF safe_add_space [OF al n] inv 1] by simp_all
  show "cbb_inv s' \<and> frame s s'"
  proof (cases ok1)
    case False
    then show ?thesis using r 1 k by (simp add: cbb_add_u_def)
  next
    case True
    then have "CBB_add_space al d n s = (True, s1)" using 1 by simp
    note e = add_u_error [OF al inv n this, of v]
    show ?thesis using r e(2) k(2) unfolding e(1) Let_def by (auto split: if_splits)
  qed
qed

lemma chain_ok_nth: "chain_ok lo cs n \<Longrightarrow> d < length cs \<Longrightarrow> chain_ok lo (take d cs) (ch_offset (cs ! d)) \<and> ch_offset (cs ! d) \<le> n"
proof (induction cs arbitrary: lo d)
  case (Cons c cs)
  then show ?case using chain_ok_le [of "ch_offset c + pending_len_len c" cs n] by (cases d) auto
qed simp

lemma safe_discard: "safe (\<lambda>s. (True, CBB_discard_child d s))"
proof (rule safeI)
  fix s ok s' assume inv: "cbb_inv s" and r: "(True, CBB_discard_child d s) = (ok, s')"
  show "cbb_inv s' \<and> frame s s'"
  proof (cases "d < length (cbb_chain s)")
    case True
    then have "chain_ok 0 (take d (cbb_chain s)) (ch_offset (cbb_chain s ! d))" "ch_offset (cbb_chain s ! d) \<le> cbb_len (cbb_base s)"
      using inv chain_ok_nth [of 0 "cbb_chain s" "cbb_len (cbb_base s)" d] by (simp_all add: cbb_inv_def)
    then show ?thesis using r True inv by (auto simp: CBB_discard_child_def cbb_inv_def frame_def)
  qed (use r inv in \<open>simp add: CBB_discard_child_def\<close>)
qed

lemma safe_add_child:
  assumes al: "allocates al" and n: "n < 256" "asn1 \<longrightarrow> n = 1"
  shows "safe (cbb_add_child al d n asn1)"
proof (rule safeI)
  fix s ok s' assume inv: "cbb_inv s" and r: "cbb_add_child al d n asn1 s = (ok, s')"
  obtain ok1 s1 where 1: "cbb_buffer_add al n s = (ok1, s1)" by fastforce
  have sz: "n < size_mod" using n(1) by simp
  have s1: "cbb_inv s1" "frame s s1" using safeD [OF safe_buffer_add [OF al sz] inv 1] by simp_all
  show "cbb_inv s' \<and> frame s s'"
  proof (cases ok1)
    case False
    then show ?thesis using r 1 s1 by (simp add: cbb_add_child_def)
  next
    case True
    let ?o = "cbb_len (cbb_base s)"
    define s2 where "s2 = write_buf ?o (replicate n 0) s1"
    have l: "cbb_len (cbb_base s1) = ?o + n" using buffer_add_spec(4) [OF al inv sz 1] True by simp
    have s2: "cbb_inv s2" unfolding s2_def using s1(1) l by (intro write_buf_spec) simp_all
    have c: "cbb_chain s1 = cbb_chain s" using buffer_add_spec(2) [OF al inv sz 1] by simp
    have s': "s' = s2\<lparr>cbb_chain := take d (cbb_chain s) @ [\<lparr>ch_offset = ?o, pending_len_len = n, pending_is_asn1 = asn1\<rparr>]\<rparr>"
      using r 1 True c by (simp add: cbb_add_child_def s2_def Let_def)
    have "chain_ok 0 (take d (cbb_chain s)) ?o" using inv chain_ok_take by (simp add: cbb_inv_def)
    then have "chain_ok 0 (cbb_chain s') (cbb_len (cbb_base s1))" using l n by (simp add: s' chain_ok_snoc)
    then have "cbb_inv s'" using s2 l by (simp add: s' s2_def cbb_inv_def write_buf_def)
    moreover have "frame s s'" using s1(2) by (simp add: s' s2_def)
    ultimately show ?thesis by simp
  qed
qed

lemma safe_length_prefixed: "allocates al \<Longrightarrow> n < 256 \<Longrightarrow> safe (cbb_add_length_prefixed al d n)"
proof -
  assume "allocates al" "n < 256"
  then have "safe (cbb_seq (CBB_flush al d) (cbb_add_child al d n False))" by (intro safe_seq safe_flush safe_add_child) simp_all
  then show ?thesis by (simp add: safe_def cbb_add_length_prefixed_def cbb_seq_def)
qed

lemma safe_integers [safe_intros]:
  assumes "allocates al"
  shows "safe (CBB_add_u8 al d a)" "safe (CBB_add_u16 al d b)" "safe (CBB_add_u24 al d c)" "safe (CBB_add_u32 al d c)"
    "safe (CBB_add_u64 al d v)"
  unfolding CBB_add_u8_def CBB_add_u16_def CBB_add_u24_def CBB_add_u32_def CBB_add_u64_def
  using assms by (simp_all add: safe_add_u)

lemma safe_base128 [safe_intros]: "allocates al \<Longrightarrow> safe (add_base128_integer al d v)"
proof -
  assume al: "allocates al"
  have "safe (add_base128_loop al d v n)" for n
    by (induction n) (simp_all only: add_base128_loop.simps safe_seq safe_integers [OF al] safe_constant)
  then show ?thesis by (simp add: add_base128_integer_def Let_def)
qed

lemma safe_add_asn1 [safe_intros]: "allocates al \<Longrightarrow> safe (CBB_add_asn1 al d tag)"
  unfolding CBB_add_asn1_def Let_def by (intro safe_intros safe_add_child) simp_all

lemma safe_uint64_loop [safe_intros]: "allocates al \<Longrightarrow> safe (add_uint64_loop al d v started n)"
proof (induction n arbitrary: started)
  case (Suc n)
  then show ?case unfolding add_uint64_loop.simps Let_def by (intro safe_intros) simp_all
qed (simp add: safe_intros)

lemma safe_le_bytes [safe_intros]: "allocates al \<Longrightarrow> safe (add_le_bytes al d v n)"
  by (induction n) (simp_all add: safe_intros)

lemma safe_uint64 [safe_intros]: "allocates al \<Longrightarrow> safe (CBB_add_asn1_uint64_with_tag tag al d v)"
  unfolding CBB_add_asn1_uint64_with_tag_def by (intro safe_intros)

lemma safe_int64: "allocates al \<Longrightarrow> safe (CBB_add_asn1_int64_with_tag tag al d v)"
  unfolding CBB_add_asn1_int64_with_tag_def by (intro safe_intros)

lemma safe_oid_text [safe_intros]: "allocates al \<Longrightarrow> safe (oid_text_loop al d cbs)"
proof (induction al d cbs rule: oid_text_loop.induct)
  case (1 al d cbs)
  show ?case
  proof (cases "length cbs > 0")
    case True
    obtain r cbs' where p: "parse_dotted_decimal cbs = (r, cbs')" by fastforce
    show ?thesis
    proof (cases r)
      case (Some a)
      then have "safe (oid_text_loop al d cbs')" using 1 True p by simp
      then show ?thesis using True p Some 1 by (subst oid_text_loop.simps) (simp add: safe_intros)
    qed (subst oid_text_loop.simps, simp add: p True safe_intros)
  qed (subst oid_text_loop.simps, simp add: safe_intros)
qed

lemma safe_oid: "allocates al \<Longrightarrow> safe (CBB_add_asn1_oid_from_text al d text)"
proof -
  assume al: "allocates al"
  have "safe (case parse_dotted_decimal cbs of (None, x) \<Rightarrow> (\<lambda>s. (False, s)) | (Some b, cbs) \<Rightarrow> f b cbs)"
    if "\<And>b cbs. safe (f b cbs)" for cbs f
    using that by (cases "parse_dotted_decimal cbs") (simp add: safe_intros split: option.split)
  note this [intro!]
  show ?thesis unfolding CBB_add_asn1_oid_from_text_def
    by (rule safe_seq) (auto intro: safe_intros al)
qed

lemma safe_asn1_values:
  assumes al: "allocates al"
  shows "length bs < size_mod \<Longrightarrow> safe (CBB_add_asn1_octet_string al d bs)" "safe (CBB_add_asn1_bool al d v)"
  unfolding CBB_add_asn1_octet_string_def CBB_add_asn1_bool_def by (intro safe_intros al; assumption)+

lemma safe_code_points:
  assumes al: "allocates al"
  shows "safe (CBB_add_utf8 al d u)" "safe (CBB_add_latin1 al d u)" "safe (CBB_add_ucs2_be al d u)" "safe (CBB_add_utf32_be al d u)"
  unfolding CBB_add_utf8_def CBB_add_latin1_def CBB_add_ucs2_be_def CBB_add_utf32_be_def Let_def
  by (intro safe_intros al)+

lemma safe_prefixed: "allocates al \<Longrightarrow> n \<in> {1, 2, 3} \<Longrightarrow> safe (cbb_add_length_prefixed al d n)"
  using safe_length_prefixed by auto

lemma frame_write_children: "frame s (write_children off cs s)"
proof (induction cs arbitrary: off s)
  case (Cons c cs)
  show ?case using frame_trans [OF frame_updates(4) Cons.IH] by simp
qed simp

lemma safe_set_of:
  assumes al: "allocates al"
  shows "safe (CBB_flush_asn1_set_of al d)"
proof (rule safeI)
  fix s ok s' assume inv: "cbb_inv s" and r: "CBB_flush_asn1_set_of al d s = (ok, s')"
  obtain ok1 s1 where 1: "CBB_flush al d s = (ok1, s1)" by fastforce
  have s1: "cbb_inv s1" "frame s s1" using safeD [OF safe_flush [OF al] inv 1] by simp_all
  have fr: "frame s1 s'" and no: "\<not> ok \<Longrightarrow> cbb_inv s'"
    using r s1(1) frame_write_children unfolding CBB_flush_asn1_set_of_def 1 Let_def
    by (auto split: bool.splits if_splits option.splits)
  have "cbb_inv s'"
  proof (cases ok)
    case True
    show ?thesis using flush_set_of_spec [OF al inv] r True by metis
  qed (rule no)
  then show "cbb_inv s' \<and> frame s s'" using frame_trans [OF s1(2) fr] by simp
qed

text \<open>The same for a call that may be \<open>Undef\<close>.\<close>

definition safe_call :: "(cbb \<Rightarrow> (bool \<times> cbb) c_result) \<Rightarrow> bool" where
  "safe_call g \<longleftrightarrow> (\<forall>s ok s'. cbb_inv s \<longrightarrow> g s = Ret (ok, s') \<longrightarrow> cbb_inv s' \<and> frame s s')"

lemma safe_calls:
  "safe f \<Longrightarrow> safe_call (returns f)" "safe f \<Longrightarrow> safe_call (if_open d f)" "n < size_mod \<Longrightarrow> safe_call (CBB_did_write d n)"
  using did_write_safe by (auto simp: safe_call_def returns_def if_open_def dest: safeD split: if_splits)

lemma exec_safe:
  assumes al: "allocates al" and ok: "op_ok op"
  shows "safe_call (cbb_exec al op)"
  using ok
  by (cases op) (simp_all only: cbb_exec.simps op_ok.simps safe_calls safe_flush [OF al] safe_add_bytes [OF al] safe_add_zeros [OF al]
    safe_add_space [OF al] safe_reserve [OF al] safe_integers [OF al] CBB_add_u16le_def CBB_add_u32le_def
    CBB_add_u64le_def safe_discard safe_add_asn1 [OF al] CBB_add_asn1_uint64_def safe_uint64 [OF al] CBB_add_asn1_int64_def
    safe_int64 [OF al] safe_oid [OF al] safe_asn1_values [OF al] safe_code_points [OF al] safe_prefixed [OF al] safe_set_of [OF al])

lemma reach_safe: "cbb_reach al s s' \<Longrightarrow> allocates al \<Longrightarrow> cbb_inv s \<Longrightarrow> cbb_inv s' \<and> frame s s'"
proof (induction rule: cbb_reach.induct)
  case (reach_next s s' ok s'')
  then show ?case using exec_safe frame_trans unfolding safe_call_def by blast
qed simp

lemma init_inv:
  assumes "allocates al" and "cap < size_mod" and "CBB_init al cap = (True, s)"
  shows "cbb_inv s" "can_resize (cbb_base s)" "\<not> cbb_error (cbb_base s)"
  using assms by (auto simp: CBB_init_def cbb_init_def cbb_inv_def allocates_def split: option.splits if_splits)

lemma init_fixed_inv:
  assumes "length buf < size_mod" and "CBB_init_fixed buf = (True, s)"
  shows "cbb_inv s" "\<not> can_resize (cbb_base s)" "cbb_cap (cbb_base s) = length buf" "\<not> cbb_error (cbb_base s)"
  using assms by (auto simp: CBB_init_fixed_def cbb_init_def cbb_inv_def)

subsection \<open>After an error\<close>

text \<open>\<open>strict\<close> operations fail on an object whose \<open>error\<close> is set.\<close>

definition strict :: "(cbb \<Rightarrow> bool \<times> cbb) \<Rightarrow> bool" where
  "strict f \<longleftrightarrow> (\<forall>s. cbb_error (cbb_base s) \<longrightarrow> \<not> fst (f s))"

named_theorems strict_intros

lemma strict_basic [strict_intros]:
  "strict (CBB_flush al d)" "strict cbb_fail" "strict (\<lambda>s. (False, s))"
  "strict f \<Longrightarrow> strict g \<Longrightarrow> strict (if P then f else g)"
  "strict f \<Longrightarrow> strict (cbb_seq f g)" "strict f \<Longrightarrow> strict (or_error d f)"
  by (auto simp: strict_def cbb_fail_def cbb_seq_def or_error_def CBB_flush.simps split: prod.splits bool.splits)

lemma strict_writers [strict_intros]:
  "strict (CBB_add_space al d n)" "strict (CBB_reserve al d n)" "strict (CBB_add_bytes al d bs)" "strict (CBB_add_zeros al d n)"
  "strict (cbb_add_u al d v n)" "strict (cbb_add_length_prefixed al d n)" "strict (CBB_flush_asn1_set_of al d)"
  by (simp_all add: strict_def CBB_add_space_def CBB_reserve_def CBB_add_bytes_def CBB_add_zeros_def cbb_add_u_def
    cbb_add_length_prefixed_def CBB_flush_asn1_set_of_def CBB_flush.simps)

lemmas integer_defs = CBB_add_u8_def CBB_add_u16_def CBB_add_u24_def CBB_add_u32_def CBB_add_u64_def
  CBB_add_u16le_def CBB_add_u32le_def CBB_add_u64le_def

lemmas value_defs = CBB_add_asn1_uint64_def CBB_add_asn1_int64_def CBB_add_asn1_int64_with_tag_def
  CBB_add_asn1_uint64_with_tag_def CBB_add_asn1_octet_string_def CBB_add_asn1_bool_def CBB_add_asn1_def
  CBB_add_asn1_oid_from_text_def CBB_add_utf8_def CBB_add_latin1_def CBB_add_ucs2_be_def CBB_add_utf32_be_def

text \<open>\<open>CBB_did_write\<close> and \<open>CBB_discard_child\<close> do not look at \<open>error\<close>; all other operations do.\<close>

fun checks_error :: "cbb_op \<Rightarrow> bool" where
  "checks_error (Did_write d n) \<longleftrightarrow> False"
| "checks_error (Discard_child d) \<longleftrightarrow> False"
| "checks_error _ \<longleftrightarrow> True"

definition strict_call :: "(cbb \<Rightarrow> (bool \<times> cbb) c_result) \<Rightarrow> bool" where
  "strict_call g \<longleftrightarrow> (\<forall>s s'. cbb_error (cbb_base s) \<longrightarrow> g s \<noteq> Ret (True, s'))"

lemma strict_calls: "strict f \<Longrightarrow> strict_call (returns f)" "strict f \<Longrightarrow> strict_call (if_open d f)"
  by (auto simp: strict_def strict_call_def returns_def if_open_def dest: spec [of _ s for s])

lemma exec_strict: "checks_error op \<Longrightarrow> strict_call (cbb_exec al op)"
  by (cases op) (simp_all add: strict_calls integer_defs value_defs Let_def strict_intros)

lemma finish_strict: "cbb_error (cbb_base s) \<Longrightarrow> fst (CBB_finish al d w s) = None"
  by (simp add: CBB_finish_def CBB_flush.simps)

subsection \<open>Values that do not fit, and concrete runs\<close>

lemma CBB_flush_cases:
  "d > length (cbb_chain s) \<Longrightarrow> CBB_flush al d s = (False, s)"
  "cbb_error (cbb_base s) \<Longrightarrow> CBB_flush al d s = (False, s)"
  "\<not> cbb_error (cbb_base s) \<Longrightarrow> d = length (cbb_chain s) \<Longrightarrow> CBB_flush al d s = (True, s)"
  "\<not> cbb_error (cbb_base s) \<Longrightarrow> d < length (cbb_chain s) \<Longrightarrow> CBB_flush al d s =
     (case CBB_flush al (Suc d) s of (False, s') \<Rightarrow> (False, cbb_on_error d s')
      | (True, s') \<Rightarrow> flush_child al d (cbb_chain s ! d) s')"
  by (subst CBB_flush.simps, simp)+

lemma put_length_numeral: "put_length (numeral k) = put_length (Suc (pred_numeral k))"
  by (simp only: numeral_eq_Suc)

lemmas cbb_eval =
  cbb_exec.simps returns_def if_open_def integer_defs cbb_add_u_def CBB_add_space_def CBB_add_bytes_def CBB_flush_cases flush_child_def
  cbb_buffer_add_def cbb_buffer_reserve_def cbb_add_length_prefixed_def cbb_add_child_def CBB_add_asn1_def cbb_seq_def
  cbb_init_def CBB_init_def CBB_init_fixed_def realloc_def zero_alloc_def write_buf_def write_at_def contents_def
  cbb_on_error_def set_error_def put_error_def cbb_inv_def Let_def put_length_numeral

lemma add_u_too_big:
  assumes al: "allocates al" and inv: "cbb_inv s" and d: "d \<le> length (cbb_chain s)" and n: "n < size_mod"
    and v: "256 ^ n \<le> unat v" and r: "cbb_add_u al d v n s = (ok, s')"
  shows "\<not> ok \<and> cbb_error (cbb_base s')"
proof -
  obtain ok1 s1 where 1: "CBB_add_space al d n s = (ok1, s1)" by fastforce
  show ?thesis
  proof (cases ok1)
    case True
    then have 1: "CBB_add_space al d n s = (True, s1)" using 1 by simp
    have "unat v div 256 ^ n \<noteq> 0" using v by (simp add: div_eq_0_iff)
    then show ?thesis using r add_u_error(1) [OF al inv n 1, of v] by (auto simp: Let_def)
  next
    case False
    obtain ok0 s0 where 0: "CBB_flush al d s = (ok0, s0)" by fastforce
    have "\<not> ok0 \<Longrightarrow> cbb_error (cbb_base s0)" using CBB_flush_spec [OF al inv 0] d by simp
    moreover have "cbb_buffer_add al n s0 = (False, s1) \<Longrightarrow> cbb_error (cbb_base s1)"
      by (auto simp: cbb_buffer_add_def cbb_buffer_reserve_def Let_def split: if_splits bool.splits prod.splits option.splits)
    ultimately have "cbb_error (cbb_base s1)" using 1 0 False by (cases ok0) (simp_all add: CBB_add_space_def)
    then show ?thesis using r 1 False by (simp add: cbb_add_u_def)
  qed
qed

end
