(* ===== verification/Ber.thy ===== *)
theory Ber
  imports Cbb_Machine
begin

text \<open>
  \<open>crypto/bytestring/ber.c\<close> and \<open>asn1_compat.c\<close>: the conversion of BER to DER. A \<open>CBB *\<close> is a depth in
  the chain, as in the builder. The input of the conversion is consumed independently of the
  builder, so \<open>cbs_convert_ber\<close> gives the sequence of builder operations and the rest of the input;
  no caller looks at the input after a failure. The depth does not change in the loop, so the test at
  the start of the function may be repeated in each turn.
\<close>

abbreviation kMaxDepth :: nat where "kMaxDepth \<equiv> 128"

definition is_string_type :: "u32 \<Rightarrow> bool" where
  "is_string_type tag \<longleftrightarrow> tag AND NOT CBS_ASN1_CONSTRUCTED \<in>
     set [4, 0xc, 0x12, 0x13, 0x14, 0x15, 0x16, 0x19, 0x1a, 0x1b, 0x1c, 0x1e]"

lemma ber_element_shorter:
  assumes "CBS_get_any_ber_asn1_element s = (Some e, r)"
  shows "length r < length s" "length (el_out e) \<le> length s"
    "CBS_skip (el_header_len e) (el_out e) = (Some u, c) \<Longrightarrow> length c < length s"
proof -
  obtain lb x where s: "s = el_out e @ r" "el_out e = der_tag (el_tag e) @ lb @ x"
    "el_header_len e = length (der_tag (el_tag e)) + length lb"
    using assms unfolding CBS_get_any_ber_asn1_element_def any_element_Some by blast
  have t: "0 < length (der_tag (el_tag e))" using length_der_tag by simp
  then show "length r < length s" "length (el_out e) \<le> length s" using s(1,2) by auto
  define h where "h = der_tag (el_tag e) @ lb"
  have "CBS_skip (length h) (h @ x) = (Some (), x)" by simp
  then have "CBS_skip (el_header_len e) (el_out e) = (Some (), x)" using s by (simp add: h_def)
  then show "CBS_skip (el_header_len e) (el_out e) = (Some u, c) \<Longrightarrow> length c < length s"
    using s t by (auto simp: s(1))
qed

function cbs_find_ber :: "nat \<Rightarrow> cbs \<Rightarrow> bool option" where
  "cbs_find_ber depth inp =
     (if depth > kMaxDepth then None
      else if length inp = 0 then Some False
      else
        case CBS_get_any_ber_asn1_element inp of
          (None, _) \<Rightarrow> None
        | (Some e, inp') \<Rightarrow>
            if el_ber_found e then Some True
            else if el_tag e AND CBS_ASN1_CONSTRUCTED \<noteq> 0
            then if is_string_type (el_tag e) then Some True
                 else (case CBS_skip (el_header_len e) (el_out e) of
                         (None, _) \<Rightarrow> None
                       | (Some _, inner) \<Rightarrow>
                         (case cbs_find_ber (Suc depth) inner of
                            None \<Rightarrow> None
                          | Some True \<Rightarrow> Some True
                          | Some False \<Rightarrow> cbs_find_ber depth inp'))
            else cbs_find_ber depth inp')"
  by pat_completeness auto
termination
  by (relation "measure (\<lambda>(depth, inp). length inp)")
    (auto dest: ber_element_shorter(1) [OF sym] intro: ber_element_shorter(3) [OF sym])

declare cbs_find_ber.simps [simp del]

definition cbs_get_eoc :: "unit reader" where
  "cbs_get_eoc cbs = (if length cbs \<ge> 2 \<and> cbs ! 0 = 0 \<and> cbs ! 1 = 0 then CBS_skip 2 cbs else (None, cbs))"

text \<open>
  The choices the loop makes for an element with tag \<open>tag\<close> inside a string of type \<open>string_tag\<close>: the
  object that receives the contents, how it is opened, and the string type of its children.
\<close>

definition joins :: "u32 \<Rightarrow> bool" where
  "joins tag \<longleftrightarrow> tag AND CBS_ASN1_CONSTRUCTED \<noteq> 0 \<and> is_string_type tag"

definition open_contents :: "allocator \<Rightarrow> nat \<Rightarrow> u32 \<Rightarrow> u32 \<Rightarrow> cbb \<Rightarrow> bool \<times> cbb" where
  "open_contents al d string_tag tag =
     (if string_tag \<noteq> 0 then cbb_nop
      else CBB_add_asn1 al d (if joins tag then tag AND NOT CBS_ASN1_CONSTRUCTED else tag))"

definition out_contents :: "nat \<Rightarrow> u32 \<Rightarrow> nat" where
  "out_contents d string_tag = (if string_tag \<noteq> 0 then d else Suc d)"

definition child_string_tag :: "u32 \<Rightarrow> u32 \<Rightarrow> u32" where
  "child_string_tag string_tag tag =
     (if string_tag \<noteq> 0 then string_tag else if joins tag then tag AND NOT CBS_ASN1_CONSTRUCTED else 0)"

function cbs_convert_ber ::
  "allocator \<Rightarrow> nat \<Rightarrow> nat \<Rightarrow> u32 \<Rightarrow> bool \<Rightarrow> cbs \<Rightarrow> (cbb \<Rightarrow> bool \<times> cbb) \<times> cbs" where
  "cbs_convert_ber al d depth string_tag looking_for_eoc inp =
     (if depth > kMaxDepth then (cbb_fail, inp)
      else if length inp = 0 then (if looking_for_eoc then cbb_fail else cbb_nop, inp)
      else if looking_for_eoc \<and> fst (cbs_get_eoc inp) \<noteq> None then (cbb_nop, snd (cbs_get_eoc inp))
      else
        case CBS_get_any_ber_asn1_element inp of
          (None, inp') \<Rightarrow> (cbb_fail, inp')
        | (Some e, inp') \<Rightarrow>
          if string_tag \<noteq> 0 \<and> el_tag e AND NOT CBS_ASN1_CONSTRUCTED \<noteq> string_tag then (cbb_fail, inp')
          else if el_indefinite e
          then (case cbs_convert_ber al (out_contents d string_tag) (Suc depth) (child_string_tag string_tag (el_tag e)) True inp' of
                  (body, inp'') \<Rightarrow>
                (case cbs_convert_ber al d depth string_tag looking_for_eoc inp'' of
                   (rest, r) \<Rightarrow>
                     (cbb_seq (open_contents al d string_tag (el_tag e)) (cbb_seq body (cbb_seq (CBB_flush al d) rest)), r)))
          else (case CBS_skip (el_header_len e) (el_out e) of
                  (None, _) \<Rightarrow> (cbb_seq (open_contents al d string_tag (el_tag e)) cbb_fail, inp')
                | (Some _, inner) \<Rightarrow>
                  (case cbs_convert_ber al d depth string_tag looking_for_eoc inp' of
                     (rest, r) \<Rightarrow>
                       (cbb_seq (open_contents al d string_tag (el_tag e))
                          (cbb_seq
                             (if el_tag e AND CBS_ASN1_CONSTRUCTED \<noteq> 0
                              then fst (cbs_convert_ber al (out_contents d string_tag) (Suc depth)
                                          (child_string_tag string_tag (el_tag e)) False inner)
                              else CBB_add_bytes al (out_contents d string_tag) inner)
                             (cbb_seq (CBB_flush al d) rest)), r))))"
  by pat_completeness auto

lemma eoc_shorter: "fst (cbs_get_eoc s) \<noteq> None \<Longrightarrow> length (snd (cbs_get_eoc s)) \<le> length s"
  by (auto simp: cbs_get_eoc_def CBS_skip_def cbs_get_def rbind_def rret_def split: if_splits prod.splits option.splits)

lemma ber_element_rest: "CBS_get_any_ber_asn1_element s = (x, r) \<Longrightarrow> length r \<le> length s"
  using ber_element_shorter(1) [of s _ r] any_element_None [of True s r]
  by (cases x) (auto simp: CBS_get_any_ber_asn1_element_def)

lemma convert_shorter:
  "cbs_convert_ber_dom (al, d, depth, string_tag, eoc, inp) \<Longrightarrow>
     length (snd (cbs_convert_ber al d depth string_tag eoc inp)) \<le> length inp"
proof (induction rule: cbs_convert_ber.pinduct)
  case (1 al d depth string_tag eoc inp)
  note step = cbs_convert_ber.psimps [OF "1.hyps"]
  show ?case
  proof (cases "\<not> kMaxDepth < depth \<and> length inp \<noteq> 0 \<and> \<not> (eoc \<and> fst (cbs_get_eoc inp) \<noteq> None)")
    case False
    then consider "kMaxDepth < depth" | "\<not> kMaxDepth < depth" "length inp = 0"
      | "\<not> kMaxDepth < depth" "length inp \<noteq> 0" "eoc \<and> fst (cbs_get_eoc inp) \<noteq> None" by blast
    then show ?thesis by cases (subst step, use eoc_shorter [of inp] in simp)+
  next
    case True
    then have n: "\<not> kMaxDepth < depth" "length inp \<noteq> 0" "\<not> (eoc \<and> fst (cbs_get_eoc inp) \<noteq> None)" by simp_all
    obtain x inp' where x: "CBS_get_any_ber_asn1_element inp = (x, inp')" by fastforce
    have le: "length inp' \<le> length inp" by (rule ber_element_rest [OF x])
    show ?thesis
    proof (cases "\<exists>e. x = Some e \<and> \<not> (string_tag \<noteq> 0 \<and> el_tag e AND NOT CBS_ASN1_CONSTRUCTED \<noteq> string_tag)")
      case False
      then show ?thesis using x le unfolding step if_not_P [OF n(1)] if_not_P [OF n(2)] if_not_P [OF n(3)]
        by (cases x) simp_all
    next
      case True
      then obtain e where e: "x = Some e" and ok: "\<not> (string_tag \<noteq> 0 \<and> el_tag e AND NOT CBS_ASN1_CONSTRUCTED \<noteq> string_tag)"
        by blast
      note IH = "1.IH" [OF n x [symmetric] e ok]
      note red = step if_not_P [OF n(1)] if_not_P [OF n(2)] if_not_P [OF n(3)]
      show ?thesis
      proof (cases "el_indefinite e")
        case True
        obtain body inp'' where b: "cbs_convert_ber al (out_contents d string_tag) (Suc depth)
            (child_string_tag string_tag (el_tag e)) True inp' = (body, inp'')" by fastforce
        obtain rest r where r: "cbs_convert_ber al d depth string_tag eoc inp'' = (rest, r)" by fastforce
        have "length inp'' \<le> length inp'" using IH(1) [OF True] b by simp
        moreover have "length r \<le> length inp''" using IH(2) [OF True b [symmetric]] r by simp
        ultimately show ?thesis using le unfolding red by (simp only: x e ok True b r prod.case option.case if_False if_True snd_conv)
      next
        case ind: False
        obtain y inner where y: "CBS_skip (el_header_len e) (el_out e) = (y, inner)" by fastforce
        show ?thesis
        proof (cases y)
          case None
          then show ?thesis using le unfolding red by (simp only: x e ok ind y prod.case option.case if_False snd_conv)
        next
          case (Some u)
          obtain rest r where r: "cbs_convert_ber al d depth string_tag eoc inp' = (rest, r)" by fastforce
          have "length r \<le> length inp'" using IH(3) [OF ind y [symmetric] Some] r by simp
          then show ?thesis using le Some unfolding red by (simp only: x e ok ind y r prod.case option.case if_False snd_conv)
        qed
      qed
    qed
  qed
qed

lemma convert_shorter_eq:
  "cbs_convert_ber_dom (al, d, depth, st, eoc, inp) \<Longrightarrow> (b, r) = cbs_convert_ber al d depth st eoc inp \<Longrightarrow> length r \<le> length inp"
  using convert_shorter by (metis snd_conv)

lemma convert_dom: "All cbs_convert_ber_dom"
proof (relation "measure (\<lambda>(al, d, depth, string_tag, eoc, inp). length inp)", goal_cases)
  case 2
  then show ?case using ber_element_shorter(1) by (metis (no_types, lifting) case_prod_conv in_measure)
next
  case 3
  then show ?case using ber_element_shorter(1) convert_shorter_eq by (metis (no_types, lifting) case_prod_conv in_measure order_le_less_trans)
next
  case 4
  then show ?case using ber_element_shorter(1) by (metis (no_types, lifting) case_prod_conv in_measure)
next
  case 5
  then show ?case using ber_element_shorter(3) by (metis (no_types, lifting) case_prod_conv in_measure)
qed simp

termination cbs_convert_ber
  by (rule convert_dom)

declare cbs_convert_ber.simps [simp del]

lemma convert_len: "cbs_convert_ber al d depth st eoc inp = (b, r) \<Longrightarrow> length r \<le> length inp"
  using convert_shorter_eq convert_dom by metis

text \<open>
  The result is the output, with a flag that says whether it is stored in a new buffer
  (\<open>*out_storage\<close> is not NULL), and the rest of the input.
\<close>

definition CBS_asn1_ber_to_der :: "allocator \<Rightarrow> (cbs \<times> bool) reader" where
  "CBS_asn1_ber_to_der al inp =
     (case cbs_find_ber 0 inp of
        None \<Rightarrow> (None, inp)
      | Some conversion_needed \<Rightarrow>
          if \<not> conversion_needed
          then rbind CBS_get_any_asn1_element (\<lambda>e. rret (el_out e, False)) inp
          else (case cbs_convert_ber al 0 0 0 False inp of
                  (convert, r) \<Rightarrow> (map_option (\<lambda>out. (out, True)) (cbb_build al (length inp) convert), r)))"

subsection \<open>Implicitly tagged strings\<close>

function implicit_string_loop :: "allocator \<Rightarrow> u32 \<Rightarrow> cbs \<Rightarrow> cbb \<Rightarrow> bool \<times> cbb" where
  "implicit_string_loop al inner_tag child =
     (if length child > 0
      then (case CBS_get_asn1 inner_tag child of
              (None, _) \<Rightarrow> cbb_fail
            | (Some chunk, child') \<Rightarrow> cbb_seq (CBB_add_bytes al 0 chunk) (implicit_string_loop al inner_tag child'))
      else cbb_nop)"
  by pat_completeness auto
termination
  by (relation "measure (\<lambda>(al, inner_tag, child). length child)")
    (auto simp: CBS_get_asn1_Some der_element_def der_header_def length_der_tag(2) dest: sym)

declare implicit_string_loop.simps [simp del]

text \<open>The three assertions are conditions on the tags a caller passes; without them the result is \<open>Undef\<close>.\<close>

definition CBS_get_asn1_implicit_string ::
  "allocator \<Rightarrow> u32 \<Rightarrow> u32 \<Rightarrow> cbs \<Rightarrow> ((cbs \<times> bool) option \<times> cbs) c_result" where
  "CBS_get_asn1_implicit_string al outer_tag inner_tag inp =
     (if outer_tag AND CBS_ASN1_CONSTRUCTED \<noteq> 0 \<or> inner_tag AND CBS_ASN1_CONSTRUCTED \<noteq> 0 \<or> \<not> is_string_type inner_tag then Undef
      else if CBS_peek_asn1_tag inp outer_tag
      then Ret (rbind (CBS_get_asn1 outer_tag) (\<lambda>out. rret (out, False)) inp)
      else if \<not> fst (CBB_init al (length inp)) then Ret (None, inp)
      else Ret (rbind (CBS_get_asn1 (outer_tag OR CBS_ASN1_CONSTRUCTED))
             (\<lambda>child rest. (map_option (\<lambda>out. (out, True))
                 (cbb_build al (length inp) (implicit_string_loop al inner_tag child)), rest)) inp))"

subsection \<open>\<open>CBB_finish_i2d\<close>\<close>

text \<open>
  \<open>outp\<close> is \<open>None\<close> for a NULL argument, \<open>Some None\<close> when it points to NULL, and otherwise the buffer
  and the offset \<open>*outp\<close> points to. \<open>cbb\<close> is a root on the heap, as the assertions demand.
\<close>

definition CBB_finish_i2d ::
  "allocator \<Rightarrow> (byte list \<times> nat) option option \<Rightarrow> cbb \<Rightarrow> int \<times> (byte list \<times> nat) option option" where
  "CBB_finish_i2d al outp s =
     (case fst (CBB_finish al 0 True s) of
        None \<Rightarrow> (- 1, outp)
      | Some der \<Rightarrow>
          if length der > INT_MAX then (- 1, outp)
          else (int (length der),
                case outp of
                  None \<Rightarrow> None
                | Some None \<Rightarrow> Some (Some (der, 0))
                | Some (Some (buf, off)) \<Rightarrow> Some (Some (write_at buf off der, off + length der))))"

subsection \<open>What the builder does\<close>

text \<open>
  \<open>runs al d op r\<close>: on an object without an open child, \<open>op\<close> appends the bytes \<open>r\<close> and leaves no
  open child, and fails only for want of memory; it always fails if \<open>r\<close> is \<open>None\<close>.
\<close>

definition runs :: "allocator \<Rightarrow> nat \<Rightarrow> (cbb \<Rightarrow> bool \<times> cbb) \<Rightarrow> byte list option \<Rightarrow> bool" where
  "runs al d op r \<longleftrightarrow>
     (\<forall>s ok s'. ok_state s \<longrightarrow> length (cbb_chain s) = d \<longrightarrow> op s = (ok, s') \<longrightarrow>
        (ok \<longrightarrow> ok_state s' \<and> cbb_chain s' = cbb_chain s \<and> can_resize (cbb_base s') = can_resize (cbb_base s) \<and>
           (\<exists>bs. r = Some bs \<and> contents s' = contents s @ bs)) \<and>
        (\<forall>bs. r = Some bs \<longrightarrow> unbounded al s \<longrightarrow> length (contents s) + length bs < size_mod \<longrightarrow> ok))"

lemma runsD:
  assumes "runs al d op r" "ok_state s" "length (cbb_chain s) = d" "op s = (ok, s')"
  shows "ok \<Longrightarrow> ok_state s' \<and> cbb_chain s' = cbb_chain s \<and> can_resize (cbb_base s') = can_resize (cbb_base s) \<and>
      (\<exists>bs. r = Some bs \<and> contents s' = contents s @ bs)"
    "r = Some bs \<Longrightarrow> unbounded al s \<Longrightarrow> length (contents s) + length bs < size_mod \<Longrightarrow> ok"
  using assms unfolding runs_def by blast+

lemma runs_nop: "runs al d cbb_nop (Some [])" and runs_fail: "runs al d cbb_fail None"
  by (simp_all add: runs_def cbb_nop_def cbb_fail_def)

lemma runs_appends:
  assumes "appends al d op bs"
  shows "runs al d op (Some bs)"
  unfolding runs_def
proof (intro allI impI)
  fix s ok s' assume s: "ok_state s" "length (cbb_chain s) = d" and r: "op s = (ok, s')"
  have fl: "flushed (drop d (cbb_chain s)) (contents s) = Some (contents s)" "take d (cbb_chain s) = cbb_chain s"
    using s(2) by simp_all
  note A = appendsD [OF assms _ r, simplified fl] 
  show "(ok \<longrightarrow> ok_state s' \<and> cbb_chain s' = cbb_chain s \<and> can_resize (cbb_base s') = can_resize (cbb_base s) \<and>
           (\<exists>cs. Some bs = Some cs \<and> contents s' = contents s @ cs)) \<and>
        (\<forall>cs. Some bs = Some cs \<longrightarrow> unbounded al s \<longrightarrow> length (contents s) + length cs < size_mod \<longrightarrow> ok)"
    using A s by auto
qed

definition append_opt :: "byte list option \<Rightarrow> byte list option \<Rightarrow> byte list option" where
  "append_opt x y = (case (x, y) of (Some a, Some b) \<Rightarrow> Some (a @ b) | _ \<Rightarrow> None)"

lemma append_opt_simps [simp]:
  "append_opt (Some a) (Some b) = Some (a @ b)" "append_opt None y = None" "append_opt x None = None"
  by (simp_all add: append_opt_def split: option.split)

lemma append_opt_Some: "append_opt x y = Some c \<longleftrightarrow> (\<exists>a b. x = Some a \<and> y = Some b \<and> c = a @ b)"
  by (auto simp: append_opt_def split: option.splits)

lemma runs_seq:
  assumes f: "runs al d f x" and g: "runs al d g y"
  shows "runs al d (cbb_seq f g) (append_opt x y)"
  unfolding runs_def
proof (intro allI impI)
  fix s ok s' assume s: "ok_state s" "length (cbb_chain s) = d" and r: "cbb_seq f g s = (ok, s')"
  obtain ok1 s1 where 1: "f s = (ok1, s1)" by fastforce
  note F = runsD [OF f s 1]
  show "(ok \<longrightarrow> ok_state s' \<and> cbb_chain s' = cbb_chain s \<and> can_resize (cbb_base s') = can_resize (cbb_base s) \<and>
           (\<exists>bs. append_opt x y = Some bs \<and> contents s' = contents s @ bs)) \<and>
        (\<forall>bs. append_opt x y = Some bs \<longrightarrow> unbounded al s \<longrightarrow> length (contents s) + length bs < size_mod \<longrightarrow> ok)"
  proof (cases ok1)
    case False
    then have "\<not> ok" using r 1 by (simp add: cbb_seq_apply)
    then show ?thesis using F(2) False by (auto simp: append_opt_Some)
  next
    case True
    then have 2: "g s1 = (ok, s')" using r 1 by (simp add: cbb_seq_apply)
    from F(1) [OF True] obtain a where a: "x = Some a" "contents s1 = contents s @ a" "ok_state s1"
      "cbb_chain s1 = cbb_chain s" "can_resize (cbb_base s1) = can_resize (cbb_base s)" by blast
    have "length (cbb_chain s1) = d" using a(4) s(2) by simp
    note G = runsD [OF g a(3) this 2]
    have "unbounded al s1 = unbounded al s" using a(5) by (simp add: unbounded_def)
    then show ?thesis using G a by (auto simp: append_opt_Some)
  qed
qed

text \<open>The element of a child: its contents may not be longer than a DER length of four bytes allows.\<close>

definition put_element :: "u32 \<Rightarrow> byte list option \<Rightarrow> byte list option" where
  "put_element tag r =
     (case r of None \<Rightarrow> None | Some c \<Rightarrow> if length c \<le> 0xfffffffe then Some (der_element tag c) else None)"

lemma runs_element:
  assumes al: "allocates al" and body: "runs al (Suc d) body r"
  shows "runs al d (cbb_seq (CBB_add_asn1 al d tag) (cbb_seq body (CBB_flush al d))) (put_element tag r)"
  unfolding runs_def
proof (intro allI impI)
  fix s ok s'
  assume s: "ok_state s" "length (cbb_chain s) = d"
    and op: "cbb_seq (CBB_add_asn1 al d tag) (cbb_seq body (CBB_flush al d)) s = (ok, s')"
  obtain ok1 s1 where 1: "CBB_add_asn1 al d tag s = (ok1, s1)" by fastforce
  have fl: "flushed (drop d (cbb_chain s)) (contents s) = Some (contents s)" "take d (cbb_chain s) = cbb_chain s"
    using s(2) by simp_all
  note O = opensD [OF add_asn1_opens [OF al] _ 1]
  obtain ok2 s2 where 2: "body s1 = (ok2, s2)" by fastforce
  obtain ok3 s3 where 3: "CBB_flush al d s2 = (ok3, s3)" by fastforce
  have ok: "ok = (ok1 \<and> ok2 \<and> ok3)" "ok \<Longrightarrow> s' = s3"
    using op 1 2 3 by (auto simp: cbb_seq_def split: bool.splits prod.splits)
  let ?c = "\<lparr>ch_offset = length (contents s @ der_tag tag), pending_len_len = 1, pending_is_asn1 = True\<rparr>"
  have s1: "ok_state s1 \<and> length (cbb_chain s1) = Suc d \<and> contents s1 = contents s @ der_tag tag @ [0] \<and>
      cbb_chain s1 = cbb_chain s @ [?c] \<and> can_resize (cbb_base s1) = can_resize (cbb_base s)" if ok1
    using O(1,2) O(3) that s fl by auto
  have s2: "ok_state s2 \<and> cbb_chain s2 = cbb_chain s @ [?c] \<and> can_resize (cbb_base s2) = can_resize (cbb_base s) \<and>
      (\<exists>c. r = Some c \<and> contents s2 = contents s @ der_tag tag @ [0] @ c \<and>
        flushed (drop d (cbb_chain s2)) (contents s2) =
          (if length c \<le> 0xfffffffe then Some (contents s @ der_element tag c) else None))" if ok1 ok2
  proof -
    have a: "ok_state s1" "length (cbb_chain s1) = Suc d" using s1 that s(2) by simp_all
    from runsD(1) [OF body a 2 that(2)] obtain c where c: "ok_state s2" "cbb_chain s2 = cbb_chain s1"
      "can_resize (cbb_base s2) = can_resize (cbb_base s1)" "r = Some c" "contents s2 = contents s1 @ c" by blast
    have "flushed [?c] (contents s @ der_tag tag @ [0] @ c) =
        (if length c \<le> 0xfffffffe then Some (contents s @ der_element tag c) else None)"
      by (simp add: len_prefix_def der_element_def der_header_def)
    then show ?thesis using c s1 that s(2) by simp
  qed
  show "(ok \<longrightarrow> ok_state s' \<and> cbb_chain s' = cbb_chain s \<and> can_resize (cbb_base s') = can_resize (cbb_base s) \<and>
           (\<exists>bs. put_element tag r = Some bs \<and> contents s' = contents s @ bs)) \<and>
        (\<forall>bs. put_element tag r = Some bs \<longrightarrow> unbounded al s \<longrightarrow> length (contents s) + length bs < size_mod \<longrightarrow> ok)"
  proof (intro conjI impI allI)
    assume ok
    then have k: ok1 ok2 ok3 "s' = s3" using ok by auto
    from s2 [OF k(1,2)] obtain c where c: "ok_state s2" "cbb_chain s2 = cbb_chain s @ [?c]"
      "can_resize (cbb_base s2) = can_resize (cbb_base s)" "r = Some c"
      "flushed (drop d (cbb_chain s2)) (contents s2) = (if length c \<le> 0xfffffffe then Some (contents s @ der_element tag c) else None)"
      by blast
    have F: "cbb_inv s3" "can_resize (cbb_base s3) = can_resize (cbb_base s2)" "cbb_chain s3 = take d (cbb_chain s2)"
      "\<not> cbb_error (cbb_base s3)" "flushed (drop d (cbb_chain s2)) (contents s2) = Some (contents s3)"
      using CBB_flush_spec [OF al _ 3] c(1) k(3) by blast+
    have l: "length c \<le> 0xfffffffe" using F(5) c(5) by (simp split: if_splits)
    then show "cbb_inv s'" "\<not> cbb_error (cbb_base s')" "cbb_chain s' = cbb_chain s" "can_resize (cbb_base s') = can_resize (cbb_base s)"
      "\<exists>bs. put_element tag r = Some bs \<and> contents s' = contents s @ bs"
      using F c k(4) s(2) by (simp_all add: put_element_def)
  next
    fix bs assume bs: "put_element tag r = Some bs" and un: "unbounded al s" and sz: "length (contents s) + length bs < size_mod"
    then obtain c where c: "r = Some c" "length c \<le> 0xfffffffe" "bs = der_element tag c"
      by (auto simp: put_element_def split: option.splits if_splits)
    have "length (der_tag tag) + 1 + length c \<le> length bs"
      unfolding c(3) der_element_def der_header_def by (simp add: der_len_def)
    then have sz1: "length (contents s) + (length (der_tag tag) + 1) < size_mod"
      "length (contents s) + (length (der_tag tag) + 1) + length c < size_mod" using sz by linarith+
    have ok1: ok1 using O(5) s un fl sz1(1) by simp
    then have a: "ok_state s1" "length (cbb_chain s1) = Suc d" "unbounded al s1" using s1 un s(2) by (simp_all add: unbounded_def)
    have ok2: ok2 using runsD(2) [OF body a(1,2) 2 c(1) a(3)] s1 ok1 sz1(2) by simp
    from s2 [OF ok1 ok2] have F: "ok_state s2" "length (cbb_chain s2) = Suc d" "unbounded al s2"
      "flushed (drop d (cbb_chain s2)) (contents s2) = Some (contents s @ bs)"
      using c un s(2) by (auto simp: unbounded_def)
    have ok3 using CBB_flush_spec [OF al _ 3] F sz by simp
    then show ok using ok ok1 ok2 by simp
  qed
qed

subsection \<open>BER values\<close>

text \<open>
  A BER value: a primitive one with its tag, its length octets and its contents, or a constructed one
  with its tag, its length octets (\<open>None\<close> for the indefinite form) and the values in it.
\<close>

datatype ber = Prim u32 "byte list" "byte list" | Constr u32 "byte list option" "ber list"

fun ber_bytes :: "ber \<Rightarrow> byte list" where
  "ber_bytes (Prim tag lb c) = der_tag tag @ lb @ c"
| "ber_bytes (Constr tag (Some lb) ts) = der_tag tag @ lb @ concat (map ber_bytes ts)"
| "ber_bytes (Constr tag None ts) = der_tag tag @ [0x80] @ concat (map ber_bytes ts) @ [0, 0]"

text \<open>Valid values, inside a string of type \<open>st\<close> (0: none), with at most \<open>k\<close> more levels.\<close>

fun ber_ok :: "u32 \<Rightarrow> nat \<Rightarrow> ber \<Rightarrow> bool" where
  "ber_ok st k (Prim tag lb c) \<longleftrightarrow>
     valid_tag tag \<and> tag AND CBS_ASN1_CONSTRUCTED = 0 \<and> (st \<noteq> 0 \<longrightarrow> tag AND NOT CBS_ASN1_CONSTRUCTED = st) \<and>
     (\<exists>bf. len_octets True tag lb (length c) bf False)"
| "ber_ok st k (Constr tag l ts) \<longleftrightarrow>
     valid_tag tag \<and> tag AND CBS_ASN1_CONSTRUCTED \<noteq> 0 \<and> (st \<noteq> 0 \<longrightarrow> tag AND NOT CBS_ASN1_CONSTRUCTED = st) \<and>
     (case l of None \<Rightarrow> True | Some lb \<Rightarrow> \<exists>bf. len_octets True tag lb (length (concat (map ber_bytes ts))) bf False) \<and>
     0 < k \<and> (\<forall>t \<in> set ts. ber_ok (child_string_tag st tag) (k - 1) t)"

text \<open>The DER encoding of a value; inside a string, its bytes.\<close>

fun append_all :: "byte list option list \<Rightarrow> byte list option" where
  "append_all [] = Some []"
| "append_all (x # xs) = append_opt x (append_all xs)"

definition put_value :: "u32 \<Rightarrow> u32 \<Rightarrow> byte list option \<Rightarrow> byte list option" where
  "put_value st tag r =
     (if st \<noteq> 0 then r else put_element (if joins tag then tag AND NOT CBS_ASN1_CONSTRUCTED else tag) r)"

fun ber_der :: "u32 \<Rightarrow> ber \<Rightarrow> byte list option" where
  "ber_der st (Prim tag lb c) = put_value st tag (Some c)"
| "ber_der st (Constr tag l ts) = put_value st tag (append_all (map (ber_der (child_string_tag st tag)) ts))"

abbreviation forest_bytes :: "ber list \<Rightarrow> byte list" where
  "forest_bytes ts \<equiv> concat (map ber_bytes ts)"

abbreviation forest_ok :: "u32 \<Rightarrow> nat \<Rightarrow> ber list \<Rightarrow> bool" where
  "forest_ok st k ts \<equiv> (\<forall>t \<in> set ts. ber_ok st k t)"

abbreviation forest_der :: "u32 \<Rightarrow> ber list \<Rightarrow> byte list option" where
  "forest_der st ts \<equiv> append_all (map (ber_der st) ts)"

text \<open>
  What DER asks of the value itself: minimal definite lengths, and strings in one piece. As in the
  source, a constructed BIT STRING is no string.
\<close>

fun der_form :: "ber \<Rightarrow> bool" where
  "der_form (Prim tag lb c) \<longleftrightarrow> lb = der_len (length c)"
| "der_form (Constr tag l ts) \<longleftrightarrow>
     l = Some (der_len (length (forest_bytes ts))) \<and>
     tag AND NOT CBS_ASN1_CONSTRUCTED \<notin> {4, 12, 18, 19, 20, 21, 22, 25, 26, 27, 28, 30} \<and>
     (\<forall>t \<in> set ts. der_form t)"

lemma runs_value:
  assumes al: "allocates al" and body: "runs al (out_contents d st) body r"
  shows "runs al d (cbb_seq (open_contents al d st tag) (cbb_seq body (CBB_flush al d))) (put_value st tag r)"
proof (cases "st = 0")
  case True
  then show ?thesis using runs_element [OF al] body by (simp add: open_contents_def put_value_def out_contents_def)
next
  case False
  have "runs al d (CBB_flush al d) (Some [])" by (rule runs_appends [OF flush_appends [OF al]])
  from runs_seq [OF _ this] have "runs al d (cbb_seq body (CBB_flush al d)) r"
    using False body by (cases r) (fastforce simp: out_contents_def)+
  then show ?thesis using False by (simp add: open_contents_def put_value_def cbb_seq_def cbb_nop_def)
qed

subsection \<open>The conversion accepts BER values only\<close>

lemma ber_element_parts:
  assumes "CBS_get_any_ber_asn1_element s = (Some e, r)"
  obtains lb c where "s = der_tag (el_tag e) @ lb @ c @ r" and "valid_tag (el_tag e)"
    and "CBS_skip (el_header_len e) (el_out e) = (Some (), c)"
    and "len_octets True (el_tag e) lb (length c) (el_ber_found e) (el_indefinite e)"
    and "el_indefinite e \<Longrightarrow> lb = [0x80] \<and> c = [] \<and> el_tag e AND CBS_ASN1_CONSTRUCTED \<noteq> 0"
proof -
  obtain lb c where s: "s = el_out e @ r" "el_out e = der_tag (el_tag e) @ lb @ c" "valid_tag (el_tag e)"
    "el_header_len e = length (der_tag (el_tag e)) + length lb"
    "len_octets True (el_tag e) lb (length c) (el_ber_found e) (el_indefinite e)"
    using assms unfolding CBS_get_any_ber_asn1_element_def any_element_Some by blast
  define h where "h = der_tag (el_tag e) @ lb"
  have "CBS_skip (length h) (h @ c) = (Some (), c)" by simp
  then have sk: "CBS_skip (el_header_len e) (el_out e) = (Some (), c)" using s by (simp add: h_def)
  have "el_indefinite e \<Longrightarrow> lb = [0x80] \<and> c = [] \<and> el_tag e AND CBS_ASN1_CONSTRUCTED \<noteq> 0"
    using s(5) by (auto simp: len_octets_def)
  with that [of lb c] s sk show thesis by simp
qed

definition converted :: "allocator \<Rightarrow> nat \<Rightarrow> nat \<Rightarrow> u32 \<Rightarrow> bool \<Rightarrow> cbs \<Rightarrow> (cbb \<Rightarrow> bool \<times> cbb) \<Rightarrow> cbs \<Rightarrow> bool" where
  "converted al d depth st eoc inp op r \<longleftrightarrow>
     runs al d op None \<or>
     (depth \<le> kMaxDepth \<and> (\<exists>ts. forest_ok st (kMaxDepth - depth) ts \<and> inp = forest_bytes ts @ (if eoc then [0, 0] @ r else []) \<and>
        (\<not> eoc \<longrightarrow> r = []) \<and> runs al d op (forest_der st ts)))"

lemma converted_runs: "converted al d depth st eoc inp op r \<Longrightarrow> \<exists>y. runs al d op y"
  by (auto simp: converted_def)

lemma converted_fail:
  assumes "runs al d (cbb_seq f (cbb_seq body g)) None" and "converted al d depth st eoc inp' rest r"
  shows "converted al d depth st eoc inp (cbb_seq f (cbb_seq body (cbb_seq g rest))) r"
proof -
  obtain y where "runs al d rest y" using converted_runs [OF assms(2)] by blast
  from runs_seq [OF assms(1) this] show ?thesis by (simp add: converted_def cbb_seq_assoc)
qed

lemma converted_cons:
  assumes "runs al d (cbb_seq f (cbb_seq body g)) (ber_der st t)" and rest: "converted al d depth st eoc inp' rest r"
    and t: "ber_ok st (kMaxDepth - depth) t" "inp = ber_bytes t @ inp'"
  shows "converted al d depth st eoc inp (cbb_seq f (cbb_seq body (cbb_seq g rest))) r"
proof (cases "runs al d rest None")
  case True
  from runs_seq [OF assms(1) this] show ?thesis by (simp add: converted_def cbb_seq_assoc)
next
  case False
  then obtain ts where ts: "depth \<le> kMaxDepth" "forest_ok st (kMaxDepth - depth) ts"
    "inp' = forest_bytes ts @ (if eoc then [0, 0] @ r else [])" "\<not> eoc \<longrightarrow> r = []" "runs al d rest (forest_der st ts)"
    using rest unfolding converted_def by blast
  have "runs al d (cbb_seq f (cbb_seq body (cbb_seq g rest))) (forest_der st (t # ts))"
    using runs_seq [OF assms(1) ts(5)] by (simp add: cbb_seq_assoc)
  moreover have "forest_ok st (kMaxDepth - depth) (t # ts)" using t(1) ts(2) by simp
  moreover have "inp = forest_bytes (t # ts) @ (if eoc then [0, 0] @ r else [])" using t(2) ts(3) by simp
  ultimately show ?thesis using ts(1,4) unfolding converted_def by blast
qed

lemma eoc_Some: "fst (cbs_get_eoc s) \<noteq> None \<longleftrightarrow> (\<exists>r. s = [0, 0] @ r)" "snd (cbs_get_eoc ([0, 0] @ r)) = r"
proof -
  have "CBS_skip 2 ([0, 0] @ r) = (Some (), r)" for r by (rule CBS_skip_append) simp
  note sk = this
  then show "snd (cbs_get_eoc ([0, 0] @ r)) = r" by (simp add: cbs_get_eoc_def)
  show "fst (cbs_get_eoc s) \<noteq> None \<longleftrightarrow> (\<exists>r. s = [0, 0] @ r)"
  proof
    assume "fst (cbs_get_eoc s) \<noteq> None"
    then have "length s \<ge> 2" "s ! 0 = 0" "s ! 1 = 0" by (simp_all add: cbs_get_eoc_def split: if_splits)
    then show "\<exists>r. s = [0, 0] @ r" by (cases s; cases "tl s") auto
  next
    assume "\<exists>r. s = [0, 0] @ r"
    then show "fst (cbs_get_eoc s) \<noteq> None" using sk by (auto simp: cbs_get_eoc_def)
  qed
qed

lemma convert_sound:
  assumes "allocates al" and "length inp < size_mod" and "cbs_convert_ber al d depth st eoc inp = (op, r)"
  shows "converted al d depth st eoc inp op r"
  using assms
proof (induction al d depth st eoc inp arbitrary: op r rule: cbs_convert_ber.induct)
  case (1 al d depth st eoc inp)
  note step = cbs_convert_ber.simps [of al d depth st eoc inp]
  note al = "1.prems"(1)
  have fail: "op = cbb_fail \<Longrightarrow> ?case" by (simp add: converted_def runs_fail)
  show ?case
  proof (cases "\<not> kMaxDepth < depth \<and> length inp \<noteq> 0 \<and> \<not> (eoc \<and> fst (cbs_get_eoc inp) \<noteq> None)")
    case False
    then consider "kMaxDepth < depth" | "\<not> kMaxDepth < depth" "length inp = 0"
      | "\<not> kMaxDepth < depth" "length inp \<noteq> 0" "eoc \<and> fst (cbs_get_eoc inp) \<noteq> None" by blast
    then show ?thesis
    proof cases
      case 1
      then show ?thesis using "1.prems"(3) fail unfolding step by simp
    next
      case 2
      then show ?thesis using "1.prems"(3) fail runs_nop [of al d] unfolding step
        by (auto simp: converted_def split: if_splits intro!: exI [of _ "[]"])
    next
      case 3
      then obtain s where "inp = [0, 0] @ s" using eoc_Some(1) by blast
      then show ?thesis using 3 "1.prems"(3) runs_nop [of al d] eoc_Some(2) [of s] unfolding step
        by (auto simp: converted_def intro!: exI [of _ "[]"])
    qed
  next
    case True
    then have n: "\<not> kMaxDepth < depth" "length inp \<noteq> 0" "\<not> (eoc \<and> fst (cbs_get_eoc inp) \<noteq> None)" by simp_all
    note red = step if_not_P [OF n(1)] if_not_P [OF n(2)] if_not_P [OF n(3)]
    obtain x inp' where x: "CBS_get_any_ber_asn1_element inp = (x, inp')" by fastforce
    have sz: "length inp' < size_mod" using ber_element_rest [OF x] "1.prems"(2) by simp
    show ?thesis
    proof (cases "\<exists>e. x = Some e \<and> \<not> (st \<noteq> 0 \<and> el_tag e AND NOT CBS_ASN1_CONSTRUCTED \<noteq> st)")
      case False
      then have "op = cbb_fail" using x "1.prems"(3) unfolding red by (cases x) (auto split: if_splits)
      then show ?thesis by (rule fail)
    next
      case True
      then obtain e where e: "x = Some e" and ok: "\<not> (st \<noteq> 0 \<and> el_tag e AND NOT CBS_ASN1_CONSTRUCTED \<noteq> st)" by blast
      obtain lb c where p: "inp = der_tag (el_tag e) @ lb @ c @ inp'" "valid_tag (el_tag e)"
        "CBS_skip (el_header_len e) (el_out e) = (Some (), c)"
        "len_octets True (el_tag e) lb (length c) (el_ber_found e) (el_indefinite e)"
        "el_indefinite e \<Longrightarrow> lb = [0x80] \<and> c = [] \<and> el_tag e AND CBS_ASN1_CONSTRUCTED \<noteq> 0"
        using ber_element_parts [OF x [unfolded e]] by metis
      have szc: "length c < size_mod" using p(1) "1.prems"(2) by simp
      note IH = "1.IH" [OF n x [symmetric] e ok]
      let ?st = "child_string_tag st (el_tag e)" and ?d = "out_contents d st"
      show ?thesis
      proof (cases "el_indefinite e")
        case ind: True
        obtain body inp'' where b: "cbs_convert_ber al ?d (Suc depth) ?st True inp' = (body, inp'')" by fastforce
        obtain rest q where r: "cbs_convert_ber al d depth st eoc inp'' = (rest, q)" by fastforce
        have op: "op = cbb_seq (open_contents al d st (el_tag e)) (cbb_seq body (cbb_seq (CBB_flush al d) rest))" "q = r"
          using "1.prems"(3) unfolding red by (simp_all only: x e ok ind b r prod.case option.case if_False if_True prod.inject simp_thms)
        have B: "converted al ?d (Suc depth) ?st True inp' body inp''" by (rule IH(1) [OF ind al sz b])
        have "length inp'' < size_mod" using convert_len [OF b] sz by simp
        from IH(2) [OF ind b [symmetric] al this r] have R: "converted al d depth st eoc inp'' rest q" .
        show ?thesis
        proof (cases "runs al ?d body None")
          case True
          from runs_value [OF al this, of "el_tag e"] have "runs al d (cbb_seq (open_contents al d st (el_tag e)) (cbb_seq body (CBB_flush al d))) None"
            by (simp add: put_value_def put_element_def split: if_splits)
          then show ?thesis using converted_fail R op by simp
        next
          case False
          with B obtain ts where ts: "Suc depth \<le> kMaxDepth" "forest_ok ?st (kMaxDepth - Suc depth) ts"
            "inp' = forest_bytes ts @ [0, 0] @ inp''" "runs al ?d body (forest_der ?st ts)"
            unfolding converted_def by auto
          have k: "st \<noteq> 0 \<Longrightarrow> el_tag e AND NOT CBS_ASN1_CONSTRUCTED = st" using ok by blast
          have "inp = ber_bytes (Constr (el_tag e) None ts) @ inp''" using p(1,5) ind ts(3) by simp
          moreover have "ber_ok st (kMaxDepth - depth) (Constr (el_tag e) None ts)"
            using p(2,5) ind k ts(1,2) by simp
          moreover have "runs al d (cbb_seq (open_contents al d st (el_tag e)) (cbb_seq body (CBB_flush al d)))
              (ber_der st (Constr (el_tag e) None ts))"
            using runs_value [OF al ts(4), of "el_tag e"] by simp
          ultimately show ?thesis using converted_cons R op by metis
        qed
      next
        case ind: False
        obtain rest q where r: "cbs_convert_ber al d depth st eoc inp' = (rest, q)" by fastforce
        define body where "body = (if el_tag e AND CBS_ASN1_CONSTRUCTED \<noteq> 0
            then fst (cbs_convert_ber al ?d (Suc depth) ?st False c) else CBB_add_bytes al ?d c)"
        have op: "op = cbb_seq (open_contents al d st (el_tag e)) (cbb_seq body (cbb_seq (CBB_flush al d) rest))" "q = r"
          using "1.prems"(3) unfolding red body_def
          by (simp_all only: x e ok ind p(3) r prod.case option.case if_False prod.inject simp_thms)
        have R: "converted al d depth st eoc inp' rest q" by (rule IH(3) [OF ind p(3) [symmetric] HOL.refl al sz r])
        have k: "st \<noteq> 0 \<Longrightarrow> el_tag e AND NOT CBS_ASN1_CONSTRUCTED = st" using ok by blast
        show ?thesis
        proof (cases "el_tag e AND CBS_ASN1_CONSTRUCTED \<noteq> 0")
          case False
          then have "body = CBB_add_bytes al ?d c" by (simp add: body_def)
          then have "runs al ?d body (Some c)" using runs_appends [OF add_bytes_appends [OF al szc]] by simp
          from runs_value [OF al this, of "el_tag e"] have "runs al d (cbb_seq (open_contents al d st (el_tag e))
              (cbb_seq body (CBB_flush al d))) (ber_der st (Prim (el_tag e) lb c))" by simp
          moreover have "ber_ok st (kMaxDepth - depth) (Prim (el_tag e) lb c)" using p(2,4) ind k False by auto
          moreover have "inp = ber_bytes (Prim (el_tag e) lb c) @ inp'" using p(1) by simp
          ultimately show ?thesis using converted_cons R op by metis
        next
          case con: True
          obtain b' q' where b: "cbs_convert_ber al ?d (Suc depth) ?st False c = (b', q')" by fastforce
          then have body: "body = b'" using con by (simp add: body_def)
          have B: "converted al ?d (Suc depth) ?st False c b' q'"
            using IH(4) [OF ind p(3) [symmetric] HOL.refl r [symmetric] con al szc b] .
          show ?thesis
          proof (cases "runs al ?d body None")
            case True
            from runs_value [OF al this, of "el_tag e"] have "runs al d (cbb_seq (open_contents al d st (el_tag e)) (cbb_seq body (CBB_flush al d))) None"
              by (simp add: put_value_def put_element_def split: if_splits)
            then show ?thesis using converted_fail R op by simp
          next
            case False
            with B obtain ts where ts: "Suc depth \<le> kMaxDepth" "forest_ok ?st (kMaxDepth - Suc depth) ts"
              "c = forest_bytes ts" "runs al ?d body (forest_der ?st ts)"
              unfolding converted_def body by auto
            have "inp = ber_bytes (Constr (el_tag e) (Some lb) ts) @ inp'" using p(1) ts(3) by simp
            moreover have "ber_ok st (kMaxDepth - depth) (Constr (el_tag e) (Some lb) ts)"
              using p(2,4) ind con k ts(1,2,3) by auto
            moreover have "runs al d (cbb_seq (open_contents al d st (el_tag e)) (cbb_seq body (CBB_flush al d)))
                (ber_der st (Constr (el_tag e) (Some lb) ts))"
              using runs_value [OF al ts(4), of "el_tag e"] by simp
            ultimately show ?thesis using converted_cons R op by metis
          qed
        qed
      qed
    qed
  qed
qed

subsection \<open>The conversion of a BER value\<close>

lemma get_ber_element:
  assumes "valid_tag tag" and "len_octets True tag lb (length c) bf ind"
  defines "e \<equiv> \<lparr>el_out = der_tag tag @ lb @ c, el_tag = tag, el_header_len = length (der_tag tag) + length lb,
    el_ber_found = bf, el_indefinite = ind\<rparr>"
  shows "CBS_get_any_ber_asn1_element (der_tag tag @ lb @ c @ r) = (Some e, r)"
    and "CBS_skip (el_header_len e) (el_out e) = (Some (), c)"
proof -
  show "CBS_get_any_ber_asn1_element (der_tag tag @ lb @ c @ r) = (Some e, r)"
    unfolding CBS_get_any_ber_asn1_element_def any_element_Some using assms by (auto simp: e_def)
  define h where "h = der_tag tag @ lb"
  have "CBS_skip (length h) (h @ c) = (Some (), c)" by simp
  then show "CBS_skip (el_header_len e) (el_out e) = (Some (), c)" by (simp add: e_def h_def)
qed

lemma der_tag_hd:
  assumes "valid_tag tag"
  shows "hd (der_tag tag) \<noteq> 0"
proof
  assume z: "hd (der_tag tag) = 0"
  let ?c = "unat tag div 536870912" and ?n = "unat tag mod 536870912"
  have c: "?c < 8" using unat_u32_less [of tag] by (simp add: less_mult_imp_div_less)
  have u: "m < 256 \<Longrightarrow> (word_of_nat m :: byte) = 0 \<longleftrightarrow> m = 0" for m by (simp add: word_unat_eq_iff unat_byte_of_nat)
  show False
  proof (cases "?n \<ge> 31")
    case True
    then have "(word_of_nat (?c * 32 + 31) :: byte) = 0" using z by (simp add: der_tag_def Let_def)
    then show False using u [of "?c * 32 + 31"] c by simp
  next
    case False
    then have "(word_of_nat (?c * 32 + ?n) :: byte) = 0" using z by (simp add: der_tag_def Let_def)
    then have "?c = 0" "?n = 0" using u [of "?c * 32 + ?n"] c False by simp_all
    then have "unat tag = 0" by (metis div_mult_mod_eq mult_0 add_0)
    then have "tag = 0" by (simp only: word_unat_eq_iff unat_0)
    then show False using assms by (simp add: valid_tag_def)
  qed
qed

lemma der_tag_not_eoc: "valid_tag tag \<Longrightarrow> fst (cbs_get_eoc (der_tag tag @ s)) = None"
proof -
  assume "valid_tag tag"
  then obtain b bs where "der_tag tag = b # bs" "b \<noteq> 0"
    using der_tag_hd [of tag] length_der_tag(2) [of tag] by (cases "der_tag tag") auto
  then show ?thesis by (simp add: cbs_get_eoc_def)
qed

lemma len_octets_definite: "len_octets False tag lb n bf ind \<Longrightarrow> len_octets True tag lb n bf ind"
  by (auto simp: len_octets_def)

lemma len_octets_bound: "len_octets True tag lb n bf ind \<Longrightarrow> n < 4294967296"
proof -
  assume "len_octets True tag lb n bf ind"
  then consider "n < 128" | bs where "n = be_nat bs" "length bs \<le> 4" by (auto simp: len_octets_def)
  then show ?thesis
  proof cases
    case 2
    have "be_nat bs < 256 ^ length bs" by (rule be_nat_less)
    also have "\<dots> \<le> 256 ^ 4" using 2(2) by (intro power_increasing) simp_all
    finally show ?thesis using 2(1) by simp
  qed simp
qed

lemma len_octets_canonical: "n < 4294967296 \<Longrightarrow> len_octets True tag (der_len n) n False False"
  using len_octets_definite [of tag "der_len n" n False False] len_octets_der [of tag "der_len n" n False False] by simp

text \<open>One step of the two traversals.\<close>

lemma find_ber_step:
  assumes "valid_tag tag" and "len_octets True tag lb (length c) bf ind" and "depth \<le> kMaxDepth"
  shows "cbs_find_ber depth (der_tag tag @ lb @ c @ r) =
    (if bf then Some True
     else if tag AND CBS_ASN1_CONSTRUCTED \<noteq> 0
     then if is_string_type tag then Some True
          else (case cbs_find_ber (Suc depth) c of None \<Rightarrow> None | Some True \<Rightarrow> Some True | Some False \<Rightarrow> cbs_find_ber depth r)
     else cbs_find_ber depth r)"
  using get_ber_element [OF assms(1,2)] assms(3) length_der_tag(2) [of tag]
  by (subst cbs_find_ber.simps) simp

lemma convert_step:
  assumes tag: "valid_tag tag" and lb: "len_octets True tag lb (length c) bf ind" and d: "depth \<le> kMaxDepth"
    and st: "st \<noteq> 0 \<longrightarrow> tag AND NOT CBS_ASN1_CONSTRUCTED = st"
  shows "cbs_convert_ber al d depth st eoc (der_tag tag @ lb @ c @ inp) =
    (if ind
     then (case cbs_convert_ber al (out_contents d st) (Suc depth) (child_string_tag st tag) True inp of
             (body, inp') \<Rightarrow>
           (case cbs_convert_ber al d depth st eoc inp' of
              (rest, r) \<Rightarrow> (cbb_seq (open_contents al d st tag) (cbb_seq body (cbb_seq (CBB_flush al d) rest)), r)))
     else (case cbs_convert_ber al d depth st eoc inp of
             (rest, r) \<Rightarrow>
               (cbb_seq (open_contents al d st tag) (cbb_seq
                  (if tag AND CBS_ASN1_CONSTRUCTED \<noteq> 0
                   then fst (cbs_convert_ber al (out_contents d st) (Suc depth) (child_string_tag st tag) False c)
                   else CBB_add_bytes al (out_contents d st) c)
                  (cbb_seq (CBB_flush al d) rest)), r)))"
proof -
  have n: "\<not> kMaxDepth < depth" "length (der_tag tag @ lb @ c @ inp) \<noteq> 0"
    "\<not> (eoc \<and> fst (cbs_get_eoc (der_tag tag @ lb @ c @ inp)) \<noteq> None)"
    "\<not> (st \<noteq> 0 \<and> tag AND NOT CBS_ASN1_CONSTRUCTED \<noteq> st)"
    using d length_der_tag(2) [of tag] der_tag_not_eoc [OF tag] st by auto
  show ?thesis
    unfolding cbs_convert_ber.simps [of al d depth st eoc "der_tag tag @ lb @ c @ inp"]
      if_not_P [OF n(1)] if_not_P [OF n(2)] if_not_P [OF n(3)]
    using get_ber_element(1) [OF tag lb, of inp] get_ber_element(2) [OF tag lb] st
    by (cases "st = 0") (simp_all split: prod.split)
qed

subsection \<open>The output is DER\<close>

lemma not_constructed: "(tag AND NOT CBS_ASN1_CONSTRUCTED) AND CBS_ASN1_CONSTRUCTED = 0"
  by (simp add: and.assoc)

lemma valid_base_tag: "valid_tag tag \<Longrightarrow> valid_tag (tag AND NOT CBS_ASN1_CONSTRUCTED)"
  by (simp add: valid_tag_def and.assoc)

lemma find_ber_element:
  assumes "valid_tag tag" and "length c \<le> 0xfffffffe" and "depth \<le> kMaxDepth"
    and "tag AND CBS_ASN1_CONSTRUCTED \<noteq> 0 \<Longrightarrow> \<not> is_string_type tag \<and> cbs_find_ber (Suc depth) c = Some False"
  shows "cbs_find_ber depth (der_element tag c @ r) = cbs_find_ber depth r"
  using find_ber_step [OF assms(1) len_octets_canonical assms(3), of c r] assms(2,4)
  by (auto simp: der_element_def der_header_def)

lemma value_clean:
  "ber_ok 0 (kMaxDepth - depth) t \<Longrightarrow> depth \<le> kMaxDepth \<Longrightarrow> ber_der 0 t = Some x \<Longrightarrow>
     cbs_find_ber depth (x @ r) = cbs_find_ber depth r"
proof (induction t arbitrary: depth x r)
  case (Prim tag lb c)
  then show ?case
    using find_ber_element [of tag c depth r] by (auto simp: put_value_def put_element_def joins_def split: if_splits)
next
  case (Constr tag l ts)
  have tag: "valid_tag tag" "tag AND CBS_ASN1_CONSTRUCTED \<noteq> 0" "Suc depth \<le> kMaxDepth" using Constr.prems by auto
  obtain c where c: "forest_der (child_string_tag 0 tag) ts = Some c" "length c \<le> 0xfffffffe"
    "x = der_element (if joins tag then tag AND NOT CBS_ASN1_CONSTRUCTED else tag) c"
    using Constr.prems(3) by (auto simp: put_value_def put_element_def split: option.splits if_splits)
  show ?case
  proof (cases "joins tag")
    case True
    then show ?thesis
      using find_ber_element [OF valid_base_tag [OF tag(1)] c(2) Constr.prems(2)] not_constructed c(3) by simp
  next
    case False
    then have ok: "\<forall>t \<in> set ts. ber_ok 0 (kMaxDepth - Suc depth) t" "forest_der 0 ts = Some c"
      using Constr.prems(1) c(1) by (auto simp: child_string_tag_def)
    have "cbs_find_ber (Suc depth) c = Some False" if "set us \<subseteq> set ts" "forest_der 0 us = Some c" for us c
      using that
    proof (induction us arbitrary: c)
      case Nil
      then show ?case using tag(3) by (simp add: cbs_find_ber.simps)
    next
      case (Cons u us)
      then obtain a b where ab: "ber_der 0 u = Some a" "forest_der 0 us = Some b" "c = a @ b" by (auto simp: append_opt_Some)
      then show ?case using Cons Constr.IH [of u "Suc depth" a b] ok(1) tag(3) by auto
    qed
    from this [OF subset_refl ok(2)] show ?thesis
      using find_ber_element [OF tag(1) c(2) Constr.prems(2)] False tag(2) c(3) by (simp add: joins_def)
  qed
qed

lemma forest_clean:
  "forest_ok 0 kMaxDepth ts \<Longrightarrow> forest_der 0 ts = Some out \<Longrightarrow> cbs_find_ber 0 out = Some False"
proof (induction ts arbitrary: out)
  case Nil
  then show ?case by (simp add: cbs_find_ber.simps)
next
  case (Cons t ts)
  then show ?case using value_clean [of 0 t] by (auto simp: append_opt_Some)
qed

subsection \<open>Every BER value is converted\<close>

text \<open>\<open>f\<close> is what the loop does for the bytes \<open>p\<close> at the start of its input.\<close>

definition converts :: "allocator \<Rightarrow> nat \<Rightarrow> nat \<Rightarrow> u32 \<Rightarrow> byte list \<Rightarrow> (cbb \<Rightarrow> bool \<times> cbb) \<Rightarrow> bool" where
  "converts al d depth st p f \<longleftrightarrow>
     (\<forall>eoc inp. cbs_convert_ber al d depth st eoc (p @ inp) =
        (case cbs_convert_ber al d depth st eoc inp of (rest, r) \<Rightarrow> (cbb_seq f rest, r)))"

lemma cbb_seq_nop [simp]: "cbb_seq cbb_nop f = f"
  by (simp add: fun_eq_iff cbb_seq_def cbb_nop_def)

lemma converts_forest:
  assumes "\<And>t. t \<in> set ts \<Longrightarrow> \<exists>f. runs al d f (ber_der st t) \<and> converts al d depth st (ber_bytes t) f"
  shows "\<exists>f. runs al d f (forest_der st ts) \<and> converts al d depth st (forest_bytes ts) f"
  using assms
proof (induction ts)
  case Nil
  have "converts al d depth st (forest_bytes []) cbb_nop" by (simp add: converts_def)
  then show ?case using runs_nop by auto
next
  case (Cons t ts)
  obtain f where f: "runs al d f (ber_der st t)" "converts al d depth st (ber_bytes t) f" using Cons.prems by auto
  obtain g where g: "runs al d g (forest_der st ts)" "converts al d depth st (forest_bytes ts) g" using Cons by auto
  have "converts al d depth st (forest_bytes (t # ts)) (cbb_seq f g)"
    using f(2) g(2) by (simp add: converts_def cbb_seq_assoc split: prod.splits)
  then show ?case using runs_seq [OF f(1) g(1)] by auto
qed

lemma converts_all:
  assumes "converts al d depth st p f" and "depth \<le> kMaxDepth"
  shows "cbs_convert_ber al d depth st False p = (f, [])"
    and "cbs_convert_ber al d depth st True (p @ [0, 0] @ r) = (f, r)"
proof -
  have "cbs_convert_ber al d depth st False [] = (cbb_nop, [])"
    using assms(2) by (subst cbs_convert_ber.simps) simp
  then show "cbs_convert_ber al d depth st False p = (f, [])"
    using assms(1) unfolding converts_def by (metis append_Nil2 case_prod_conv cbb_nop_right)
  have "fst (cbs_get_eoc ([0, 0] @ r)) \<noteq> None" "length ([0, 0] @ r) \<noteq> 0" using eoc_Some(1) by auto
  then have "cbs_convert_ber al d depth st True ([0, 0] @ r) = (cbb_nop, r)"
    using assms(2) eoc_Some(2) [of r] by (subst cbs_convert_ber.simps) simp
  then show "cbs_convert_ber al d depth st True (p @ [0, 0] @ r) = (f, r)"
    using assms(1) unfolding converts_def by (metis case_prod_conv cbb_nop_right)
qed

lemma converts_value:
  assumes al: "allocates al"
  shows "ber_ok st (kMaxDepth - depth) t \<Longrightarrow> depth \<le> kMaxDepth \<Longrightarrow> length (ber_bytes t) < size_mod \<Longrightarrow>
     \<exists>f. runs al d f (ber_der st t) \<and> converts al d depth st (ber_bytes t) f"
proof (induction t arbitrary: d depth st)
  case (Prim tag lb c)
  then obtain bf where ok: "valid_tag tag" "tag AND CBS_ASN1_CONSTRUCTED = 0" "len_octets True tag lb (length c) bf False"
    "st \<noteq> 0 \<longrightarrow> tag AND NOT CBS_ASN1_CONSTRUCTED = st" by auto
  let ?f = "cbb_seq (open_contents al d st tag) (cbb_seq (CBB_add_bytes al (out_contents d st) c) (CBB_flush al d))"
  have sz: "length c < size_mod" using Prim.prems(3) by simp
  have "runs al d ?f (ber_der st (Prim tag lb c))"
    using runs_value [OF al runs_appends [OF add_bytes_appends [OF al sz]]] by simp
  moreover have "converts al d depth st (ber_bytes (Prim tag lb c)) ?f"
    using convert_step [OF ok(1,3) Prim.prems(2) ok(4)] ok(2) by (simp add: converts_def cbb_seq_assoc)
  ultimately show ?case by blast
next
  case (Constr tag l ts)
  have ok: "valid_tag tag" "tag AND CBS_ASN1_CONSTRUCTED \<noteq> 0" "st \<noteq> 0 \<longrightarrow> tag AND NOT CBS_ASN1_CONSTRUCTED = st"
    "Suc depth \<le> kMaxDepth" using Constr.prems by auto
  let ?st = "child_string_tag st tag" and ?d = "out_contents d st"
  have "length (forest_bytes ts) < size_mod" using Constr.prems(3) by (cases l) auto
  then have "length (ber_bytes t) < size_mod" if "t \<in> set ts" for t
    using that by (induction ts) auto
  then have "\<exists>f. runs al ?d f (ber_der ?st t) \<and> converts al ?d (Suc depth) ?st (ber_bytes t) f" if "t \<in> set ts" for t
    using Constr.IH [OF that, of ?st "Suc depth" ?d] Constr.prems(1) ok(4) that by simp
  then obtain g where g: "runs al ?d g (forest_der ?st ts)" "converts al ?d (Suc depth) ?st (forest_bytes ts) g"
    using converts_forest by blast
  let ?f = "cbb_seq (open_contents al d st tag) (cbb_seq g (CBB_flush al d))"
  have "runs al d ?f (ber_der st (Constr tag l ts))" using runs_value [OF al g(1), of tag] by simp
  moreover have "converts al d depth st (ber_bytes (Constr tag l ts)) ?f"
  proof (cases l)
    case None
    have "len_octets True tag [0x80] (length ([] :: byte list)) True True" using ok(2) by (simp add: len_octets_def)
    from convert_step [OF ok(1) this Constr.prems(2) ok(3), of al d] show ?thesis
      using converts_all(2) [OF g(2) ok(4)] None by (simp add: converts_def cbb_seq_assoc)
  next
    case (Some lb)
    then obtain bf where "len_octets True tag lb (length (forest_bytes ts)) bf False" using Constr.prems(1) by auto
    from convert_step [OF ok(1) this Constr.prems(2) ok(3), of al d] show ?thesis
      using converts_all(1) [OF g(2) ok(4)] Some ok(2) by (simp add: converts_def cbb_seq_assoc)
  qed
  ultimately show ?case by blast
qed

lemma convert_complete:
  assumes al: "allocates al" and ok: "forest_ok 0 kMaxDepth ts" and sz: "length (forest_bytes ts) < size_mod"
  obtains f where "runs al 0 f (forest_der 0 ts)" and "cbs_convert_ber al 0 0 0 False (forest_bytes ts) = (f, [])"
proof -
  have "length (ber_bytes t) < size_mod" if "t \<in> set ts" for t
    using that sz by (induction ts) auto
  then have "\<exists>f. runs al 0 f (ber_der 0 t) \<and> converts al 0 0 0 (ber_bytes t) f" if "t \<in> set ts" for t
    using converts_value [OF al, of 0 0 t 0] ok that by simp
  then obtain f where f: "runs al 0 f (forest_der 0 ts)" "converts al 0 0 0 (forest_bytes ts) f"
    using converts_forest by blast
  with converts_all(1) [OF f(2)] that show thesis by simp
qed

subsection \<open>The search for BER\<close>

text \<open>\<open>cbs_find_ber\<close> says of every sequence of BER values whether one of them is not in DER form.\<close>

lemma len_octets_minimal:
  assumes "len_octets True tag lb n bf False"
  shows "bf \<longleftrightarrow> lb \<noteq> der_len n"
proof (cases bf)
  case True
  then obtain b bs where l: "lb = b # bs" "unat b = 128 + length bs" "n < 128 \<or> n < 256 ^ (length bs - 1)"
    using assms by (auto simp: len_octets_def)
  have False if "lb = der_len n" "n < 4294967296"
    using len_octets_canonical [of n tag] that l by (auto simp: len_octets_def)
  moreover have "n < 4294967296" using len_octets_bound [OF assms] .
  ultimately show ?thesis using True by blast
next
  case False
  then have "len_octets False tag lb n bf False" using assms by (auto simp: len_octets_def)
  then show ?thesis using False len_octets_der by blast
qed

lemma string_type_tags: "is_string_type tag \<longleftrightarrow> tag AND NOT CBS_ASN1_CONSTRUCTED \<in> {4, 12, 18, 19, 20, 21, 22, 25, 26, 27, 28, 30}"
  by (simp add: is_string_type_def)

lemma find_ber_Nil: "depth \<le> kMaxDepth \<Longrightarrow> cbs_find_ber depth [] = Some False"
  by (simp add: cbs_find_ber.simps)

lemma find_values:
  assumes "\<And>t r. t \<in> set ts \<Longrightarrow> cbs_find_ber depth (ber_bytes t @ r) = (if der_form t then cbs_find_ber depth r else Some True)"
    and "depth \<le> kMaxDepth"
  shows "cbs_find_ber depth (forest_bytes ts) = Some (\<not> list_all der_form ts)"
  using assms by (induction ts) (simp_all add: find_ber_Nil)

lemma find_value:
  "ber_ok 0 (kMaxDepth - depth) t \<Longrightarrow> depth \<le> kMaxDepth \<Longrightarrow>
     cbs_find_ber depth (ber_bytes t @ r) = (if der_form t then cbs_find_ber depth r else Some True)"
proof (induction t arbitrary: depth r)
  case (Prim tag lb c)
  then obtain bf where ok: "valid_tag tag" "tag AND CBS_ASN1_CONSTRUCTED = 0" "len_octets True tag lb (length c) bf False" by auto
  from find_ber_step [OF ok(1,3) Prim.prems(2), of r] len_octets_minimal [OF ok(3)] ok(2) show ?case by simp
next
  case (Constr tag l ts)
  have ok: "valid_tag tag" "tag AND CBS_ASN1_CONSTRUCTED \<noteq> 0" "Suc depth \<le> kMaxDepth" using Constr.prems by auto
  show ?case
  proof (cases l)
    case None
    have "len_octets True tag [0x80] (length ([] :: byte list)) True True" using ok(2) by (simp add: len_octets_def)
    from find_ber_step [OF ok(1) this Constr.prems(2)] None show ?thesis by simp
  next
    case (Some lb)
    then obtain bf where lb: "len_octets True tag lb (length (forest_bytes ts)) bf False" using Constr.prems(1) by auto
    note step = find_ber_step [OF ok(1) lb Constr.prems(2), of r] len_octets_minimal [OF lb]
    show ?thesis
    proof (cases "bf \<or> is_string_type tag")
      case True
      then show ?thesis using step ok(2) Some string_type_tags [of tag] by auto
    next
      case False
      then have "\<forall>t \<in> set ts. ber_ok 0 (kMaxDepth - Suc depth) t"
        using Constr.prems(1) by (auto simp: child_string_tag_def joins_def)
      then have "cbs_find_ber (Suc depth) (forest_bytes ts) = Some (\<not> list_all der_form ts)"
        using Constr.IH ok(3) by (intro find_values) simp_all
      then show ?thesis using step False ok(2) Some string_type_tags [of tag] by (auto simp: list_all_iff)
    qed
  qed
qed

lemma find_forest: "forest_ok 0 kMaxDepth ts \<Longrightarrow> cbs_find_ber 0 (forest_bytes ts) = Some (\<not> list_all der_form ts)"
  by (rule find_values) (simp_all add: find_value)

text \<open>When it finds nothing, the input is a sequence of values in DER form.\<close>

lemma find_ber_sound:
  "cbs_find_ber depth s = Some False \<Longrightarrow> \<exists>ts. s = forest_bytes ts \<and> forest_ok 0 (kMaxDepth - depth) ts \<and> list_all der_form ts"
proof (induction depth s rule: cbs_find_ber.induct)
  case (1 depth s)
  have d: "depth \<le> kMaxDepth" using "1.prems" by (subst (asm) cbs_find_ber.simps) (auto split: if_splits)
  show ?case
  proof (cases "s = []")
    case True
    then show ?thesis by (intro exI [of _ "[]"]) simp
  next
    case False
    then obtain e r where e: "CBS_get_any_ber_asn1_element s = (Some e, r)"
      using "1.prems" d by (subst (asm) cbs_find_ber.simps) (auto split: prod.splits option.splits)
    obtain lb c where s: "s = der_tag (el_tag e) @ lb @ c @ r" "valid_tag (el_tag e)"
      "CBS_skip (el_header_len e) (el_out e) = (Some (), c)" "len_octets True (el_tag e) lb (length c) (el_ber_found e) (el_indefinite e)"
      by (rule ber_element_parts [OF e])
    note step = find_ber_step [OF s(2,4) d, of r, folded s(1)]
    note IH = "1.IH" [OF _ _ e [symmetric] refl]
    have bf: "\<not> el_ber_found e" using step "1.prems" by (auto split: if_splits)
    then have lb: "len_octets True (el_tag e) lb (length c) False False" using s(4) by (auto simp: len_octets_def)
    then have lb': "lb = der_len (length c)" using len_octets_minimal by blast
    show ?thesis
    proof (cases "el_tag e AND CBS_ASN1_CONSTRUCTED = 0")
      case True
      then have "cbs_find_ber depth r = Some False" using step "1.prems" bf by simp
      then obtain ts where ts: "r = forest_bytes ts" "forest_ok 0 (kMaxDepth - depth) ts" "list_all der_form ts"
        using IH(3) d False bf True by auto
      then show ?thesis using s(1,2) lb lb' True by (intro exI [of _ "Prim (el_tag e) lb c # ts"]) auto
    next
      case con: False
      then have f: "\<not> is_string_type (el_tag e)" "cbs_find_ber (Suc depth) c = Some False" "cbs_find_ber depth r = Some False"
        using step "1.prems" bf by (auto split: if_splits option.splits bool.splits)
      obtain us where us: "c = forest_bytes us" "forest_ok 0 (kMaxDepth - Suc depth) us" "list_all der_form us"
        using IH(1) [OF _ _ bf con f(1) s(3) [symmetric]] d False f(2) by auto
      obtain ts where ts: "r = forest_bytes ts" "forest_ok 0 (kMaxDepth - depth) ts" "list_all der_form ts"
        using IH(2) [OF _ _ bf con f(1) s(3) [symmetric]] d False f(2,3) by auto
      have "Suc depth \<le> kMaxDepth" using f(2) by (subst (asm) cbs_find_ber.simps) (auto split: if_splits)
      then have "ber_ok 0 (kMaxDepth - depth) (Constr (el_tag e) (Some lb) us)"
        using s(2) con lb us(1,2) f(1) by (auto simp: child_string_tag_def joins_def)
      moreover have "der_form (Constr (el_tag e) (Some lb) us)"
        using us(1,3) lb' f(1) string_type_tags [of "el_tag e"] by (auto simp: list_all_iff)
      ultimately show ?thesis using s(1) us(1) ts by (intro exI [of _ "Constr (el_tag e) (Some lb) us # ts"]) auto
    qed
  qed
qed

subsection \<open>\<open>CBS_asn1_ber_to_der\<close>\<close>

lemma build_runs:
  assumes al: "allocates al" and cap: "cap < size_mod" and op: "runs al 0 op r"
  shows "cbb_build al cap op = Some out \<Longrightarrow> r = Some out"
    and "(\<forall>n. al n \<noteq> None) \<Longrightarrow> r = Some bs \<Longrightarrow> length bs < size_mod \<Longrightarrow> cbb_build al cap op = Some bs"
proof -
  obtain ok0 s0 where 0: "CBB_init al cap = (ok0, s0)" by fastforce
  obtain ok1 s1 where 1: "op s0 = (ok1, s1)" by fastforce
  note I = CBB_init_spec [OF al cap 0]
  have s0: "ok_state s0" "contents s0 = []" "length (cbb_chain s0) = 0" "can_resize (cbb_base s0)" if ok0
    using I(1) that by simp_all
  have fin: "fst (CBB_finish al 0 True s1) = Some (contents s1)" if "ok_state s1" "cbb_chain s1 = []"
    using that CBB_flush_cases(3) [of s1 0 al] by (simp add: CBB_finish_def contents_def)
  have b: "cbb_build al cap op = (if ok0 \<and> ok1 then fst (CBB_finish al 0 True s1) else None)"
    using 0 1 by (simp add: cbb_build_def cbb_seq_def split: bool.splits)
  have s1: "\<exists>bs. r = Some bs \<and> contents s1 = bs \<and> fst (CBB_finish al 0 True s1) = Some bs" if ok0 ok1
    using runsD(1) [OF op s0(1,3) [OF that(1)] 1 that(2)] s0 [OF that(1)] fin by auto
  show "cbb_build al cap op = Some out \<Longrightarrow> r = Some out" using b s1 by (auto split: if_splits)
  assume free: "\<forall>n. al n \<noteq> None" and bs: "r = Some bs" "length bs < size_mod"
  have ok0: ok0 using I(2) free by simp
  then have "unbounded al s0" using s0(4) free by (simp add: unbounded_def)
  then have ok1: ok1 using runsD(2) [OF op s0(1,3) [OF ok0] 1 bs(1)] s0(2) [OF ok0] bs(2) by simp
  show "cbb_build al cap op = Some bs" using b ok0 ok1 s1 [OF ok0 ok1] bs(1) by auto
qed

lemma ber_to_der_sound:
  assumes al: "allocates al" and sz: "length inp < size_mod"
    and r: "CBS_asn1_ber_to_der al inp = (Some (out, stored), r)"
  shows "\<exists>us. out = forest_bytes us \<and> forest_ok 0 kMaxDepth us \<and> list_all der_form us"
    and "stored \<Longrightarrow> r = [] \<and> (\<exists>ts. forest_ok 0 kMaxDepth ts \<and> inp = forest_bytes ts \<and> forest_der 0 ts = Some out)"
    and "\<not> stored \<Longrightarrow> inp = out @ r"
proof -
  obtain needed where n: "cbs_find_ber 0 inp = Some needed" using r by (auto simp: CBS_asn1_ber_to_der_def split: option.splits)
  have "cbs_find_ber 0 out = Some False \<and> (if stored then r = [] \<and>
      (\<exists>ts. forest_ok 0 kMaxDepth ts \<and> inp = forest_bytes ts \<and> forest_der 0 ts = Some out) else inp = out @ r)"
  proof (cases needed)
    case False
    then obtain e where e: "CBS_get_any_asn1_element inp = (Some e, r)" "out = el_out e" "\<not> stored"
      using r n by (auto simp: CBS_asn1_ber_to_der_def rret_def elim: rbind_SomeE)
    then obtain tag c where c: "inp = der_element tag c @ r" "valid_tag tag" "length c < 4294967296" "out = der_element tag c"
      unfolding CBS_get_any_asn1_element_Some by auto
    note step = find_ber_step [OF c(2) len_octets_canonical [OF c(3)], of 0]
    have "cbs_find_ber 0 [] = Some False" by (simp add: cbs_find_ber.simps)
    then have "cbs_find_ber 0 out = Some False"
      using step [of r] step [of "[]"] n False c(1,4)
      by (auto simp: der_element_def der_header_def split: if_splits option.splits bool.splits)
    then show ?thesis using e(3) c(1,4) by simp
  next
    case True
    obtain op q where op: "cbs_convert_ber al 0 0 0 False inp = (op, q)" by fastforce
    have b: "cbb_build al (length inp) op = Some out" "stored" "q = r"
      using r n True op by (auto simp: CBS_asn1_ber_to_der_def)
    from convert_sound [OF al sz op] consider "runs al 0 op None"
      | ts where "forest_ok 0 kMaxDepth ts" "inp = forest_bytes ts" "q = []" "runs al 0 op (forest_der 0 ts)"
      unfolding converted_def by auto
    then show ?thesis
    proof cases
      case 1
      then show ?thesis using build_runs(1) [OF al sz 1 b(1)] by simp
    next
      case 2
      then have "forest_der 0 ts = Some out" using build_runs(1) [OF al sz 2(4) b(1)] by simp
      then show ?thesis using forest_clean [OF 2(1)] 2 b by auto
    qed
  qed
  then show "\<exists>us. out = forest_bytes us \<and> forest_ok 0 kMaxDepth us \<and> list_all der_form us"
    and "stored \<Longrightarrow> r = [] \<and> (\<exists>ts. forest_ok 0 kMaxDepth ts \<and> inp = forest_bytes ts \<and> forest_der 0 ts = Some out)"
    and "\<not> stored \<Longrightarrow> inp = out @ r" using find_ber_sound [of 0 out] by (simp_all split: if_splits)
qed

lemma ber_to_der_complete:
  assumes al: "allocates al" and free: "\<forall>n. al n \<noteq> None" and ok: "forest_ok 0 kMaxDepth ts"
    and sz: "length (forest_bytes ts) < size_mod" and out: "forest_der 0 ts = Some out" "length out < size_mod"
    and ber: "\<not> list_all der_form ts"
  shows "CBS_asn1_ber_to_der al (forest_bytes ts) = (Some (out, True), [])"
proof -
  obtain f where f: "runs al 0 f (forest_der 0 ts)" "cbs_convert_ber al 0 0 0 False (forest_bytes ts) = (f, [])"
    by (rule convert_complete [OF al ok sz])
  show ?thesis
    using f(2) find_forest [OF ok] ber build_runs(2) [OF al sz f(1) free out] by (simp add: CBS_asn1_ber_to_der_def)
qed

lemma der_form_element:
  assumes "ber_ok st k t" and "der_form t"
  obtains tag c where "ber_bytes t = der_element tag c" and "valid_tag tag" and "length c < 4294967296"
proof (cases t)
  case (Prim tag lb c)
  then have "valid_tag tag" "length c < 4294967296" "lb = der_len (length c)" using assms by (auto dest: len_octets_bound)
  then show thesis using that [of tag c] Prim by (simp add: der_element_def der_header_def)
next
  case (Constr tag l ts)
  let ?c = "forest_bytes ts"
  have "valid_tag tag" "length ?c < 4294967296" "l = Some (der_len (length ?c))" using assms Constr by (auto dest: len_octets_bound)
  then show thesis using that [of tag ?c] Constr by (simp add: der_element_def der_header_def)
qed

lemma ber_to_der_unchanged:
  assumes ok: "forest_ok 0 kMaxDepth (t # ts)" and der: "list_all der_form (t # ts)"
  shows "CBS_asn1_ber_to_der al (forest_bytes (t # ts)) = (Some (ber_bytes t, False), forest_bytes ts)"
proof -
  obtain tag c where t: "ber_bytes t = der_element tag c" "valid_tag tag" "length c < 4294967296"
    using der_form_element [of 0 kMaxDepth t] ok der by auto
  obtain e where e: "CBS_get_any_asn1_element (der_element tag c @ forest_bytes ts) = (Some e, forest_bytes ts)"
    "el_out e = der_element tag c"
    using t(2,3) by (fastforce simp: CBS_get_any_asn1_element_Some)
  have "cbs_find_ber 0 (forest_bytes (t # ts)) = Some False" using find_forest [OF ok] der by simp
  then show ?thesis using e t(1) by (simp add: CBS_asn1_ber_to_der_def rret_def)
qed

subsection \<open>Constructed strings\<close>

lemma length_der_element: "der_element tag c \<noteq> []"
  by (simp add: der_element_def der_header_def length_der_tag(2))

lemma implicit_loop_runs:
  assumes al: "allocates al" and tag: "valid_tag inner" and c: "\<forall>c \<in> set cs. length c < 2 ^ 32"
  shows "runs al 0 (implicit_string_loop al inner (concat (map (der_element inner) cs))) (Some (concat cs))"
  using c
proof (induction cs)
  case Nil
  then show ?case by (simp add: implicit_string_loop.simps runs_nop)
next
  case (Cons c cs)
  have "CBS_get_asn1 inner (der_element inner c @ concat (map (der_element inner) cs)) =
      (Some c, concat (map (der_element inner) cs))"
    using Cons.prems tag by (simp add: CBS_get_asn1_Some)
  moreover have "length c < size_mod" using Cons.prems by simp
  ultimately show ?case
    using runs_seq [OF runs_appends [OF add_bytes_appends [OF al, of c 0]] Cons.IH] Cons.prems
      length_der_element [of inner c] by (subst implicit_string_loop.simps) simp
qed

lemma implicit_string_constructed:
  assumes al: "allocates al" and free: "\<forall>n. al n \<noteq> None"
    and tags: "outer AND CBS_ASN1_CONSTRUCTED = 0" "valid_tag outer" "valid_tag inner"
    and inner: "inner AND CBS_ASN1_CONSTRUCTED = 0" "is_string_type inner"
    and c: "\<forall>c \<in> set cs. length c < 2 ^ 32" "length (concat (map (der_element inner) cs)) < 2 ^ 32"
    and s: "s = der_element (outer OR CBS_ASN1_CONSTRUCTED) (concat (map (der_element inner) cs)) @ r" "length s < size_mod"
  shows "CBS_get_asn1_implicit_string al outer inner s = Ret (Some (concat cs, True), r)"
proof -
  let ?t = "outer OR CBS_ASN1_CONSTRUCTED"
  have ne: "?t \<noteq> outer"
  proof
    assume "?t = outer"
    then have "CBS_ASN1_CONSTRUCTED AND outer = CBS_ASN1_CONSTRUCTED" by (metis word_ao_absorbs(1) or.commute)
    then show False using tags(1) by (simp add: and.commute)
  qed
  have vt: "valid_tag ?t"
    using tags(2) unfolding valid_tag_def
    by (metis (no_types, lifting) and.commute bit.conj_cancel_left bit.conj_disj_distrib2 or.right_neutral and.left_commute)
  have g: "CBS_get_asn1 ?t s = (Some (concat (map (der_element inner) cs)), r)"
    using vt c(2) by (simp add: CBS_get_asn1_Some s(1))
  have "parse_asn1_tag s = (Some ?t, drop (length (der_tag ?t)) s)"
    unfolding parse_asn1_tag_Some using vt by (simp add: s(1) der_element_def [of ?t] der_header_def)
  then have "fst (parse_asn1_tag s) = Some ?t" by simp
  then have peek: "\<not> CBS_peek_asn1_tag s outer" using ne by (simp add: CBS_peek_asn1_tag_def)
  obtain b where "al (length s) = Some b" using free by blast
  then have init: "fst (CBB_init al (length s))" by (simp add: CBB_init_def)
  have "length (concat cs) \<le> length (concat (map (der_element inner) cs))"
    by (induction cs) (auto simp: der_element_def)
  then have "length (concat cs) < size_mod" using c(2) by simp
  then have "cbb_build al (length s) (implicit_string_loop al inner (concat (map (der_element inner) cs))) = Some (concat cs)"
    using build_runs(2) [OF al _ implicit_loop_runs [OF al tags(3) c(1)] free, of "length s"] s by simp
  then show ?thesis using peek init g tags(1) inner by (simp add: CBS_get_asn1_implicit_string_def)
qed
end
