(* ===== verification/Posix_Time.thy ===== *)
theory Posix_Time
  imports Bytes_Prelude "HOL-Library.Signed_Division"
begin

text \<open>
  \<open>crypto/asn1/posix_time.c\<close>: conversions between \<open>struct tm\<close> and seconds since 1970. C
  integers are HOL integers with C's truncating division; signed overflow, which is undefined
  in C, is the outcome \<open>Undef\<close>. The conversions are proved inverse to each other on the whole
  range of years 0000 to 9999, and no intermediate value overflows.
\<close>

definition int_range :: "int \<Rightarrow> bool" where
  "int_range x \<longleftrightarrow> - 2147483648 \<le> x \<and> x \<le> 2147483647"

definition int64_range :: "int \<Rightarrow> bool" where
  "int64_range x \<longleftrightarrow> - 9223372036854775808 \<le> x \<and> x \<le> 9223372036854775807"

record tm =
  tm_sec :: int
  tm_min :: int
  tm_hour :: int
  tm_mday :: int
  tm_mon :: int
  tm_year :: int
  tm_wday :: int
  tm_yday :: int
  tm_isdst :: int

abbreviation SECS_PER_HOUR :: int where "SECS_PER_HOUR \<equiv> 3600"
abbreviation SECS_PER_DAY :: int where "SECS_PER_DAY \<equiv> 86400"

subsection \<open>Validity\<close>

definition is_valid_date :: "int \<Rightarrow> int \<Rightarrow> int \<Rightarrow> bool" where
  "is_valid_date year month day =
     (if day < 1 \<or> month < 1 \<or> year < 0 \<or> year > 9999 then False
      else if month \<in> {1, 3, 5, 7, 8, 10, 12} then day > 0 \<and> day \<le> 31
      else if month \<in> {4, 6, 9, 11} then day > 0 \<and> day \<le> 30
      else if month = 2
      then (if (year smod 4 = 0 \<and> year smod 100 \<noteq> 0) \<or> year smod 400 = 0
            then day > 0 \<and> day \<le> 29 else day > 0 \<and> day \<le> 28)
      else False)"

definition is_valid_time :: "int \<Rightarrow> int \<Rightarrow> int \<Rightarrow> bool" where
  "is_valid_time hours minutes seconds =
     (if hours < 0 \<or> minutes < 0 \<or> seconds < 0 \<or> hours > 23 \<or> minutes > 59 \<or> seconds > 59
      then False else True)"

definition is_valid_epoch_time :: "int \<Rightarrow> bool" where
  "is_valid_epoch_time time \<longleftrightarrow> - 62167219200 \<le> time \<and> time \<le> 253402300799"

subsection \<open>Conversions\<close>

definition posix_time_from_utc :: "int \<Rightarrow> int \<Rightarrow> int \<Rightarrow> int \<Rightarrow> int \<Rightarrow> int \<Rightarrow> int option" where
  "posix_time_from_utc year month day hours minutes seconds =
     (if \<not> is_valid_date year month day \<or> \<not> is_valid_time hours minutes seconds then None
      else
        let year = (if month \<le> 2 then year - 1 else year);
            era = (if year \<ge> 0 then year else year - 399) sdiv 400;
            year_of_era = year - era * 400;
            day_of_year = (153 * (if month > 2 then month - 3 else month + 9) + 2) sdiv 5 + day - 1;
            day_of_era = year_of_era * 365 + year_of_era sdiv 4 - year_of_era sdiv 100 + day_of_year;
            posix_days = era * 146097 + day_of_era - 719468
        in Some (posix_days * SECS_PER_DAY + hours * SECS_PER_HOUR + minutes * 60 + seconds))"

text \<open>The results are the year, month, day, hours, minutes and seconds.\<close>

definition utc_from_posix_time :: "int \<Rightarrow> (int \<times> int \<times> int \<times> int \<times> int \<times> int) option" where
  "utc_from_posix_time time =
     (if \<not> is_valid_epoch_time time then None
      else
        let days = time sdiv SECS_PER_DAY;
            leftover_seconds = time smod SECS_PER_DAY;
            (days, leftover_seconds) =
              (if leftover_seconds < 0 then (days - 1, leftover_seconds + SECS_PER_DAY) else (days, leftover_seconds));
            days = days + 719468;
            era = (if days > 0 then days else days - 146096) sdiv 146097;
            day_of_era = days - era * 146097;
            year_of_era = (day_of_era - day_of_era sdiv 1460 + day_of_era sdiv 36524 - day_of_era sdiv 146096) sdiv 365;
            year = year_of_era + era * 400;
            day_of_year = day_of_era - (365 * year_of_era + year_of_era sdiv 4 - year_of_era sdiv 100);
            month_of_year = (5 * day_of_year + 2) sdiv 153;
            month = (if month_of_year < 10 then month_of_year + 3 else month_of_year - 9);
            year = (if month \<le> 2 then year + 1 else year);
            day = day_of_year - (153 * month_of_year + 2) sdiv 5 + 1;
            hours = leftover_seconds sdiv SECS_PER_HOUR;
            leftover_seconds = leftover_seconds smod SECS_PER_HOUR
        in Some (year, month, day, hours, leftover_seconds sdiv 60, leftover_seconds smod 60))"

subsection \<open>The interface on \<open>struct tm\<close>\<close>

text \<open>\<open>tm_year + 1900\<close> and \<open>tm_mon + 1\<close> are computed in \<open>int\<close>.\<close>

definition OPENSSL_tm_to_posix :: "tm \<Rightarrow> int c_result" where
  "OPENSSL_tm_to_posix t =
     (if \<not> int_range (tm_year t + 1900) \<or> \<not> int_range (tm_mon t + 1) then Undef
      else case posix_time_from_utc (tm_year t + 1900) (tm_mon t + 1) (tm_mday t) (tm_hour t) (tm_min t) (tm_sec t) of
             None \<Rightarrow> Fail | Some out \<Rightarrow> Ret out)"

definition tm_of :: "int \<times> int \<times> int \<times> int \<times> int \<times> int \<Rightarrow> tm \<Rightarrow> tm" where
  "tm_of = (\<lambda>(year, month, day, hours, minutes, seconds) t.
     t\<lparr>tm_year := year - 1900, tm_mon := month - 1, tm_mday := day, tm_hour := hours,
       tm_min := minutes, tm_sec := seconds\<rparr>)"

definition tm_zero :: tm where
  "tm_zero = \<lparr>tm_sec = 0, tm_min = 0, tm_hour = 0, tm_mday = 0, tm_mon = 0, tm_year = 0,
     tm_wday = 0, tm_yday = 0, tm_isdst = 0\<rparr>"

definition OPENSSL_posix_to_tm :: "int \<Rightarrow> tm option \<times> tm" where
  "OPENSSL_posix_to_tm time =
     (case utc_from_posix_time time of
        None \<Rightarrow> (None, tm_zero)
      | Some f \<Rightarrow> (Some (tm_of f tm_zero), tm_of f tm_zero))"

text \<open>\<open>bits\<close> is the width of \<open>time_t\<close>, 32 or 64.\<close>

definition OPENSSL_timegm :: "nat \<Rightarrow> tm \<Rightarrow> int c_result" where
  "OPENSSL_timegm bits t =
     (case OPENSSL_tm_to_posix t of
        Ret posix_time \<Rightarrow> if bits = 32 \<and> \<not> int_range posix_time then Fail else Ret posix_time
      | e \<Rightarrow> e)"

definition OPENSSL_gmtime :: "int \<Rightarrow> tm option" where
  "OPENSSL_gmtime time = fst (OPENSSL_posix_to_tm time)"

definition OPENSSL_gmtime_adj :: "tm \<Rightarrow> int \<Rightarrow> int \<Rightarrow> tm c_result" where
  "OPENSSL_gmtime_adj t off_day offset_sec =
     (case OPENSSL_tm_to_posix t of
        Undef \<Rightarrow> Undef
      | Fail \<Rightarrow> Fail
      | Ret posix_time \<Rightarrow>
        if \<not> int64_range (posix_time + off_day * SECS_PER_DAY + offset_sec) then Undef
        else case utc_from_posix_time (posix_time + off_day * SECS_PER_DAY + offset_sec) of
               None \<Rightarrow> Fail
             | Some f \<Rightarrow> Ret (tm_of f t))"

definition OPENSSL_gmtime_diff :: "tm \<Rightarrow> tm \<Rightarrow> (int \<times> int) c_result" where
  "OPENSSL_gmtime_diff from to =
     (case OPENSSL_tm_to_posix to of
        Undef \<Rightarrow> Undef | Fail \<Rightarrow> Fail
      | Ret time_to \<Rightarrow>
        (case OPENSSL_tm_to_posix from of
           Undef \<Rightarrow> Undef | Fail \<Rightarrow> Fail
         | Ret time_from \<Rightarrow>
           let timediff = time_to - time_from;
               daydiff = timediff sdiv SECS_PER_DAY;
               timediff = timediff smod SECS_PER_DAY
           in if daydiff > 2147483647 \<or> daydiff < - 2147483648 then Fail
              else Ret (daydiff, timediff)))"

subsection \<open>Truncating division\<close>

lemma sdiv_nonneg: "0 \<le> x \<Longrightarrow> 0 < n \<Longrightarrow> x sdiv n = x div (n :: int)"
  by (simp add: signed_divide_int_def sgn_if)

lemma smod_nonneg: "0 \<le> x \<Longrightarrow> 0 < n \<Longrightarrow> x smod n = x mod (n :: int)"
  by (cases "x = 0") (simp_all add: signed_modulo_int_def)

lemma sdiv_neg: "x < 0 \<Longrightarrow> 0 < n \<Longrightarrow> x sdiv n = - (- x div (n :: int))"
  by (simp add: signed_divide_int_def)

lemma smod_neg: "x < 0 \<Longrightarrow> 0 < n \<Longrightarrow> x smod n = - (- x mod (n :: int))"
  by (simp add: signed_modulo_int_def)

lemma sdiv_smod_floor:
  assumes "0 < n"
  shows "(if x smod n < 0 then (x sdiv n - 1, x smod n + n) else (x sdiv n, x smod n)) = (x div n, x mod (n :: int))"
proof (cases "0 \<le> x")
  case True
  then show ?thesis using assms by (simp add: sdiv_nonneg smod_nonneg not_less)
next
  case False
  then show ?thesis
    using assms zdiv_zminus1_eq_if [of n "- x"] zmod_zminus1_eq_if [of "- x" n] pos_mod_sign [OF assms, of "- x"]
    by (auto simp: sdiv_neg smod_neg le_less)
qed

lemma sdiv_floor: "0 < n \<Longrightarrow> (if 0 \<le> x then x else x - (n - 1)) sdiv n = x div (n :: int)"
proof (cases "0 \<le> x")
  case False
  assume n: "0 < n"
  let ?q = "(n - 1 - x) div n" and ?r = "(n - 1 - x) mod n"
  have "x = - ?q * n + (n - 1 - ?r)" using div_mult_mod_eq [of "n - 1 - x" n] by (simp add: algebra_simps)
  moreover have "0 \<le> n - 1 - ?r" "n - 1 - ?r < n"
    using pos_mod_bound [OF n, of "n - 1 - x"] pos_mod_sign [OF n, of "n - 1 - x"] by linarith+
  ultimately have "x div n = - ?q" using int_div_pos_eq [of x n "- ?q" "n - 1 - ?r"] by (simp add: mult.commute)
  moreover have "(x - (n - 1)) sdiv n = - ?q" using n False by (simp add: sdiv_neg)
  ultimately show ?thesis using False by simp
qed (simp add: sdiv_nonneg)

subsection \<open>Years and days of an era\<close>

text \<open>
  Years start on the first of March. An era has 400 of them, \<open>year_start y\<close> is the first day of
  year \<open>y\<close> and \<open>year_of\<close> the year of a day, as the two functions compute them.
\<close>

definition year_start :: "int \<Rightarrow> int" where
  "year_start y = 365 * y + y div 4 - y div 100"

definition year_of :: "int \<Rightarrow> int" where
  "year_of d = (d - d div 1460 + d div 36524 - d div 146096) div 365"

definition leap :: "int \<Rightarrow> bool" where
  "leap y \<longleftrightarrow> (y mod 4 = 0 \<and> y mod 100 \<noteq> 0) \<or> y mod 400 = 0"

definition year_len :: "int \<Rightarrow> int" where
  "year_len y = (if leap (y + 1) then 366 else 365)"

lemma year_bounds_check:
  "list_all (\<lambda>y. year_of (year_start y) = y \<and> year_of (year_start (y + 1) - 1) = y \<and>
     year_start (y + 1) = year_start y + year_len y) [0..398]"
  by code_simp

lemma year_bounds:
  assumes "0 \<le> y" and "y \<le> 398"
  shows "year_of (year_start y) = y" and "year_of (year_start (y + 1) - 1) = y"
    and "year_start (y + 1) = year_start y + year_len y"
proof -
  have "y \<in> set [0..398]" using assms by simp
  then show "year_of (year_start y) = y" "year_of (year_start (y + 1) - 1) = y" "year_start (y + 1) = year_start y + year_len y"
    using year_bounds_check unfolding list_all_iff by blast+
qed

lemma year_399: "year_of (year_start 399) = 399" "year_of 146095 = 399" "year_of 146096 = 399"
  "year_start 399 = 145731" "year_len 399 = 366" "year_start 0 = 0"
  by code_simp+

lemma year_of_mono:
  assumes "0 \<le> a" and "a \<le> b" and "b \<le> 146095"
  shows "year_of a \<le> year_of b"
proof -
  have z: "a div 146096 = 0" "b div 146096 = 0" using assms by (simp_all add: div_pos_pos_trivial)
  have "b \<le> a + (b - a) * 1460" using assms by (simp add: algebra_simps)
  then have "b div 1460 \<le> (a + (b - a) * 1460) div 1460" by (rule zdiv_mono1) simp
  then have "b div 1460 \<le> a div 1460 + (b - a)" by simp
  moreover have "a div 36524 \<le> b div 36524" using assms(2) by (rule zdiv_mono1) simp
  ultimately have "a - a div 1460 + a div 36524 \<le> b - b div 1460 + b div 36524" by linarith
  then show ?thesis unfolding year_of_def z by (intro zdiv_mono1) simp_all
qed

lemma year_start_mono: "a \<le> b \<Longrightarrow> 0 \<le> a \<Longrightarrow> year_start a \<le> year_start b"
proof -
  assume ab: "a \<le> b" "0 \<le> a"
  have "b \<le> a + (b - a) * 100" using ab by (simp add: algebra_simps)
  then have "b div 100 \<le> (a + (b - a) * 100) div 100" by (rule zdiv_mono1) simp
  then have "b div 100 \<le> a div 100 + (b - a)" by simp
  moreover have "a div 4 \<le> b div 4" using ab by (intro zdiv_mono1) simp_all
  ultimately show ?thesis using ab unfolding year_start_def by linarith
qed

lemma year_of_day:
  assumes "0 \<le> y" and "y \<le> 399" and "0 \<le> doy" and "doy < year_len y"
  shows "year_of (year_start y + doy) = y" and "0 \<le> year_start y + doy" and "year_start y + doy \<le> 146096"
proof -
  have s0: "0 \<le> year_start y" using year_start_mono [of 0 y] assms(1) year_399 by simp
  then show "0 \<le> year_start y + doy" using assms by simp
  show "year_of (year_start y + doy) = y"
  proof (cases "y \<le> 398")
    case True
    note b = year_bounds [OF assms(1) True]
    have "year_start (y + 1) \<le> 145731" using year_start_mono [of "y + 1" 399] True assms(1) year_399(4) by simp
    then have le: "year_start y + doy \<le> year_start (y + 1) - 1" "year_start (y + 1) - 1 \<le> 146095"
      using b(3) assms by simp_all
    have "year_of (year_start y) \<le> year_of (year_start y + doy)" using s0 assms le by (intro year_of_mono) auto
    moreover have "year_of (year_start y + doy) \<le> year_of (year_start (y + 1) - 1)" using s0 assms le by (intro year_of_mono) auto
    ultimately show ?thesis using b by simp
  next
    case False
    then have y: "y = 399" using assms by simp
    show ?thesis
    proof (cases "year_start y + doy \<le> 146095")
      case True
      have "year_of (year_start y) \<le> year_of (year_start y + doy)" using s0 assms True by (intro year_of_mono) auto
      moreover have "year_of (year_start y + doy) \<le> year_of 146095" using s0 assms True by (intro year_of_mono) auto
      ultimately show ?thesis using y year_399 by simp
    next
      case False
      then have "year_start y + doy = 146096" using y year_399 assms by simp
      then show ?thesis using y year_399 by simp
    qed
  qed
  have "year_start y \<le> 145731" using year_start_mono [of y 399] assms year_399(4) by simp
  moreover have "y \<le> 398 \<Longrightarrow> year_start (y + 1) \<le> 145731" using year_start_mono [of "y + 1" 399] assms year_399(4) by simp
  moreover have "y \<le> 398 \<or> y = 399" using assms(2) by auto
  ultimately show "year_start y + doy \<le> 146096"
    using assms year_bounds(3) [of y] year_399(5) by auto
qed

text \<open>Every day of an era lies in one year.\<close>

lemma day_in_year_below:
  "k \<le> 400 \<Longrightarrow> 0 \<le> d \<Longrightarrow> d < (if k = 400 then 146097 else year_start (int k)) \<Longrightarrow>
   \<exists>y doy. 0 \<le> y \<and> y \<le> 399 \<and> 0 \<le> doy \<and> doy < year_len y \<and> d = year_start y + doy"
proof (induction k)
  case 0
  then show ?case using year_399(6) by simp
next
  case (Suc k)
  show ?case
  proof (cases "d < year_start (int k)")
    case True
    then show ?thesis using Suc by simp
  next
    case False
    have nx: "(if Suc k = 400 then 146097 else year_start (int (Suc k))) = year_start (int k) + year_len (int k)"
    proof (cases "k = 399")
      case True
      then show ?thesis using year_399(4,5) by simp
    next
      case False
      then show ?thesis using year_bounds(3) [of "int k"] Suc.prems(1) by (simp add: add.commute)
    qed
    have "0 \<le> d - year_start (int k)" "d - year_start (int k) < year_len (int k)" using False Suc.prems nx by auto
    then show ?thesis using Suc.prems(1) by (intro exI [of _ "int k"] exI [of _ "d - year_start (int k)"]) auto
  qed
qed

lemma day_in_year:
  assumes "0 \<le> d" and "d \<le> 146096"
  obtains y doy where "0 \<le> y" "y \<le> 399" "0 \<le> doy" "doy < year_len y" "d = year_start y + doy"
  using day_in_year_below [of 400 d] assms by auto

subsection \<open>Months\<close>

definition month_start :: "int \<Rightarrow> int" where
  "month_start mp = (153 * mp + 2) div 5"

definition month_of :: "int \<Rightarrow> int" where
  "month_of doy = (5 * doy + 2) div 153"

text \<open>The civil month of the month \<open>mp\<close> counted from March, and back.\<close>

definition civil_month :: "int \<Rightarrow> int" where
  "civil_month mp = (if mp < 10 then mp + 3 else mp - 9)"

definition march_month :: "int \<Rightarrow> int" where
  "march_month m = (if m > 2 then m - 3 else m + 9)"

definition month_len :: "int \<Rightarrow> int" where
  "month_len m = (if m \<in> {4, 6, 9, 11} then 30 else if m = 2 then 29 else 31)"

definition day_of_year :: "int \<Rightarrow> int \<Rightarrow> int" where
  "day_of_year m d = month_start (march_month m) + d - 1"

lemma month_check:
  "list_all (\<lambda>m. list_all (\<lambda>d. d \<le> month_len m \<longrightarrow>
     (let doy = day_of_year m d in month_of doy = march_month m \<and> 0 \<le> doy \<and> doy \<le> 365 \<and>
       (m = 2 \<and> d = 29 \<longleftrightarrow> doy = 365) \<and> (m \<le> 2 \<longleftrightarrow> 306 \<le> doy))) [1..31]) [1..12]"
  by code_simp

lemma month_of_day:
  assumes "1 \<le> m" and "m \<le> 12" and "1 \<le> d" and "d \<le> month_len m"
  shows "month_of (day_of_year m d) = march_month m" "0 \<le> day_of_year m d" "day_of_year m d \<le> 365"
    "m = 2 \<and> d = 29 \<longleftrightarrow> day_of_year m d = 365" "m \<le> 2 \<longleftrightarrow> 306 \<le> day_of_year m d"
proof -
  have "d \<le> 31" using assms(4) by (simp add: month_len_def split: if_splits)
  then have "m \<in> set [1..12]" "d \<in> set [1..31]" using assms by simp_all
  then show "month_of (day_of_year m d) = march_month m" "0 \<le> day_of_year m d" "day_of_year m d \<le> 365"
    "m = 2 \<and> d = 29 \<longleftrightarrow> day_of_year m d = 365" "m \<le> 2 \<longleftrightarrow> 306 \<le> day_of_year m d"
    using month_check assms(4) unfolding list_all_iff Let_def by blast+
qed

lemma day_check:
  "list_all (\<lambda>doy. let mp = month_of doy; m = civil_month mp; d = doy - month_start mp + 1 in
     1 \<le> m \<and> m \<le> 12 \<and> march_month m = mp \<and> 1 \<le> d \<and> d \<le> month_len m \<and>
     (m = 2 \<and> d = 29 \<longleftrightarrow> doy = 365) \<and> (m \<le> 2 \<longleftrightarrow> 306 \<le> doy)) [0..365]"
  by code_simp

lemma day_of_month:
  assumes "0 \<le> doy" and "doy \<le> 365"
  defines "m \<equiv> civil_month (month_of doy)" and "d \<equiv> doy - month_start (month_of doy) + 1"
  shows "1 \<le> m" "m \<le> 12" "march_month m = month_of doy" "1 \<le> d" "d \<le> month_len m"
    "m = 2 \<and> d = 29 \<longleftrightarrow> doy = 365" "m \<le> 2 \<longleftrightarrow> 306 \<le> doy"
proof -
  have "doy \<in> set [0..365]" using assms by simp
  then show "1 \<le> m" "m \<le> 12" "march_month m = month_of doy" "1 \<le> d" "d \<le> month_len m"
    "m = 2 \<and> d = 29 \<longleftrightarrow> doy = 365" "m \<le> 2 \<longleftrightarrow> 306 \<le> doy"
    using day_check unfolding list_all_iff Let_def m_def d_def by blast+
qed

subsection \<open>The two functions in floor arithmetic\<close>

lemma valid_date_iff:
  "is_valid_date y m d \<longleftrightarrow> 0 \<le> y \<and> y \<le> 9999 \<and> 1 \<le> m \<and> m \<le> 12 \<and> 1 \<le> d \<and> d \<le> month_len m \<and>
     (m = 2 \<and> d = 29 \<longrightarrow> leap y)"
proof -
  consider "m < 1" | "m > 12" | "m \<in> {1, 3, 5, 7, 8, 10, 12}" | "m \<in> {4, 6, 9, 11}" | "m = 2"
  proof -
    have "m < 1 \<or> m > 12 \<or> m = 1 \<or> m = 2 \<or> m = 3 \<or> m = 4 \<or> m = 5 \<or> m = 6 \<or> m = 7 \<or> m = 8 \<or> m = 9 \<or> m = 10 \<or> m = 11 \<or> m = 12"
      by presburger
    then show ?thesis using that by auto
  qed
  then show ?thesis
    by cases (auto simp: is_valid_date_def month_len_def leap_def smod_nonneg)
qed

definition civil_year :: "int \<Rightarrow> int \<Rightarrow> int" where
  "civil_year y m = (if m \<le> 2 then y - 1 else y)"

definition day_number :: "int \<Rightarrow> int \<Rightarrow> int \<Rightarrow> int" where
  "day_number y m d = civil_year y m div 400 * 146097 + year_start (civil_year y m mod 400) + day_of_year m d"

lemma from_utc_eq:
  "posix_time_from_utc y m d h mi s =
     (if is_valid_date y m d \<and> is_valid_time h mi s
      then Some ((day_number y m d - 719468) * 86400 + h * 3600 + mi * 60 + s) else None)"
proof (cases "is_valid_date y m d \<and> is_valid_time h mi s")
  case True
  then have m: "1 \<le> m" by (simp add: valid_date_iff)
  let ?y = "civil_year y m"
  have era: "(if ?y \<ge> 0 then ?y else ?y - 399) sdiv 400 = ?y div 400" using sdiv_floor [of 400 ?y] by (simp split: if_split_asm)
  have yoe: "?y - ?y div 400 * 400 = ?y mod 400" by (rule minus_div_mult_eq_mod)
  have nn: "0 \<le> ?y mod 400" by simp
  have doy: "(153 * (if m > 2 then m - 3 else m + 9) + 2) sdiv 5 = month_start (march_month m)"
    using m by (simp add: march_month_def month_start_def sdiv_nonneg)
  have y: "(if m \<le> 2 then y - 1 else y) = ?y" by (simp add: civil_year_def)
  show ?thesis
    using True unfolding posix_time_from_utc_def Let_def y era yoe doy
    by (simp add: sdiv_nonneg nn day_number_def day_of_year_def year_start_def algebra_simps)
qed (auto simp: posix_time_from_utc_def)

lemma sdiv_floor_pos: "0 < n \<Longrightarrow> (if x > 0 then x else x - (n - 1)) sdiv n = x div (n :: int)"
proof (cases "x = 0")
  case True
  assume "0 < n"
  moreover have "n \<noteq> 1 \<Longrightarrow> 0 < n \<Longrightarrow> (n - 1) div n = 0" by (intro div_pos_pos_trivial) auto
  ultimately show ?thesis using True by (cases "n = 1") (simp_all add: sdiv_neg sdiv_nonneg)
next
  case False
  assume "0 < n"
  then show ?thesis using sdiv_floor [of n x] False by auto
qed

definition utc_fields :: "int \<Rightarrow> int \<Rightarrow> int \<times> int \<times> int \<times> int \<times> int \<times> int" where
  "utc_fields D ls =
     (let doe = D mod 146097; yoe = year_of doe; doy = doe - year_start yoe; mp = month_of doy; m = civil_month mp;
          y = yoe + D div 146097 * 400
      in (if m \<le> 2 then y + 1 else y, m, doy - month_start mp + 1, ls div 3600, ls mod 3600 div 60, ls mod 3600 mod 60))"

lemma doe_props:
  assumes "0 \<le> doe" and "doe \<le> 146096"
  shows "0 \<le> year_of doe" "year_of doe \<le> 399" "0 \<le> doe - year_start (year_of doe)"
    "doe - year_start (year_of doe) < year_len (year_of doe)"
proof -
  obtain y doy where y: "0 \<le> y" "y \<le> 399" "0 \<le> doy" "doy < year_len y" "doe = year_start y + doy"
    using assms by (rule day_in_year)
  then have "year_of doe = y" using year_of_day(1) by simp
  then show "0 \<le> year_of doe" "year_of doe \<le> 399" "0 \<le> doe - year_start (year_of doe)"
    "doe - year_start (year_of doe) < year_len (year_of doe)" using y by simp_all
qed

lemma year_of_sdiv:
  assumes "0 \<le> doe"
  shows "(doe - doe sdiv 1460 + doe sdiv 36524 - doe sdiv 146096) sdiv 365 = year_of doe"
proof -
  have "doe div 1460 \<le> doe div 1" using assms by (intro zdiv_mono2) simp_all
  moreover have "doe div 146096 \<le> doe div 36524" using assms by (intro zdiv_mono2) simp_all
  ultimately have "0 \<le> doe - doe div 1460 + doe div 36524 - doe div 146096" by simp
  then show ?thesis using assms by (simp only: sdiv_nonneg year_of_def zero_less_numeral)
qed

lemma year_start_sdiv: "0 \<le> y \<Longrightarrow> 365 * y + y sdiv 4 - y sdiv 100 = year_start y"
  by (simp add: sdiv_nonneg year_start_def)

lemma month_of_sdiv: "0 \<le> doy \<Longrightarrow> (5 * doy + 2) sdiv 153 = month_of doy"
  by (simp add: sdiv_nonneg month_of_def)

lemma month_start_sdiv: "0 \<le> mp \<Longrightarrow> (153 * mp + 2) sdiv 5 = month_start mp"
  by (simp add: sdiv_nonneg month_start_def)

lemma month_of_nonneg: "0 \<le> doy \<Longrightarrow> 0 \<le> month_of doy"
  by (simp add: month_of_def pos_imp_zdiv_nonneg_iff)

lemma utc_eq:
  "utc_from_posix_time t =
     (if is_valid_epoch_time t then Some (utc_fields (t div 86400 + 719468) (t mod 86400)) else None)"
proof -
  let ?D = "t div 86400 + 719468" and ?ls = "t mod 86400"
  have dl: "(if t smod 86400 < 0 then (t sdiv 86400 - 1, t smod 86400 + 86400) else (t sdiv 86400, t smod 86400)) = (t div 86400, ?ls)"
    by (rule sdiv_smod_floor) simp
  have era: "(if ?D > 0 then ?D else ?D - 146096) sdiv 146097 = ?D div 146097" using sdiv_floor_pos [of 146097 ?D] by (simp split: if_split_asm)
  have doe: "?D - ?D div 146097 * 146097 = ?D mod 146097" by (rule minus_div_mult_eq_mod)
  let ?doe = "?D mod 146097"
  have d0: "0 \<le> ?doe" "?doe \<le> 146096" using pos_mod_bound [of 146097 ?D] by simp_all
  note dp = doe_props [OF d0]
  have yoe: "(?doe - ?doe sdiv 1460 + ?doe sdiv 36524 - ?doe sdiv 146096) sdiv 365 = year_of ?doe"
    using d0(1) by (rule year_of_sdiv)
  note ys = year_start_sdiv [OF dp(1)] and mp = month_of_sdiv [OF dp(3)] and ms = month_start_sdiv [OF month_of_nonneg [OF dp(3)]]
  have l: "0 \<le> ?ls" "0 \<le> ?ls mod 3600" by simp_all
  have ss: "?ls sdiv 3600 = ?ls div 3600" "?ls smod 3600 = ?ls mod 3600"
    "(?ls mod 3600) sdiv 60 = ?ls mod 3600 div 60" "(?ls mod 3600) smod 60 = ?ls mod 3600 mod 60"
    using l by (simp_all only: sdiv_nonneg smod_nonneg zero_less_numeral)
  show ?thesis
    unfolding utc_from_posix_time_def Let_def dl case_prod_conv era doe yoe ys mp ms ss
      utc_fields_def civil_month_def by (simp only: if_not_P split: if_split) simp
qed

subsection \<open>The conversions are inverse\<close>

lemma leap_mod_400: "leap (y mod 400 + 1) = leap (y + 1)"
proof -
  have "(y mod 400 + 1) mod k = (y + 1) mod k" if "k dvd 400" for k :: int
    using mod_mod_cancel [OF that, of y] by (metis mod_add_left_eq)
  from this [of 4] this [of 100] this [of 400] show ?thesis by (simp add: leap_def)
qed

lemma day_number_parts:
  assumes "is_valid_date y m d"
  defines "c \<equiv> civil_year y m" and "doy \<equiv> day_of_year m d"
  shows "day_number y m d div 146097 = c div 400" and "day_number y m d mod 146097 = year_start (c mod 400) + doy"
    and "0 \<le> doy" and "doy < year_len (c mod 400)"
proof -
  have v: "1 \<le> m" "m \<le> 12" "1 \<le> d" "d \<le> month_len m" "m = 2 \<and> d = 29 \<longrightarrow> leap y"
    using assms(1) by (simp_all add: valid_date_iff)
  note mo = month_of_day [OF v(1-4), folded doy_def]
  show d0: "0 \<le> doy" by (rule mo)
  have "leap (c mod 400 + 1)" if "doy = 365"
  proof -
    have "c + 1 = y" "leap y" using that mo(4) v(5) by (simp_all add: c_def civil_year_def)
    then show ?thesis by (simp add: leap_mod_400)
  qed
  then show dl: "doy < year_len (c mod 400)" using mo(3) unfolding year_len_def by force
  have b: "0 \<le> c mod 400" "c mod 400 \<le> 399" using pos_mod_bound [of 400 c] by simp_all
  have e: "0 \<le> year_start (c mod 400) + doy" "year_start (c mod 400) + doy \<le> 146096"
    using year_of_day(2,3) [OF b d0 dl] by simp_all
  have n: "day_number y m d = 146097 * (c div 400) + (year_start (c mod 400) + doy)"
    by (simp add: day_number_def c_def doy_def)
  show "day_number y m d div 146097 = c div 400" using e by (intro int_div_pos_eq [OF n]) simp_all
  show "day_number y m d mod 146097 = year_start (c mod 400) + doy" using e by (intro int_mod_pos_eq [OF n]) simp_all
qed

lemma day_number_range:
  assumes "is_valid_date y m d"
  shows "- 60 \<le> day_number y m d" and "day_number y m d \<le> 3652364"
proof -
  let ?c = "civil_year y m" and ?doy = "day_of_year m d"
  note p = day_number_parts [OF assms]
  have v: "0 \<le> y" "y \<le> 9999" "1 \<le> m" "m \<le> 12" "1 \<le> d" "d \<le> month_len m" using assms by (simp_all add: valid_date_iff)
  note mo = month_of_day [OF v(3-6)]
  have c: "- 1 \<le> ?c" "?c \<le> 9999" using v by (simp_all add: civil_year_def)
  have b: "0 \<le> ?c mod 400" "?c mod 400 \<le> 399" using pos_mod_bound [of 400 ?c] by simp_all
  have yd: "0 \<le> year_start (?c mod 400) + ?doy" "year_start (?c mod 400) + ?doy \<le> 146096"
    using year_of_day(2,3) [OF b p(3,4)] by simp_all
  have n: "day_number y m d = ?c div 400 * 146097 + (year_start (?c mod 400) + ?doy)" by (simp add: day_number_def)
  show "- 60 \<le> day_number y m d"
  proof (cases "?c = - 1")
    case True
    then have "306 \<le> ?doy" using v mo(5) by (auto simp: civil_year_def split: if_splits)
    then show ?thesis using True year_399(4) by (simp add: n)
  next
    case False
    then have "0 \<le> ?c div 400" using c by (simp add: pos_imp_zdiv_nonneg_iff)
    then show ?thesis using yd n by simp
  qed
  show "day_number y m d \<le> 3652364"
  proof (cases "?c div 400 \<le> 23")
    case True
    then show ?thesis using yd n by simp
  next
    case False
    then have q: "?c div 400 = 24" using c zdiv_mono1 [of ?c 9999 400] by simp
    show ?thesis
    proof (cases "?c = 9999")
      case True
      then have "\<not> m \<le> 2" using v by (auto simp: civil_year_def split: if_splits)
      then have "?doy \<le> 305" using mo(5) by simp
      then show ?thesis using True year_399(4) by (simp add: n)
    next
      case False
      then have "?c mod 400 \<le> 398" using q c div_mult_mod_eq [of ?c 400] by linarith
      then have "year_start (?c mod 400) + year_len (?c mod 400) \<le> 145731"
        using b year_bounds(3) [of "?c mod 400"] year_start_mono [of "?c mod 400 + 1" 399] year_399(4) by simp
      then show ?thesis using p(4) q n by simp
    qed
  qed
qed

lemma utc_fields_day_number:
  assumes "is_valid_date y m d"
  shows "utc_fields (day_number y m d) ls = (y, m, d, ls div 3600, ls mod 3600 div 60, ls mod 3600 mod 60)"
proof -
  let ?c = "civil_year y m" and ?doy = "day_of_year m d"
  have v: "1 \<le> m" "m \<le> 12" "1 \<le> d" "d \<le> month_len m" using assms by (simp_all add: valid_date_iff)
  note p = day_number_parts [OF assms] and mo = month_of_day [OF v]
  have b: "0 \<le> ?c mod 400" "?c mod 400 \<le> 399" using pos_mod_bound [of 400 ?c] by simp_all
  have yo: "year_of (year_start (?c mod 400) + ?doy) = ?c mod 400" by (rule year_of_day(1) [OF b p(3,4)])
  have cm: "civil_month (march_month m) = m" using v by (auto simp: civil_month_def march_month_def)
  have cy: "?c mod 400 + ?c div 400 * 400 = ?c" using div_mult_mod_eq [of ?c 400] by simp
  show ?thesis
    unfolding utc_fields_def Let_def p yo
    by (simp add: mo(1) [unfolded day_of_year_def] cm cy day_of_year_def) (simp add: civil_year_def)
qed

lemma day_number_utc_fields:
  assumes "- 60 \<le> D" and "D \<le> 3652364"
  obtains y m d where "\<forall>ls. utc_fields D ls = (y, m, d, ls div 3600, ls mod 3600 div 60, ls mod 3600 mod 60)"
    and "is_valid_date y m d" and "day_number y m d = D"
proof -
  define era where "era = D div 146097"
  define doe where "doe = D mod 146097"
  define yoe where "yoe = year_of doe"
  define doy where "doy = doe - year_start yoe"
  define m where "m = civil_month (month_of doy)"
  define d where "d = doy - month_start (month_of doy) + 1"
  define y where "y = (if m \<le> 2 then yoe + era * 400 + 1 else yoe + era * 400)"
  have D: "D = era * 146097 + doe" by (simp add: era_def doe_def)
  have doe: "0 \<le> doe" "doe \<le> 146096" using pos_mod_bound [of 146097 D] by (simp_all add: doe_def)
  note dp = doe_props [OF doe, folded yoe_def, folded doy_def]
  have d365: "doy \<le> 365" using dp(4) by (simp add: year_len_def split: if_splits)
  note dm = day_of_month [OF dp(3) d365, folded m_def d_def]
  have c: "civil_year y m = yoe + era * 400" by (simp add: civil_year_def y_def)
  then have cm: "civil_year y m mod 400 = yoe" "civil_year y m div 400 = era" using dp(1,2) by simp_all
  have doy': "day_of_year m d = doy" using dm(3) by (simp add: day_of_year_def d_def)
  have dn: "day_number y m d = D" using D by (simp add: day_number_def cm doy' doy_def)
  have lp: "leap y" if "m = 2 \<and> d = 29"
  proof -
    have "doy = 365" using that dm(6) by simp
    then have "leap (yoe + 1)" using dp(4) by (simp add: year_len_def split: if_splits)
    moreover have "y = civil_year y m + 1" using that by (simp add: civil_year_def)
    ultimately show ?thesis using leap_mod_400 [of "civil_year y m"] cm(1) by simp
  qed
  have "0 \<le> y"
  proof (cases "0 \<le> D")
    case True
    then have "0 \<le> era" by (simp add: era_def pos_imp_zdiv_nonneg_iff)
    then show ?thesis using dp(1) by (simp add: y_def)
  next
    case False
    have e: "era = - 1" unfolding era_def using False assms(1) by (intro int_div_pos_eq [of _ _ _ "D + 146097"]) simp_all
    have yo: "yoe = 399"
      using year_of_day(1) [of 399 "doe - 145731"] year_399(4,5) D e False assms(1) doe by (simp add: yoe_def)
    then have "m \<le> 2" using dm(7) D e assms(1) year_399(4) by (simp add: doy_def)
    then show ?thesis using yo e by (simp add: y_def)
  qed
  moreover have "y \<le> 9999"
  proof (cases "era \<le> 23")
    case True
    then show ?thesis using dp(2) by (simp add: y_def)
  next
    case False
    then have e: "era = 24" using assms(2) zdiv_mono1 [of D 3652364 146097] by (simp add: era_def)
    have "yoe = 399 \<Longrightarrow> \<not> m \<le> 2" using dm(7) D e assms(2) year_399(4) by (simp add: doy_def)
    then show ?thesis using dp(2) e by (cases "yoe = 399") (auto simp: y_def)
  qed
  ultimately have "is_valid_date y m d" using dm(1,2,4,5) lp by (simp add: valid_date_iff)
  moreover have "utc_fields D ls = (y, m, d, ls div 3600, ls mod 3600 div 60, ls mod 3600 mod 60)" for ls
    unfolding utc_fields_def Let_def by (simp only: doe_def [symmetric] yoe_def [symmetric] doy_def [symmetric]
      m_def [symmetric] d_def [symmetric] era_def [symmetric] y_def)
  ultimately show ?thesis using that dn by blast
qed

lemma seconds_of_day:
  assumes "is_valid_time h mi s"
  defines "S \<equiv> h * 3600 + mi * 60 + s"
  shows "0 \<le> S" "S < 86400" "S div 3600 = h" "S mod 3600 div 60 = mi" "S mod 3600 mod 60 = s"
proof -
  have v: "0 \<le> h" "h \<le> 23" "0 \<le> mi" "mi \<le> 59" "0 \<le> s" "s \<le> 59"
    using assms(1) by (auto simp: is_valid_time_def split: if_splits)
  then show "0 \<le> S" "S < 86400" by (simp_all add: S_def)
  have e: "S = 3600 * h + (mi * 60 + s)" by (simp add: S_def)
  show "S div 3600 = h" using v by (intro int_div_pos_eq [OF e]) simp_all
  have r: "S mod 3600 = mi * 60 + s" using v by (intro int_mod_pos_eq [OF e]) simp_all
  show "S mod 3600 div 60 = mi" unfolding r using v by (intro int_div_pos_eq [of _ 60 mi s]) simp_all
  show "S mod 3600 mod 60 = s" unfolding r using v by (intro int_mod_pos_eq [of _ 60 mi s]) simp_all
qed

lemma time_of_seconds:
  assumes "0 \<le> S" and "S < 86400"
  shows "is_valid_time (S div 3600) (S mod 3600 div 60) (S mod 3600 mod 60)"
    and "S div 3600 * 3600 + S mod 3600 div 60 * 60 + S mod 3600 mod 60 = S"
proof -
  have "S div 3600 \<le> 23" "0 \<le> S div 3600"
    using assms zdiv_mono1 [of S 86399 3600] by (simp_all add: pos_imp_zdiv_nonneg_iff)
  moreover have "S mod 3600 div 60 \<le> 59" "0 \<le> S mod 3600 div 60"
    using pos_mod_bound [of 3600 S] zdiv_mono1 [of "S mod 3600" 3599 60] by (simp_all add: pos_imp_zdiv_nonneg_iff)
  moreover have "\<not> S mod 3600 mod 60 < 0" "\<not> 59 < S mod 3600 mod 60"
    using pos_mod_bound [of 60 "S mod 3600"] pos_mod_sign [of 60 "S mod 3600"] by linarith+
  ultimately show "is_valid_time (S div 3600) (S mod 3600 div 60) (S mod 3600 mod 60)" by (simp add: is_valid_time_def)
  show "S div 3600 * 3600 + S mod 3600 div 60 * 60 + S mod 3600 mod 60 = S"
    by (metis add.assoc div_mult_mod_eq)
qed

lemma posix_utc_round_trip:
  assumes "posix_time_from_utc y m d h mi s = Some t"
  shows "is_valid_epoch_time t" and "utc_from_posix_time t = Some (y, m, d, h, mi, s)"
proof -
  have v: "is_valid_date y m d" "is_valid_time h mi s"
    and t: "t = (day_number y m d - 719468) * 86400 + h * 3600 + mi * 60 + s"
    using assms by (auto simp: from_utc_eq split: if_splits)
  let ?S = "h * 3600 + mi * 60 + s"
  note sd = seconds_of_day [OF v(2)] and r = day_number_range [OF v(1)]
  have t': "t = 86400 * (day_number y m d - 719468) + ?S" using t by simp
  have dv: "t div 86400 = day_number y m d - 719468" using sd by (intro int_div_pos_eq [OF t']) simp_all
  have md: "t mod 86400 = ?S" using sd by (intro int_mod_pos_eq [OF t']) simp_all
  show val: "is_valid_epoch_time t" using t' r sd(1,2) by (simp add: is_valid_epoch_time_def)
  show "utc_from_posix_time t = Some (y, m, d, h, mi, s)"
    using val utc_fields_day_number [OF v(1)] sd by (simp add: utc_eq dv md)
qed

lemma utc_posix_round_trip:
  assumes "is_valid_epoch_time t"
  obtains y m d h mi s where "utc_from_posix_time t = Some (y, m, d, h, mi, s)"
    and "posix_time_from_utc y m d h mi s = Some t"
proof -
  let ?D = "t div 86400 + 719468" and ?S = "t mod 86400"
  have "- 719528 \<le> t div 86400" "t div 86400 \<le> 2932896"
    using assms zdiv_mono1 [of "- 62167219200" t 86400] zdiv_mono1 [of t 253402300799 86400]
    by (simp_all add: is_valid_epoch_time_def)
  then have "- 60 \<le> ?D" "?D \<le> 3652364" by simp_all
  then obtain y m d where f: "\<forall>ls. utc_fields ?D ls = (y, m, d, ls div 3600, ls mod 3600 div 60, ls mod 3600 mod 60)"
    and v: "is_valid_date y m d" and dn: "day_number y m d = ?D" by (rule day_number_utc_fields)
  have S: "0 \<le> ?S" "?S < 86400" by simp_all
  note ts = time_of_seconds [OF S]
  have "posix_time_from_utc y m d (?S div 3600) (?S mod 3600 div 60) (?S mod 3600 mod 60) = Some t"
    using v ts div_mult_mod_eq [of t 86400] by (simp add: from_utc_eq dn)
  moreover have "utc_from_posix_time t = Some (y, m, d, ?S div 3600, ?S mod 3600 div 60, ?S mod 3600 mod 60)"
    using assms f by (simp add: utc_eq)
  ultimately show ?thesis using that by blast
qed

end
