(* ===== verification/Cbs_Time.thy ===== *)
theory Cbs_Time
  imports Oid Posix_Time
begin

text \<open>
  The time parsers of \<open>crypto/bytestring/cbs.c\<close>: the UTCTime and GeneralizedTime bodies of
  RFC 5280. The parser is proved to accept exactly the fixed format with valid fields, and its
  result to be convertible to POSIX time by \<open>posix_time.c\<close>.
\<close>

definition cbs_get_two_digits :: "int reader" where
  "cbs_get_two_digits =
     rbind CBS_get_u8 (\<lambda>first_digit.
       if \<not> OPENSSL_isdigit (uint first_digit) then rfail
       else rbind CBS_get_u8 (\<lambda>second_digit.
         if \<not> OPENSSL_isdigit (uint second_digit) then rfail
         else rret ((uint first_digit - 48) * 10 + (uint second_digit - 48))))"

definition is_valid_day :: "int \<Rightarrow> int \<Rightarrow> int \<Rightarrow> bool" where
  "is_valid_day year month day =
     (if day < 1 then False
      else if month \<in> {1, 3, 5, 7, 8, 10, 12} then day \<le> 31
      else if month \<in> {4, 6, 9, 11} then day \<le> 30
      else if month = 2
      then (if (year smod 4 = 0 \<and> year smod 100 \<noteq> 0) \<or> year smod 400 = 0 then day \<le> 29 else day \<le> 28)
      else False)"

definition rfc5280_year :: "bool \<Rightarrow> int reader" where
  "rfc5280_year is_gentime =
     (if is_gentime
      then rbind cbs_get_two_digits (\<lambda>tmp.
             let year = tmp * 100 in rbind cbs_get_two_digits (\<lambda>tmp. rret (year + tmp)))
      else rbind cbs_get_two_digits (\<lambda>tmp.
             let year = 1900 + tmp; year = (if year < 1950 then year + 100 else year)
             in if year \<ge> 2050 then rfail else rret year))"

definition check :: "bool \<Rightarrow> unit reader" where
  "check b = (if b then rret () else rfail)"

text \<open>The two-digit fields in order, with the rejection tests between them.\<close>

definition rfc5280_fields :: "int \<Rightarrow> (int \<times> int \<times> int \<times> int \<times> int \<times> byte) reader" where
  "rfc5280_fields year =
     rbind cbs_get_two_digits (\<lambda>month. rbind (check (\<not> (month < 1 \<or> month > 12))) (\<lambda>_.
     rbind cbs_get_two_digits (\<lambda>day. rbind (check (is_valid_day year month day)) (\<lambda>_.
     rbind cbs_get_two_digits (\<lambda>hour. rbind (check (\<not> hour > 23)) (\<lambda>_.
     rbind cbs_get_two_digits (\<lambda>minute. rbind (check (\<not> minute > 59)) (\<lambda>_.
     rbind cbs_get_two_digits (\<lambda>sec. rbind (check (\<not> sec > 59)) (\<lambda>_.
     rbind CBS_get_u8 (\<lambda>tz. rret (month, day, hour, minute, sec, tz))))))))))))"

text \<open>The switch on \<open>tz\<close> and the optional offset; the result is \<open>offset_seconds\<close>.\<close>

definition rfc5280_offset :: "bool \<Rightarrow> byte \<Rightarrow> int reader" where
  "rfc5280_offset allow_timezone_offset tz =
     (if tz \<noteq> 90 \<and> tz \<noteq> 43 \<and> tz \<noteq> 45 then rfail
      else
        let offset_sign = (if tz = 90 then 0 else if tz = 43 then 1 else - 1)
        in if offset_sign \<noteq> 0
           then (if \<not> allow_timezone_offset then rfail
                 else rbind cbs_get_two_digits (\<lambda>offset_hours. rbind (check (\<not> offset_hours > 23)) (\<lambda>_.
                      rbind cbs_get_two_digits (\<lambda>offset_minutes. rbind (check (\<not> offset_minutes > 59)) (\<lambda>_.
                      rret (offset_sign * (offset_hours * 3600 + offset_minutes * 60)))))))
           else rret 0)"

definition rfc5280_parse :: "bool \<Rightarrow> bool \<Rightarrow> (int \<times> int \<times> int \<times> int \<times> int \<times> int \<times> int) reader" where
  "rfc5280_parse is_gentime allow_timezone_offset =
     rbind (rfc5280_year is_gentime) (\<lambda>year.
     rbind (rfc5280_fields year) (\<lambda>(month, day, hour, minute, sec, tz).
     rbind (rfc5280_offset allow_timezone_offset tz) (\<lambda>offset_seconds.
     rret (year, month, day, hour, minute, sec, offset_seconds))))"

text \<open>
  \<open>out_tm\<close> is \<open>None\<close> for a NULL pointer; the second result is what it points to afterwards.
\<close>

definition CBS_parse_rfc5280_time_internal :: "cbs \<Rightarrow> bool \<Rightarrow> bool \<Rightarrow> tm option \<Rightarrow> bool \<times> tm option" where
  "CBS_parse_rfc5280_time_internal cbs is_gentime allow_timezone_offset out_tm =
     (case rfc5280_parse is_gentime allow_timezone_offset cbs of
        (None, _) \<Rightarrow> (False, out_tm)
      | (Some (year, month, day, hour, minute, sec, offset_seconds), copy) \<Rightarrow>
        if length copy \<noteq> 0 then (False, out_tm)
        else (case out_tm of
                None \<Rightarrow> (True, None)
              | Some t \<Rightarrow>
                let t = t\<lparr>tm_year := year - 1900, tm_mon := month - 1, tm_mday := day,
                          tm_hour := hour, tm_min := minute, tm_sec := sec\<rparr>
                in if offset_seconds \<noteq> 0
                   then (case OPENSSL_gmtime_adj t 0 offset_seconds of
                           Ret t' \<Rightarrow> (True, Some t')
                         | _ \<Rightarrow> (False, Some t))
                   else (True, Some t)))"

definition CBS_parse_generalized_time :: "cbs \<Rightarrow> tm option \<Rightarrow> bool \<Rightarrow> bool \<times> tm option" where
  "CBS_parse_generalized_time cbs out_tm allow_timezone_offset =
     CBS_parse_rfc5280_time_internal cbs True allow_timezone_offset out_tm"

definition CBS_parse_utc_time :: "cbs \<Rightarrow> tm option \<Rightarrow> bool \<Rightarrow> bool \<times> tm option" where
  "CBS_parse_utc_time cbs out_tm allow_timezone_offset =
     CBS_parse_rfc5280_time_internal cbs False allow_timezone_offset out_tm"

subsection \<open>The accepted format\<close>

definition two_digits :: "int \<Rightarrow> byte list" where
  "two_digits v = [word_of_int (48 + v div 10), word_of_int (48 + v mod 10)]"

lemma uint_byte_of_int: "0 \<le> x \<Longrightarrow> x < 256 \<Longrightarrow> uint (word_of_int x :: byte) = x"
  by (simp add: uint_word_of_int)

lemma two_digits_digit:
  assumes "0 \<le> v" and "v \<le> 99"
  shows "uint (word_of_int (48 + v div 10) :: byte) = 48 + v div 10" "uint (word_of_int (48 + v mod 10) :: byte) = 48 + v mod 10"
    "0 \<le> v div 10" "v div 10 \<le> 9" "0 \<le> v mod 10" "v mod 10 \<le> 9"
proof -
  show "0 \<le> v div 10" "v div 10 \<le> 9" using assms zdiv_mono1 [of v 99 10] by (simp_all add: pos_imp_zdiv_nonneg_iff)
  then show "uint (word_of_int (48 + v div 10) :: byte) = 48 + v div 10" by (intro uint_byte_of_int) simp_all
  show m: "0 \<le> v mod 10" "v mod 10 \<le> 9" using pos_mod_bound [of 10 v] by simp_all
  then show "uint (word_of_int (48 + v mod 10) :: byte) = 48 + v mod 10" by (intro uint_byte_of_int) simp_all
qed

lemma two_digits_Some:
  "cbs_get_two_digits s = (Some v, r) \<longleftrightarrow> 0 \<le> v \<and> v \<le> 99 \<and> s = two_digits v @ r"
proof
  assume g: "cbs_get_two_digits s = (Some v, r)"
  then obtain a b where s: "s = a # b # r" and d: "OPENSSL_isdigit (uint a)" "OPENSSL_isdigit (uint b)"
    and v: "v = (uint a - 48) * 10 + (uint b - 48)"
    by (auto simp: cbs_get_two_digits_def CBS_get_u8_Some elim!: rbind_SomeE split: if_splits)
  have b: "0 \<le> uint a - 48" "uint a - 48 \<le> 9" "0 \<le> uint b - 48" "uint b - 48 \<le> 9"
    using d by (simp_all add: OPENSSL_isdigit_def)
  have e: "v = 10 * (uint a - 48) + (uint b - 48)" using v by simp
  have "v div 10 = uint a - 48" "v mod 10 = uint b - 48"
    using b by (auto intro: int_div_pos_eq [OF e] int_mod_pos_eq [OF e])
  then show "0 \<le> v \<and> v \<le> 99 \<and> s = two_digits v @ r" using s v b by (simp add: two_digits_def)
next
  assume v: "0 \<le> v \<and> v \<le> 99 \<and> s = two_digits v @ r"
  then have v': "0 \<le> v" "v \<le> 99" by simp_all
  note d = two_digits_digit [OF v']
  define a b :: byte where "a = word_of_int (48 + v div 10)" and "b = word_of_int (48 + v mod 10)"
  have "s = a # b # r" using v by (simp add: two_digits_def a_def b_def)
  moreover have "uint a = 48 + v div 10" "uint b = 48 + v mod 10" using d(1,2) by (simp_all only: a_def b_def)
  moreover have "v div 10 * 10 + v mod 10 = v" by simp
  ultimately show "cbs_get_two_digits s = (Some v, r)"
    using d(3-6) by (simp add: cbs_get_two_digits_def OPENSSL_isdigit_def)
qed

lemma check_Some: "check b s = (Some x, r) \<longleftrightarrow> b \<and> r = s"
  by (auto simp: check_def)

lemma rbind_Some_iff: "rbind m f s = (Some y, r) \<longleftrightarrow> (\<exists>x t. m s = (Some x, t) \<and> f x t = (Some y, r))"
  by (auto elim: rbind_SomeE)

lemma valid_day_date: "0 \<le> y \<Longrightarrow> y \<le> 9999 \<Longrightarrow> 1 \<le> m \<Longrightarrow> is_valid_day y m d = is_valid_date y m d"
  by (auto simp: is_valid_day_def is_valid_date_def)

definition time_digits :: "int \<Rightarrow> int \<Rightarrow> int \<Rightarrow> int \<Rightarrow> int \<Rightarrow> byte list" where
  "time_digits m d h mi s = two_digits m @ two_digits d @ two_digits h @ two_digits mi @ two_digits s"

lemma valid_date_digits: "is_valid_date y m d \<Longrightarrow> 1 \<le> m \<and> m \<le> 12 \<and> 1 \<le> d \<and> d \<le> 31"
  by (auto simp: valid_date_iff month_len_def split: if_splits)

lemma rfc5280_fields_Some:
  assumes "0 \<le> y" and "y \<le> 9999"
  shows "rfc5280_fields y s = (Some (m, d, h, mi, sec, tz), r) \<longleftrightarrow>
    is_valid_date y m d \<and> is_valid_time h mi sec \<and> s = time_digits m d h mi sec @ tz # r"
  (is "?l \<longleftrightarrow> ?r")
proof
  assume ?l
  then show ?r
    using valid_day_date [OF assms, of m d]
    by (auto simp: rfc5280_fields_def rbind_Some_iff two_digits_Some check_Some CBS_get_u8_Some is_valid_time_def time_digits_def)
next
  assume ?r
  then have v: "1 \<le> m" "m \<le> 12" "1 \<le> d" "d \<le> 31" "0 \<le> h" "h \<le> 23" "0 \<le> mi" "mi \<le> 59" "0 \<le> sec" "sec \<le> 59"
    "is_valid_day y m d"
    using valid_date_digits [of y m d] valid_day_date [OF assms, of m d] by (auto simp: is_valid_time_def split: if_splits)
  have g: "cbs_get_two_digits (two_digits v @ t) = (Some v, t)" if "0 \<le> v" "v \<le> 99" for v t
    using that by (simp add: two_digits_Some)
  show ?l using v \<open>?r\<close> by (simp add: rfc5280_fields_def time_digits_def g check_def)
qed

text \<open>The year as the two formats write it, and the years each can express.\<close>

definition year_digits :: "bool \<Rightarrow> int \<Rightarrow> byte list" where
  "year_digits is_gentime y = (if is_gentime then two_digits (y div 100) @ two_digits (y mod 100) else two_digits (y mod 100))"

definition year_ok :: "bool \<Rightarrow> int \<Rightarrow> bool" where
  "year_ok is_gentime y = (if is_gentime then 0 \<le> y \<and> y \<le> 9999 else 1950 \<le> y \<and> y \<le> 2049)"

lemma rfc5280_year_Some:
  "rfc5280_year g s = (Some y, r) \<longleftrightarrow> year_ok g y \<and> s = year_digits g y @ r"
proof (cases g)
  case True
  have "rfc5280_year g s = (Some y, r) \<longleftrightarrow>
      (\<exists>a b. 0 \<le> a \<and> a \<le> 99 \<and> 0 \<le> b \<and> b \<le> 99 \<and> s = two_digits a @ two_digits b @ r \<and> y = a * 100 + b)"
    using True by (auto simp: rfc5280_year_def rbind_Some_iff two_digits_Some)
  also have "\<dots> \<longleftrightarrow> year_ok g y \<and> s = year_digits g y @ r"
  proof
    assume "\<exists>a b. 0 \<le> a \<and> a \<le> 99 \<and> 0 \<le> b \<and> b \<le> 99 \<and> s = two_digits a @ two_digits b @ r \<and> y = a * 100 + b"
    then obtain a b where ab: "0 \<le> a" "a \<le> 99" "0 \<le> b" "b \<le> 99" "s = two_digits a @ two_digits b @ r" "y = 100 * a + b" by auto
    then have "y div 100 = a" "y mod 100 = b" by (auto intro: int_div_pos_eq int_mod_pos_eq)
    then show "year_ok g y \<and> s = year_digits g y @ r" using True ab by (simp add: year_ok_def year_digits_def)
  next
    assume y: "year_ok g y \<and> s = year_digits g y @ r"
    then have "0 \<le> y div 100" "y div 100 \<le> 99" using True zdiv_mono1 [of y 9999 100]
      by (simp_all add: year_ok_def pos_imp_zdiv_nonneg_iff)
    moreover have "0 \<le> y mod 100" "y mod 100 \<le> 99" using pos_mod_bound [of 100 y] by simp_all
    ultimately show "\<exists>a b. 0 \<le> a \<and> a \<le> 99 \<and> 0 \<le> b \<and> b \<le> 99 \<and> s = two_digits a @ two_digits b @ r \<and> y = a * 100 + b"
      using y True by (intro exI [of _ "y div 100"] exI [of _ "y mod 100"]) (simp add: year_digits_def)
  qed
  finally show ?thesis .
next
  case False
  have c: "(1900 + tmp) mod 100 = tmp" "(2000 + tmp) mod 100 = tmp" if "0 \<le> tmp" "tmp \<le> 99" for tmp :: int
    using that int_mod_pos_eq [of "1900 + tmp" 100 19 tmp] int_mod_pos_eq [of "2000 + tmp" 100 20 tmp] by simp_all
  have y19: "y mod 100 = y - 1900" if "1950 \<le> y" "y < 2000"
    by (rule int_mod_pos_eq [of y 100 19]) (use that in simp_all)
  have y20: "y mod 100 = y - 2000" if "2000 \<le> y" "y \<le> 2049"
    by (rule int_mod_pos_eq [of y 100 20]) (use that in simp_all)
  have "rfc5280_year g s = (Some y, r) \<longleftrightarrow>
      (\<exists>a. 0 \<le> a \<and> a \<le> 99 \<and> s = two_digits a @ r \<and> y = (if 1900 + a < 1950 then 2000 + a else 1900 + a))"
  proof -
    have inner: "(let year = 1900 + a; year = (if year < 1950 then year + 100 else year)
        in if year \<ge> 2050 then rfail else rret year) t = (Some y, r) \<longleftrightarrow>
        y = (if 1900 + a < 1950 then 2000 + a else 1900 + a) \<and> r = t" if "a \<le> 99" for a t
      using that by (cases "1900 + a < 1950") (auto simp: Let_def)
    show ?thesis (is "?l \<longleftrightarrow> ?r")
    proof
      assume ?l
      then obtain a t where a: "cbs_get_two_digits s = (Some a, t)"
        and i: "(let year = 1900 + a; year = (if year < 1950 then year + 100 else year)
          in if year \<ge> 2050 then rfail else rret year) t = (Some y, r)"
        unfolding rfc5280_year_def if_not_P [OF False] by (rule rbind_SomeE)
      from a have v: "0 \<le> a" "a \<le> 99" "s = two_digits a @ t" by (simp_all add: two_digits_Some)
      with inner [OF v(2), of t] i show ?r by blast
    next
      assume ?r
      then obtain a where v: "0 \<le> a" "a \<le> 99" "s = two_digits a @ r"
        "y = (if 1900 + a < 1950 then 2000 + a else 1900 + a)" by blast
      then have "cbs_get_two_digits s = (Some a, r)" by (simp only: two_digits_Some)
      then have "rfc5280_year g s = (let year = 1900 + a; year = (if year < 1950 then year + 100 else year)
          in if year \<ge> 2050 then rfail else rret year) r"
        unfolding rfc5280_year_def if_not_P [OF False] by (rule rbind_Some)
      then show ?l using inner [OF v(2), of r] v(4) by simp
    qed
  qed
  also have "\<dots> \<longleftrightarrow> year_ok g y \<and> s = year_digits g y @ r"
  proof
    assume "\<exists>a. 0 \<le> a \<and> a \<le> 99 \<and> s = two_digits a @ r \<and> y = (if 1900 + a < 1950 then 2000 + a else 1900 + a)"
    then show "year_ok g y \<and> s = year_digits g y @ r" using False c by (auto simp: year_ok_def year_digits_def)
  next
    assume *: "year_ok g y \<and> s = year_digits g y @ r"
    then show "\<exists>a. 0 \<le> a \<and> a \<le> 99 \<and> s = two_digits a @ r \<and> y = (if 1900 + a < 1950 then 2000 + a else 1900 + a)"
      using False y19 y20 by (intro exI [of _ "y mod 100"]) (cases "y < 2000"; simp add: year_ok_def year_digits_def)
  qed
  finally show ?thesis .
qed

lemma rfc5280_offset_Z: "rfc5280_offset False tz s = (Some off, r) \<longleftrightarrow> tz = 90 \<and> off = 0 \<and> r = s"
  by (auto simp: rfc5280_offset_def Let_def)

lemma rfc5280_parse_Z:
  "rfc5280_parse g False s = (Some (y, m, d, h, mi, sec, off), r) \<longleftrightarrow>
     year_ok g y \<and> is_valid_date y m d \<and> is_valid_time h mi sec \<and> off = 0 \<and>
     s = year_digits g y @ time_digits m d h mi sec @ 90 # r"
proof -
  have "rfc5280_fields y t = (Some (m, d, h, mi, sec, tz), r) \<longleftrightarrow>
     is_valid_date y m d \<and> is_valid_time h mi sec \<and> t = time_digits m d h mi sec @ tz # r" if "year_ok g y" for y t m d h mi sec tz r
    using that by (intro rfc5280_fields_Some) (auto simp: year_ok_def split: if_splits)
  then show ?thesis
    by (auto simp: rfc5280_parse_def rbind_Some_iff rfc5280_year_Some rfc5280_offset_Z)
qed

definition set_tm :: "int \<Rightarrow> int \<Rightarrow> int \<Rightarrow> int \<Rightarrow> int \<Rightarrow> int \<Rightarrow> tm \<Rightarrow> tm" where
  "set_tm y m d h mi sec t = t\<lparr>tm_year := y - 1900, tm_mon := m - 1, tm_mday := d, tm_hour := h, tm_min := mi, tm_sec := sec\<rparr>"

text \<open>Without offsets the parser accepts exactly the format of RFC 5280 with valid fields.\<close>

lemma parse_rfc5280_Z:
  "CBS_parse_rfc5280_time_internal s g False (Some t) = (True, out) \<longleftrightarrow>
     (\<exists>y m d h mi sec. year_ok g y \<and> is_valid_date y m d \<and> is_valid_time h mi sec \<and>
        s = year_digits g y @ time_digits m d h mi sec @ [90] \<and> out = Some (set_tm y m d h mi sec t))"
  (is "?l \<longleftrightarrow> ?r")
proof
  assume ?l
  then obtain y m d h mi sec off where p: "rfc5280_parse g False s = (Some (y, m, d, h, mi, sec, off), [])"
    and out: "(if off \<noteq> 0 then (case OPENSSL_gmtime_adj (set_tm y m d h mi sec t) 0 off of
         Ret t' \<Rightarrow> (True, Some t') | _ \<Rightarrow> (False, Some (set_tm y m d h mi sec t))) else (True, Some (set_tm y m d h mi sec t))) = (True, out)"
    unfolding CBS_parse_rfc5280_time_internal_def Let_def set_tm_def [symmetric]
    by (auto split: prod.splits option.splits if_splits)
  then have "year_ok g y \<and> is_valid_date y m d \<and> is_valid_time h mi sec \<and>
      s = year_digits g y @ time_digits m d h mi sec @ [90] \<and> out = Some (set_tm y m d h mi sec t)"
    by (simp add: rfc5280_parse_Z)
  then show ?r by blast
next
  assume ?r
  then obtain y m d h mi sec where *: "year_ok g y" "is_valid_date y m d" "is_valid_time h mi sec"
      "s = year_digits g y @ time_digits m d h mi sec @ [90]" "out = Some (set_tm y m d h mi sec t)" by blast
  then have "rfc5280_parse g False s = (Some (y, m, d, h, mi, sec, 0), [])" by (simp add: rfc5280_parse_Z)
  then show ?l using *(5) by (simp add: CBS_parse_rfc5280_time_internal_def set_tm_def)
qed

lemma set_tm_posix:
  assumes "is_valid_date y m d" and "is_valid_time h mi sec"
  shows "OPENSSL_tm_to_posix (set_tm y m d h mi sec t) = Ret ((day_number y m d - 719468) * 86400 + h * 3600 + mi * 60 + sec)"
  using assms valid_date_digits [OF assms(1)] by (auto simp: OPENSSL_tm_to_posix_def set_tm_def int_range_def from_utc_eq valid_date_iff)

subsection \<open>Offsets\<close>

lemma rfc5280_offset_some:
  assumes "tz = 43 \<or> tz = 45" and "0 \<le> oh" "oh \<le> 23" "0 \<le> om" "om \<le> 59"
  shows "rfc5280_offset True tz (two_digits oh @ two_digits om @ r) =
    (Some ((if tz = 43 then 1 else - 1) * (oh * 3600 + om * 60)), r)"
proof -
  have g: "cbs_get_two_digits (two_digits v @ t) = (Some v, t)" if "0 \<le> v" "v \<le> 99" for v t
    using that by (simp add: two_digits_Some)
  show ?thesis using assms by (auto simp: rfc5280_offset_def Let_def g check_def)
qed

lemma tm_of_set_tm: "tm_of (y, m, d, h, mi, s) t = set_tm y m d h mi s t"
  by (simp add: tm_of_def set_tm_def)

lemma tm_to_posix_of_utc:
  assumes "posix_time_from_utc y m d h mi s = Some p"
  shows "OPENSSL_tm_to_posix (set_tm y m d h mi s t) = Ret p"
  using assms set_tm_posix [of y m d h mi s t] by (auto simp: from_utc_eq split: if_splits)

lemma gmtime_adj_spec:
  assumes "OPENSSL_tm_to_posix t = Ret p" and "is_valid_epoch_time (p + off_day * 86400 + off)"
  shows "\<exists>y m d h mi s. OPENSSL_gmtime_adj t off_day off = Ret (set_tm y m d h mi s t) \<and>
    OPENSSL_tm_to_posix (set_tm y m d h mi s t) = Ret (p + off_day * 86400 + off)"
proof -
  obtain y m d h mi s where "utc_from_posix_time (p + off_day * 86400 + off) = Some (y, m, d, h, mi, s)"
    and "posix_time_from_utc y m d h mi s = Some (p + off_day * 86400 + off)"
    using assms(2) by (rule utc_posix_round_trip)
  moreover have "int64_range (p + off_day * 86400 + off)"
    using assms(2) by (simp add: is_valid_epoch_time_def int64_range_def)
  ultimately have "OPENSSL_gmtime_adj t off_day off = Ret (set_tm y m d h mi s t) \<and>
    OPENSSL_tm_to_posix (set_tm y m d h mi s t) = Ret (p + off_day * 86400 + off)"
    using assms(1) tm_to_posix_of_utc by (simp add: OPENSSL_gmtime_adj_def tm_of_set_tm)
  then show ?thesis by blast
qed

text \<open>
  A time with an offset: the offset is added with its sign to the local time.
\<close>

lemma parse_rfc5280_offset:
  assumes "year_ok g y" and "is_valid_date y m d" and "is_valid_time h mi sec"
    and "tz = 43 \<or> tz = 45" and "0 \<le> oh" "oh \<le> 23" "0 \<le> om" "om \<le> 59"
    and "posix_time_from_utc y m d h mi sec = Some p"
  defines "off \<equiv> (if tz = 43 then 1 else - 1) * (oh * 3600 + om * 60)"
  assumes "is_valid_epoch_time (p + off)"
  shows "\<exists>t'. CBS_parse_rfc5280_time_internal
      (year_digits g y @ time_digits m d h mi sec @ tz # two_digits oh @ two_digits om) g True (Some t) = (True, Some t') \<and>
    OPENSSL_tm_to_posix t' = Ret (p + off)"
proof -
  let ?s = "year_digits g y @ time_digits m d h mi sec @ tz # two_digits oh @ two_digits om"
  have "rfc5280_year g ?s = (Some y, time_digits m d h mi sec @ tz # two_digits oh @ two_digits om)"
    using assms(1) by (simp add: rfc5280_year_Some)
  moreover have "rfc5280_fields y (time_digits m d h mi sec @ tz # two_digits oh @ two_digits om) =
      (Some (m, d, h, mi, sec, tz), two_digits oh @ two_digits om)"
    using assms(1-3) by (subst rfc5280_fields_Some) (auto simp: year_ok_def split: if_splits)
  moreover have "rfc5280_offset True tz (two_digits oh @ two_digits om) = (Some off, [])"
    using rfc5280_offset_some [OF assms(4-8), of "[]"] by (simp add: off_def)
  ultimately have p: "rfc5280_parse g True ?s = (Some (y, m, d, h, mi, sec, off), [])"
    by (simp add: rfc5280_parse_def)
  let ?t = "set_tm y m d h mi sec t"
  have t: "OPENSSL_tm_to_posix ?t = Ret p" using assms(9) by (rule tm_to_posix_of_utc)
  have i: "CBS_parse_rfc5280_time_internal ?s g True (Some t) =
      (if off \<noteq> 0 then (case OPENSSL_gmtime_adj ?t 0 off of Ret t' \<Rightarrow> (True, Some t') | _ \<Rightarrow> (False, Some ?t))
       else (True, Some ?t))"
    using p by (simp add: CBS_parse_rfc5280_time_internal_def set_tm_def Let_def split: c_result.split)
  show ?thesis
  proof (cases "off = 0")
    case True
    then show ?thesis using i t by simp
  next
    case False
    then show ?thesis using i gmtime_adj_spec [OF t, of 0 off] assms(11) by auto
  qed
qed

end
