(* ===== verification/Constant_Time.thy ===== *)
theory Constant_Time
  imports Bytes_Prelude
begin

text \<open>
  The constant-time helpers of \<open>crypto/internal.h\<close> on 64-bit \<open>crypto_word_t\<close>. Each computes a
  comparison or a selection by bit operations alone; the lemmas say which, so that clients
  reason with \<open>if\<close>. \<open>value_barrier_w\<close> returns its argument.
\<close>

definition constant_time_msb_w :: "u64 \<Rightarrow> u64" where
  "constant_time_msb_w a = 0 - drop_bit 63 a"

definition constant_time_lt_w :: "u64 \<Rightarrow> u64 \<Rightarrow> u64" where
  "constant_time_lt_w a b = constant_time_msb_w (a XOR ((a XOR b) OR ((a - b) XOR a)))"

definition constant_time_lt_8 :: "u64 \<Rightarrow> u64 \<Rightarrow> byte" where
  "constant_time_lt_8 a b = ucast (constant_time_lt_w a b)"

definition constant_time_ge_w :: "u64 \<Rightarrow> u64 \<Rightarrow> u64" where
  "constant_time_ge_w a b = NOT (constant_time_lt_w a b)"

definition constant_time_ge_8 :: "u64 \<Rightarrow> u64 \<Rightarrow> byte" where
  "constant_time_ge_8 a b = ucast (constant_time_ge_w a b)"

definition constant_time_is_zero_w :: "u64 \<Rightarrow> u64" where
  "constant_time_is_zero_w a = constant_time_msb_w (NOT a AND (a - 1))"

definition constant_time_is_zero_8 :: "u64 \<Rightarrow> byte" where
  "constant_time_is_zero_8 a = ucast (constant_time_is_zero_w a)"

definition constant_time_eq_w :: "u64 \<Rightarrow> u64 \<Rightarrow> u64" where
  "constant_time_eq_w a b = constant_time_is_zero_w (a XOR b)"

definition constant_time_eq_8 :: "u64 \<Rightarrow> u64 \<Rightarrow> byte" where
  "constant_time_eq_8 a b = ucast (constant_time_eq_w a b)"

definition constant_time_eq_int :: "int \<Rightarrow> int \<Rightarrow> u64" where
  "constant_time_eq_int a b = constant_time_eq_w (word_of_int a) (word_of_int b)"

definition constant_time_eq_int_8 :: "int \<Rightarrow> int \<Rightarrow> byte" where
  "constant_time_eq_int_8 a b = constant_time_eq_8 (word_of_int a) (word_of_int b)"

definition constant_time_select_w :: "u64 \<Rightarrow> u64 \<Rightarrow> u64 \<Rightarrow> u64" where
  "constant_time_select_w msk a b = (msk AND a) OR (NOT msk AND b)"

definition constant_time_select_8 :: "u64 \<Rightarrow> byte \<Rightarrow> byte \<Rightarrow> byte" where
  "constant_time_select_8 msk a b = (let m = ucast msk in (m AND a) OR (NOT m AND b))"

text \<open>\<open>int\<close> is 32 bits wide; the result is converted back with its sign.\<close>

definition constant_time_select_int :: "u64 \<Rightarrow> int \<Rightarrow> int \<Rightarrow> int" where
  "constant_time_select_int msk a b =
     sint (ucast (constant_time_select_w msk (word_of_int a) (word_of_int b)) :: u32)"

definition constant_time_conditional_memcpy :: "byte list \<Rightarrow> byte list \<Rightarrow> u64 \<Rightarrow> byte list" where
  "constant_time_conditional_memcpy dst src msk = map2 (\<lambda>i o'. constant_time_select_8 msk i o') src dst"

definition constant_time_conditional_memxor :: "byte list \<Rightarrow> byte list \<Rightarrow> u64 \<Rightarrow> byte list" where
  "constant_time_conditional_memxor dst src msk = map2 (\<lambda>i o'. o' XOR (ucast msk AND i)) src dst"

subsection \<open>What they compute\<close>

abbreviation mask_w :: "bool \<Rightarrow> 'a::len word" where
  "mask_w b \<equiv> (if b then - 1 else 0)"

lemma bit_63: "bit (a :: u64) 63 \<longleftrightarrow> 2 ^ 63 \<le> unat a"
proof -
  have "bit a 63 \<longleftrightarrow> bit (unat a) 63" by (simp add: bit_unsigned_iff)
  also have "\<dots> \<longleftrightarrow> odd (unat a div 2 ^ 63)" by (simp add: bit_iff_odd)
  also have "\<dots> \<longleftrightarrow> 2 ^ 63 \<le> unat a"
  proof (cases "2 ^ 63 \<le> unat a")
    case True
    then have "unat a div 2 ^ 63 = 1" using unat_u64_less [of a] by (simp add: le_div_geq)
    with True show ?thesis by simp
  qed simp
  finally show ?thesis .
qed

lemma msb_w: "constant_time_msb_w a = mask_w (bit a 63)"
proof -
  have "drop_bit 63 a = (if bit a 63 then 1 else 0)"
  proof (rule bit_word_eqI)
    fix n assume "n < LENGTH(64)"
    have "bit a (63 + n) \<longleftrightarrow> bit a 63 \<and> n = 0"
      using bit_imp_le_length [of a "63 + n"] by (cases n) auto
    then show "bit (drop_bit 63 a) n = bit (if bit a 63 then 1 else 0 :: u64) n"
      by (simp add: bit_drop_bit_eq bit_1_iff add.commute)
  qed
  then show ?thesis by (simp add: constant_time_msb_w_def)
qed

lemma unat_sub_wrap: "unat (a - b :: u64) = (if unat b \<le> unat a then unat a - unat b else size_mod + unat a - unat b)"
proof -
  have "unat (a - b) = (if unat b \<le> unat a then unat a - unat b else unat a + size_mod - unat b)"
    by (simp add: unat_sub_if_size word_size)
  then show ?thesis by (simp only: add.commute)
qed

lemma lt_w: "constant_time_lt_w a b = mask_w (a < b)"
proof -
  have "bit (a XOR ((a XOR b) OR ((a - b) XOR a))) 63 \<longleftrightarrow> a < b"
    using unat_u64_less [of a] unat_u64_less [of b]
    by (simp add: bit_simps) (auto simp: bit_63 word_less_nat_alt unat_sub_wrap)
  then show ?thesis by (simp add: constant_time_lt_w_def msb_w)
qed

lemma is_zero_w: "constant_time_is_zero_w a = mask_w (a = 0)"
proof -
  have "bit (NOT a AND (a - 1)) 63 \<longleftrightarrow> a = 0"
    using unat_u64_less [of a] by (simp add: bit_simps) (auto simp: bit_63 unat_sub_wrap word_unat_eq_iff)
  then show ?thesis by (simp add: constant_time_is_zero_w_def msb_w)
qed


lemma eq_w: "constant_time_eq_w a b = mask_w (a = b)"
proof -
  have "a XOR b = 0 \<longleftrightarrow> a = b" by (auto simp: bit_eq_iff bit_simps)
  then show ?thesis by (simp add: constant_time_eq_w_def is_zero_w)
qed

lemma ge_w: "constant_time_ge_w a b = mask_w (b \<le> a)"
  by (auto simp: constant_time_ge_w_def lt_w not_less)

lemma select_w: "constant_time_select_w (mask_w c) a b = (if c then a else b)"
  by (simp add: constant_time_select_w_def)

lemma ucast_mask_w [simp]: "(ucast (mask_w c :: u64) :: byte) = mask_w c"
proof -
  have "(ucast (- 1 :: u64) :: byte) = - 1" by (rule bit_word_eqI) (simp add: bit_simps)
  then show ?thesis by simp
qed

lemma select_8: "constant_time_select_8 (mask_w c) a b = (if c then a else b)"
  by (simp add: constant_time_select_8_def)

lemma byte_masks:
  "constant_time_lt_8 a b = mask_w (a < b)"
  "constant_time_ge_8 a b = mask_w (b \<le> a)"
  "constant_time_is_zero_8 a = mask_w (a = 0)"
  "constant_time_eq_8 a b = mask_w (a = b)"
  by (simp_all add: constant_time_lt_8_def constant_time_ge_8_def constant_time_is_zero_8_def
      constant_time_eq_8_def lt_w ge_w is_zero_w eq_w)

lemmas constant_time_masks = lt_w ge_w is_zero_w eq_w byte_masks

text \<open>On \<open>int\<close> arguments the conversion to \<open>crypto_word_t\<close> is injective, so equality is decided
  exactly, and the selection converts back without loss.\<close>

lemma word_of_int_inject:
  assumes "- 2147483648 \<le> a" "a < 2147483648" "- 2147483648 \<le> b" "b < 2147483648"
  shows "(word_of_int a :: u64) = word_of_int b \<longleftrightarrow> a = b"
proof
  assume "(word_of_int a :: u64) = word_of_int b"
  then have "sint (word_of_int a :: u64) = sint (word_of_int b :: u64)" by simp
  then show "a = b" using assms by (simp add: sint_sbintrunc' signed_take_bit_int_eq_self)
qed simp

lemma eq_int:
  assumes "- 2147483648 \<le> a" "a < 2147483648" "- 2147483648 \<le> b" "b < 2147483648"
  shows "constant_time_eq_int a b = mask_w (a = b)"
  using word_of_int_inject [OF assms] by (simp add: constant_time_eq_int_def eq_w)

lemma select_int:
  assumes "- 2147483648 \<le> a" "a < 2147483648" "- 2147483648 \<le> b" "b < 2147483648"
  shows "constant_time_select_int (mask_w c) a b = (if c then a else b)"
proof -
  have "sint (ucast (word_of_int x :: u64) :: u32) = x" if "- 2147483648 \<le> x" "x < 2147483648" for x
  proof -
    have "(ucast (word_of_int x :: u64) :: u32) = word_of_int x" by (rule bit_word_eqI) (simp add: bit_simps)
    then show ?thesis using that by (simp add: sint_sbintrunc' signed_take_bit_int_eq_self)
  qed
  then show ?thesis using assms unfolding constant_time_select_int_def select_w by (cases c) simp_all
qed

lemma conditional_memcpy:
  "length src = length dst \<Longrightarrow>
     constant_time_conditional_memcpy dst src (mask_w c) = (if c then src else dst)"
  by (induction src dst rule: list_induct2) (auto simp: constant_time_conditional_memcpy_def select_8)

lemma conditional_memxor:
  "length src = length dst \<Longrightarrow>
     constant_time_conditional_memxor dst src (mask_w c) = (if c then map2 (XOR) dst src else dst)"
  by (induction src dst rule: list_induct2) (auto simp: constant_time_conditional_memxor_def)

end
