(* ===== verification/Base64.thy ===== *)
theory Base64
  imports Constant_Time
begin

text \<open>
  \<open>crypto/base64/base64.c\<close>: the constant-time alphabet, the one-shot and the streaming encoder
  and decoder. An output pointer is the caller's block of memory together with the offset the
  pointer has advanced to; every store is a \<open>write_at\<close>.
\<close>

record EVP_ENCODE_CTX =
  data_used :: nat
  ctx_data :: "byte list"
  eof_seen :: bool
  error_encountered :: bool

subsection \<open>Encoding\<close>

definition constant_time_lt_args_8 :: "byte \<Rightarrow> byte \<Rightarrow> byte" where
  "constant_time_lt_args_8 a b = ucast (constant_time_msb_w (ucast a - ucast b))"

definition constant_time_in_range_8 :: "byte \<Rightarrow> byte \<Rightarrow> byte \<Rightarrow> byte" where
  "constant_time_in_range_8 a mn mx = constant_time_lt_args_8 (a - mn) (mx - mn + 1)"

definition conv_bin2ascii :: "byte \<Rightarrow> byte" where
  "conv_bin2ascii a0 =
     (let a = a0 AND 0x3f;
          ret = constant_time_select_8 (ucast (constant_time_eq_8 (ucast a) 62)) 43 47;
          ret = constant_time_select_8 (ucast (constant_time_lt_args_8 a 62)) (a - 52 + 48) ret;
          ret = constant_time_select_8 (ucast (constant_time_lt_args_8 a 52)) (a - 26 + 97) ret
      in constant_time_select_8 (ucast (constant_time_lt_args_8 a 26)) (a + 65) ret)"

definition EVP_EncodedLength :: "nat \<Rightarrow> nat option" where
  "EVP_EncodedLength n =
     (if (n + 2) mod size_mod < n then None
      else let l = (n + 2) mod size_mod div 3
           in if (l * 4 mod size_mod) div 4 \<noteq> l then None
              else let l = l * 4 mod size_mod
                   in if (l + 1) mod size_mod < l then None else Some ((l + 1) mod size_mod))"

definition EVP_EncodeInit :: EVP_ENCODE_CTX where
  "EVP_EncodeInit = \<lparr>data_used = 0, ctx_data = replicate 48 0, eof_seen = False, error_encountered = False\<rparr>"

text \<open>
  The loop of \<open>EVP_EncodeBlock\<close> over the bytes of \<open>src\<close> that remain; \<open>ret\<close> is both the number
  of bytes written and the distance \<open>dst\<close> has advanced.
\<close>

fun encode_block_loop :: "byte list \<Rightarrow> nat \<Rightarrow> nat \<Rightarrow> byte list \<Rightarrow> byte list \<times> nat" where
  "encode_block_loop dst off ret [] = (dst, ret)"
| "encode_block_loop dst off ret [a] =
     (let l = push_bit 16 (ucast a :: u32)
      in (write_at dst (off + ret)
            [conv_bin2ascii (ucast (drop_bit 18 l)), conv_bin2ascii (ucast (drop_bit 12 l)), 61, 61],
          ret + 4))"
| "encode_block_loop dst off ret [a, b] =
     (let l = push_bit 16 (ucast a :: u32) OR push_bit 8 (ucast b)
      in (write_at dst (off + ret)
            [conv_bin2ascii (ucast (drop_bit 18 l)), conv_bin2ascii (ucast (drop_bit 12 l)),
             conv_bin2ascii (ucast (drop_bit 6 l)), 61],
          ret + 4))"
| "encode_block_loop dst off ret (a # b # c # src) =
     (let l = push_bit 16 (ucast a :: u32) OR push_bit 8 (ucast b) OR ucast c
      in encode_block_loop
           (write_at dst (off + ret)
              [conv_bin2ascii (ucast (drop_bit 18 l)), conv_bin2ascii (ucast (drop_bit 12 l)),
               conv_bin2ascii (ucast (drop_bit 6 l)), conv_bin2ascii (ucast l)])
           off (ret + 4) src)"

definition EVP_EncodeBlock :: "byte list \<Rightarrow> nat \<Rightarrow> byte list \<Rightarrow> byte list \<times> nat" where
  "EVP_EncodeBlock dst off src =
     (case encode_block_loop dst off 0 src of (dst', ret) \<Rightarrow> (write_at dst' (off + ret) [0], ret))"

text \<open>
  One line of \<open>EVP_EncodeUpdate\<close>: 48 bytes, a newline and a terminating zero that the next
  line overwrites.
\<close>

definition encode_line :: "byte list \<Rightarrow> nat \<Rightarrow> byte list \<Rightarrow> byte list \<times> nat" where
  "encode_line out off inp =
     (case EVP_EncodeBlock out off inp of (out', encoded) \<Rightarrow>
        (write_at (write_at out' (off + encoded) [10]) (off + encoded + 1) [0], encoded))"

text \<open>
  The loop over whole lines; the last component is \<open>True\<close> when the loop was left by the early
  return on the overflow of the running total.
\<close>

function encode_lines ::
  "byte list \<Rightarrow> nat \<Rightarrow> byte list \<Rightarrow> nat \<Rightarrow> byte list \<times> byte list \<times> nat \<times> bool" where
  "encode_lines out off inp tot =
     (if length inp \<ge> 48
      then case encode_line out off (take 48 inp) of (out', encoded) \<Rightarrow>
             if (tot + encoded + 1) mod size_mod < tot
             then (out', drop 48 inp, tot, True)
             else encode_lines out' (off + encoded + 1) (drop 48 inp) ((tot + encoded + 1) mod size_mod)
      else (out, inp, tot, False))"
  by pat_completeness auto
termination by (relation "measure (\<lambda>(out, off, inp, tot). length inp)") auto

declare encode_lines.simps [simp del]

definition EVP_EncodeUpdate ::
  "EVP_ENCODE_CTX \<Rightarrow> byte list \<Rightarrow> byte list \<Rightarrow> (EVP_ENCODE_CTX \<times> byte list \<times> nat) c_result" where
  "EVP_EncodeUpdate ctx out inp =
     (if inp = [] then Ret (ctx, out, 0)
      else if \<not> data_used ctx < 48 then Undef
      else if 48 - data_used ctx > length inp
      then Ret (ctx\<lparr>ctx_data := write_at (ctx_data ctx) (data_used ctx) inp,
                    data_used := data_used ctx + length inp\<rparr>, out, 0)
      else
        let (ctx1, out1, inp1, total1) =
              (if data_used ctx \<noteq> 0
               then let todo = 48 - data_used ctx;
                        data = write_at (ctx_data ctx) (data_used ctx) (take todo inp)
                    in case encode_line out 0 data of (out', encoded) \<Rightarrow>
                         (ctx\<lparr>ctx_data := data, data_used := 0\<rparr>, out', drop todo inp, encoded + 1)
               else (ctx, out, inp, 0))
        in case encode_lines out1 total1 inp1 total1 of (out2, inp2, total2, overflow) \<Rightarrow>
             if overflow then Ret (ctx1, out2, 0)
             else Ret (ctx1\<lparr>ctx_data := write_at (ctx_data ctx1) 0 inp2, data_used := length inp2\<rparr>,
                       out2, if total2 > INT_MAX then 0 else total2))"

definition EVP_EncodeFinal :: "EVP_ENCODE_CTX \<Rightarrow> byte list \<Rightarrow> EVP_ENCODE_CTX \<times> byte list \<times> nat" where
  "EVP_EncodeFinal ctx out =
     (if data_used ctx = 0 then (ctx, out, 0)
      else case EVP_EncodeBlock out 0 (take (data_used ctx) (ctx_data ctx)) of (out', encoded) \<Rightarrow>
             (ctx\<lparr>data_used := 0\<rparr>,
              write_at (write_at out' encoded [10]) (encoded + 1) [0], encoded + 1))"

subsection \<open>Decoding\<close>

definition EVP_DecodedLength :: "nat \<Rightarrow> nat option" where
  "EVP_DecodedLength n = (if n mod 4 \<noteq> 0 then None else Some (n div 4 * 3))"

definition EVP_DecodeInit :: EVP_ENCODE_CTX where
  "EVP_DecodeInit = \<lparr>data_used = 0, ctx_data = replicate 48 0, eof_seen = False, error_encountered = False\<rparr>"

definition base64_ascii_to_bin :: "byte \<Rightarrow> byte" where
  "base64_ascii_to_bin a =
     (let is_upper = constant_time_in_range_8 a 65 90;
          is_lower = constant_time_in_range_8 a 97 122;
          is_digit = constant_time_in_range_8 a 48 57;
          is_plus = constant_time_eq_8 (ucast a) 43;
          is_slash = constant_time_eq_8 (ucast a) 47;
          is_equals = constant_time_eq_8 (ucast a) 61;
          ret = is_upper AND (a - 65);
          ret = ret OR (is_lower AND (a - 97 + 26));
          ret = ret OR (is_digit AND (a - 48 + 52));
          ret = ret OR (is_plus AND 62);
          ret = ret OR (is_slash AND 63);
          is_valid = is_upper OR is_lower OR is_digit OR is_plus OR is_slash OR is_equals
      in ret OR NOT is_valid)"

definition base64_decode_quad :: "byte \<Rightarrow> byte \<Rightarrow> byte \<Rightarrow> byte \<Rightarrow> byte list option" where
  "base64_decode_quad in0 in1 in2 in3 =
     (let a = base64_ascii_to_bin in0; b = base64_ascii_to_bin in1;
          c = base64_ascii_to_bin in2; d = base64_ascii_to_bin in3
      in if a = 0xff \<or> b = 0xff \<or> c = 0xff \<or> d = 0xff then None
         else let v = push_bit 18 (ucast a :: u32) OR push_bit 12 (ucast b) OR push_bit 6 (ucast c) OR ucast d;
                  padding_pattern = (push_bit 3 (of_bool (in0 = 61)) OR push_bit 2 (of_bool (in1 = 61)) OR
                                     push_bit 1 (of_bool (in2 = 61)) OR of_bool (in3 = 61) :: u32)
              in if padding_pattern = 0
                 then Some [ucast (drop_bit 16 v), ucast (drop_bit 8 v), ucast v]
                 else if padding_pattern = 1 then Some [ucast (drop_bit 16 v), ucast (drop_bit 8 v)]
                 else if padding_pattern = 3 then Some [ucast (drop_bit 16 v)]
                 else None)"

definition is_ws :: "byte \<Rightarrow> bool" where
  "is_ws c \<longleftrightarrow> c = 32 \<or> c = 9 \<or> c = 13 \<or> c = 10"

text \<open>
  The loop of \<open>EVP_DecodeUpdate\<close>; \<open>bytes_out\<close> is also the distance \<open>out\<close> has advanced. The last
  component is \<open>True\<close> when the loop was left by \<open>return -1\<close>.
\<close>

fun decode_update_loop ::
  "EVP_ENCODE_CTX \<Rightarrow> byte list \<Rightarrow> nat \<Rightarrow> byte list \<Rightarrow> EVP_ENCODE_CTX \<times> byte list \<times> nat \<times> bool" where
  "decode_update_loop ctx out bytes_out [] = (ctx, out, bytes_out, False)"
| "decode_update_loop ctx out bytes_out (c # cs) =
     (if is_ws c then decode_update_loop ctx out bytes_out cs
      else if eof_seen ctx then (ctx\<lparr>error_encountered := True\<rparr>, out, bytes_out, True)
      else
        let ctx1 = ctx\<lparr>ctx_data := write_at (ctx_data ctx) (data_used ctx) [c],
                       data_used := data_used ctx + 1\<rparr>
        in if data_used ctx1 = 4
           then case base64_decode_quad (ctx_data ctx1 ! 0) (ctx_data ctx1 ! 1) (ctx_data ctx1 ! 2) (ctx_data ctx1 ! 3) of
                  None \<Rightarrow> (ctx1\<lparr>error_encountered := True\<rparr>, out, bytes_out, True)
                | Some bs \<Rightarrow>
                    decode_update_loop
                      (if length bs < 3 then ctx1\<lparr>data_used := 0, eof_seen := True\<rparr> else ctx1\<lparr>data_used := 0\<rparr>)
                      (write_at out bytes_out bs) (bytes_out + length bs) cs
           else decode_update_loop ctx1 out bytes_out cs)"

definition EVP_DecodeUpdate ::
  "EVP_ENCODE_CTX \<Rightarrow> byte list \<Rightarrow> byte list \<Rightarrow> int \<times> EVP_ENCODE_CTX \<times> byte list \<times> nat" where
  "EVP_DecodeUpdate ctx out inp =
     (if error_encountered ctx then (- 1, ctx, out, 0)
      else case decode_update_loop ctx out 0 inp of (ctx', out', bytes_out, failed) \<Rightarrow>
             if failed then (- 1, ctx', out', 0)
             else if bytes_out > INT_MAX then (- 1, ctx'\<lparr>error_encountered := True\<rparr>, out', 0)
             else (if eof_seen ctx' then 0 else 1, ctx', out', bytes_out))"

definition EVP_DecodeFinal :: "EVP_ENCODE_CTX \<Rightarrow> int \<times> nat" where
  "EVP_DecodeFinal ctx = (if error_encountered ctx \<or> data_used ctx \<noteq> 0 then - 1 else 1, 0)"

text \<open>
  The loop of \<open>EVP_DecodeBase64\<close> over the quads of the input, whose length is a multiple of
  four; the result is the return value, the output block and the number of bytes written.
\<close>

fun decode_base64_loop :: "byte list \<Rightarrow> nat \<Rightarrow> byte list \<Rightarrow> bool \<times> byte list \<times> nat" where
  "decode_base64_loop out bytes_out (a # b # c # d # rest) =
     (case base64_decode_quad a b c d of
        None \<Rightarrow> (False, out, 0)
      | Some bs \<Rightarrow>
          let out' = write_at out bytes_out bs
          in if length bs \<noteq> 3 \<and> rest \<noteq> [] then (False, out', 0)
             else decode_base64_loop out' (bytes_out + length bs) rest)"
| "decode_base64_loop out bytes_out _ = (True, out, bytes_out)"

definition EVP_DecodeBase64 :: "byte list \<Rightarrow> nat \<Rightarrow> byte list \<Rightarrow> bool \<times> byte list \<times> nat" where
  "EVP_DecodeBase64 out max_out inp =
     (if length inp mod 4 \<noteq> 0 then (False, out, 0)
      else case EVP_DecodedLength (length inp) of
             None \<Rightarrow> (False, out, 0)
           | Some max_len \<Rightarrow> if max_out < max_len then (False, out, 0)
                             else decode_base64_loop out 0 inp)"

function pad_nuls :: "byte list \<Rightarrow> nat \<Rightarrow> byte list \<times> nat" where
  "pad_nuls dst n = (if n mod 3 \<noteq> 0 then pad_nuls (write_at dst n [0]) (n + 1) else (dst, n))"
  by pat_completeness auto
termination by (relation "measure (\<lambda>(dst, n). 2 * n mod 3)") (auto, presburger)

declare pad_nuls.simps [simp del]

definition EVP_DecodeBlock :: "byte list \<Rightarrow> byte list \<Rightarrow> int \<times> byte list" where
  "EVP_DecodeBlock dst src =
     (let src1 = dropWhile (\<lambda>c. c = 32 \<or> c = 9) src;
          src2 = rev (dropWhile is_ws (rev src1))
      in case EVP_DecodedLength (length src2) of
           None \<Rightarrow> (- 1, dst)
         | Some dst_len \<Rightarrow>
             if dst_len > INT_MAX then (- 1, dst)
             else case EVP_DecodeBase64 dst dst_len src2 of
                    (False, dst', _) \<Rightarrow> (- 1, dst')
                  | (True, dst', n) \<Rightarrow> (case pad_nuls dst' n of (dst'', n') \<Rightarrow> (int n', dst'')))"


subsection \<open>The alphabet\<close>

definition b64_alphabet :: "byte list" where
  "b64_alphabet = map of_char ''ABCDEFGHIJKLMNOPQRSTUVWXYZabcdefghijklmnopqrstuvwxyz0123456789+/''"

lemma unat_ucast_byte: "unat (ucast (a :: byte) :: u64) = unat a"
  by (simp add: unat_ucast_mod mod_less [OF less_trans [OF unat_byte_less]])

lemma lt_args_8: "constant_time_lt_args_8 a b = mask_w (a < b)"
proof -
  have "2 ^ 63 \<le> unat (ucast a - ucast b :: u64) \<longleftrightarrow> unat a < unat b"
    using unat_byte_less [of a] unat_byte_less [of b] unfolding unat_sub_wrap unat_ucast_byte by auto
  then show ?thesis by (simp add: constant_time_lt_args_8_def msb_w bit_63 word_less_nat_alt)
qed

lemma in_range_8:
  assumes "mn \<le> mx" "mx < 255"
  shows "constant_time_in_range_8 a mn mx = mask_w (mn \<le> a \<and> a \<le> mx)"
proof -
  have s: "unat (mx - mn + 1) = unat mx - unat mn + 1"
    using assms by (simp add: unat_word_ariths unat_sub word_less_nat_alt word_le_nat_alt)
  have "a - mn < mx - mn + 1 \<longleftrightarrow> mn \<le> a \<and> a \<le> mx"
    using assms unat_byte_less [of a] unfolding word_less_nat_alt s word_le_nat_alt
    by (auto simp: unat_sub_if_size word_size)
  then show ?thesis by (simp add: constant_time_in_range_8_def lt_args_8)
qed

lemma ucast_ucast_byte [simp]: "(ucast (ucast (m :: byte) :: u64) :: byte) = m"
  by (rule bit_word_eqI) (simp add: bit_simps)

lemma select_8_byte: "constant_time_select_8 (ucast (mask_w c :: byte)) a b = (if c then a else b)"
  unfolding constant_time_select_8_def Let_def ucast_ucast_byte by simp

lemma eq_8_byte:
  "v = ucast b \<Longrightarrow> constant_time_eq_8 (ucast (a :: byte)) v = mask_w (a = b)"
  unfolding byte_masks by (simp add: word_unat_eq_iff unat_ucast_byte)

lemma conv_bin2ascii_if:
  "conv_bin2ascii a0 =
     (let a = a0 AND 0x3f
      in if a < 26 then a + 65 else if a < 52 then a - 26 + 97 else if a < 62 then a - 52 + 48
         else if a = 62 then 43 else 47)"
  unfolding conv_bin2ascii_def Let_def lt_args_8 select_8_byte eq_8_byte [of 62 62, simplified] by simp

lemma ascii_to_bin_if:
  "base64_ascii_to_bin a =
     (if 65 \<le> a \<and> a \<le> 90 then a - 65
      else if 97 \<le> a \<and> a \<le> 122 then a - 97 + 26
      else if 48 \<le> a \<and> a \<le> 57 then a - 48 + 52
      else if a = 43 then 62 else if a = 47 then 63 else if a = 61 then 0 else 255)"
proof -
  have e: "constant_time_eq_8 (ucast a) 43 = mask_w (a = 43)" "constant_time_eq_8 (ucast a) 47 = mask_w (a = 47)"
    "constant_time_eq_8 (ucast a) 61 = mask_w (a = 61)"
    by (rule eq_8_byte, simp)+
  show ?thesis unfolding base64_ascii_to_bin_def Let_def e
    by (simp add: in_range_8) (auto simp: word_le_nat_alt)
qed

definition b64_ord :: "nat \<Rightarrow> nat" where
  "b64_ord i = (if i < 26 then i + 65 else if i < 52 then i + 71 else if i < 62 then i - 4
     else if i = 62 then 43 else 47)"

definition b64_val :: "nat \<Rightarrow> nat" where
  "b64_val n = (if 65 \<le> n \<and> n \<le> 90 then n - 65 else if 97 \<le> n \<and> n \<le> 122 then n - 71
     else if 48 \<le> n \<and> n \<le> 57 then n + 4 else if n = 43 then 62 else if n = 47 then 63
     else if n = 61 then 0 else 255)"

lemma b64_val_ord: "i < 64 \<Longrightarrow> b64_val (b64_ord i) = i"
  by (auto simp: b64_ord_def b64_val_def)

lemma b64_ord_neq_pad: "b64_ord i \<noteq> 61"
  by (auto simp: b64_ord_def)

lemma b64_ord_val: "b64_val n \<noteq> 255 \<Longrightarrow> n \<noteq> 61 \<Longrightarrow> b64_val n < 64 \<and> b64_ord (b64_val n) = n"
proof -
  assume "b64_val n \<noteq> 255" "n \<noteq> 61"
  then consider "65 \<le> n" "n \<le> 90" | "97 \<le> n" "n \<le> 122" | "48 \<le> n" "n \<le> 57" | "n = 43" | "n = 47"
    by (auto simp: b64_val_def split: if_splits)
  then show ?thesis by cases (simp_all add: b64_ord_def b64_val_def, arith+)
qed

lemma length_alphabet: "length b64_alphabet = 64"
  by (simp add: b64_alphabet_def)

lemma unat_conv_bin2ascii: "unat (conv_bin2ascii a) = b64_ord (unat a mod 64)"
proof -
  have u: "unat (a AND 0x3f) = unat a mod 64"
    by (simp add: unat_and_mask [of _ 6] mask_eq_exp_minus_1)
  have "unat a mod 64 < 64" by simp
  then show ?thesis
    unfolding conv_bin2ascii_if Let_def b64_ord_def u word_less_nat_alt word_unat_eq_iff
    using unat_add_lem [of "a AND 0x3f" 65]
    by (simp add: u unat_word_ariths unat_sub_if_size word_size)
qed

lemma alphabet_check:
  "list_all (\<lambda>i. conv_bin2ascii (word_of_nat i) = b64_alphabet ! i) [0..<64]"
  unfolding conv_bin2ascii_if by code_simp

lemma unat_alphabet: "i < 64 \<Longrightarrow> unat (b64_alphabet ! i) = b64_ord i"
  using alphabet_check unat_conv_bin2ascii [of "word_of_nat i"]
  by (simp add: list_all_iff unat_byte_of_nat)

lemma unat_ascii_to_bin: "unat (base64_ascii_to_bin a) = b64_val (unat a)"
  using unat_byte_less [of a]
  by (auto simp: ascii_to_bin_if b64_val_def word_le_nat_alt unat_word_ariths word_unat_eq_iff
      unat_sub_if_size word_size)

lemma conv_bin2ascii_alphabet: "conv_bin2ascii a = b64_alphabet ! (unat a mod 64)"
  by (simp add: word_unat_eq_iff unat_conv_bin2ascii unat_alphabet)

lemma ascii_to_bin_alphabet: "i < 64 \<Longrightarrow> base64_ascii_to_bin (b64_alphabet ! i) = word_of_nat i"
  by (simp add: word_unat_eq_iff unat_ascii_to_bin unat_alphabet b64_val_ord unat_byte_of_nat)

lemma alphabet_not_pad: "i < 64 \<Longrightarrow> b64_alphabet ! i \<noteq> 61"
  using b64_ord_neq_pad [of i] by (auto simp: word_unat_eq_iff unat_alphabet)

lemma ascii_to_bin_cases:
  obtains (pad) "c = 61" "base64_ascii_to_bin c = 0"
    | (char) i where "i < 64" "c = b64_alphabet ! i" "base64_ascii_to_bin c = word_of_nat i" "c \<noteq> 61"
    | (bad) "c \<noteq> 61" "c \<notin> set b64_alphabet" "base64_ascii_to_bin c = 255"
proof -
  consider "c = 61" | "c \<noteq> 61" "b64_val (unat c) = 255" | "c \<noteq> 61" "b64_val (unat c) \<noteq> 255" by blast
  then show thesis
  proof cases
    case 1 with pad show thesis by (simp add: ascii_to_bin_if)
  next
    case 2
    have "b64_val (unat x) \<noteq> 255" if "x \<in> set b64_alphabet" for x
      using that by (auto simp: in_set_conv_nth length_alphabet unat_alphabet b64_val_ord)
    with 2 bad show thesis by (auto simp: word_unat_eq_iff unat_ascii_to_bin)
  next
    case 3
    then have "unat c \<noteq> 61" by (auto simp: word_unat_eq_iff)
    with 3 b64_ord_val [of "unat c"] have v: "b64_val (unat c) < 64" "b64_ord (b64_val (unat c)) = unat c"
      by auto
    then have "c = b64_alphabet ! b64_val (unat c)" by (simp add: word_unat_eq_iff unat_alphabet)
    moreover from this v have "base64_ascii_to_bin c = word_of_nat (b64_val (unat c))"
      using ascii_to_bin_alphabet [of "b64_val (unat c)"] by simp
    ultimately show thesis using char 3 v(1) by blast
  qed
qed


subsection \<open>The encoder\<close>

text \<open>RFC 4648 on natural numbers: each group of three bytes is four digits of base 64.\<close>

fun b64_encode :: "byte list \<Rightarrow> byte list" where
  "b64_encode [] = []"
| "b64_encode [a] = [b64_alphabet ! (unat a div 4), b64_alphabet ! (unat a mod 4 * 16), 61, 61]"
| "b64_encode [a, b] =
     [b64_alphabet ! (unat a div 4), b64_alphabet ! (unat a mod 4 * 16 + unat b div 16),
      b64_alphabet ! (unat b mod 16 * 4), 61]"
| "b64_encode (a # b # c # r) =
     [b64_alphabet ! (unat a div 4), b64_alphabet ! (unat a mod 4 * 16 + unat b div 16),
      b64_alphabet ! (unat b mod 16 * 4 + unat c div 64), b64_alphabet ! (unat c mod 64)] @ b64_encode r"

lemma length_b64_encode: "length (b64_encode xs) = (length xs + 2) div 3 * 4"
proof (induction xs rule: b64_encode.induct)
  case (4 a b c r)
  have "(5 + length r) div 3 = Suc ((2 + length r) div 3)" by presburger
  with 4 show ?case by simp
qed auto

lemma group_word:
  "unat (push_bit 16 (ucast (a :: byte) :: u32) OR push_bit 8 (ucast (b :: byte)) OR ucast (c :: byte)) =
     unat a * 65536 + unat b * 256 + unat c"
proof -
  have "be_word (0 :: u32) [a, b, c] = push_bit 16 (ucast a) OR push_bit 8 (ucast b) OR ucast c"
    by (simp add: push_bit_or or.assoc)
  then show ?thesis using unat_be_word [of "[a, b, c]", where 'a = 32] by (simp add: be_nat_Cons)
qed

lemma base64_digit:
  fixes v q d r k :: nat
  assumes "v = (q * 64 + d) * k + r" "d < 64" "r < k"
  shows "v div k mod 64 = d"
proof -
  have "v div k = q * 64 + d" using assms by simp
  then show ?thesis using assms(2) by simp
qed

lemma group_digits_parts:
  fixes a1 a0 b1 b0 c1 c0 :: nat
  assumes "a1 < 64" "a0 < 4" "b1 < 16" "b0 < 16" "c1 < 4" "c0 < 64"
  defines "v \<equiv> (4 * a1 + a0) * 65536 + (16 * b1 + b0) * 256 + (64 * c1 + c0)"
  shows "v div 262144 mod 64 = a1" "v div 4096 mod 64 = a0 * 16 + b1"
    "v div 64 mod 64 = b0 * 4 + c1" "v mod 64 = c0"
proof -
  show "v div 262144 mod 64 = a1"
    by (rule base64_digit [where q = 0 and r = "a0 * 65536 + (16 * b1 + b0) * 256 + (64 * c1 + c0)"])
      (use assms in simp_all)
  show "v div 4096 mod 64 = a0 * 16 + b1"
    by (rule base64_digit [where q = a1 and r = "b0 * 256 + (64 * c1 + c0)"]) (use assms in simp_all)
  show "v div 64 mod 64 = b0 * 4 + c1"
    by (rule base64_digit [where q = "(4 * a1 + a0) * 16 + b1" and r = c0]) (use assms in simp_all)
  have "v = c0 + ((4 * a1 + a0) * 1024 + (16 * b1 + b0) * 4 + c1) * 64" by (simp add: v_def)
  then show "v mod 64 = c0" using assms(6) by (simp only: mod_mult_self1 mod_less)
qed

lemma group_digits:
  fixes a b c :: nat
  assumes "a < 256" "b < 256" "c < 256"
  shows "(a * 65536 + b * 256 + c) div 262144 mod 64 = a div 4"
    "(a * 65536 + b * 256 + c) div 4096 mod 64 = a mod 4 * 16 + b div 16"
    "(a * 65536 + b * 256 + c) div 64 mod 64 = b mod 16 * 4 + c div 64"
    "(a * 65536 + b * 256 + c) mod 64 = c mod 64"
  using group_digits_parts [of "a div 4" "a mod 4" "b div 16" "b mod 16" "c div 64" "c mod 64"] assms
  by simp_all

text \<open>A 6-bit digit of the group, as \<open>conv_bin2ascii\<close> reads it from a shifted word.\<close>

lemma conv_digit:
  "conv_bin2ascii (ucast (drop_bit n (l :: u32))) = b64_alphabet ! (unat l div 2 ^ n mod 64)"
  by (simp add: conv_bin2ascii_alphabet unat_ucast_mod unat_drop_bit mod_mod_cancel)

lemma conv_digit_0: "conv_bin2ascii (ucast (l :: u32)) = b64_alphabet ! (unat l mod 64)"
  using conv_digit [of 0 l] by simp

lemma encode_group:
  fixes a b c :: byte
  defines "l \<equiv> push_bit 16 (ucast a :: u32) OR push_bit 8 (ucast b) OR ucast c"
  shows "conv_bin2ascii (ucast (drop_bit 18 l)) = b64_alphabet ! (unat a div 4)"
    "conv_bin2ascii (ucast (drop_bit 12 l)) = b64_alphabet ! (unat a mod 4 * 16 + unat b div 16)"
    "conv_bin2ascii (ucast (drop_bit 6 l)) = b64_alphabet ! (unat b mod 16 * 4 + unat c div 64)"
    "conv_bin2ascii (ucast l) = b64_alphabet ! (unat c mod 64)"
proof -
  have l: "unat l = unat a * 65536 + unat b * 256 + unat c"
    unfolding l_def by (rule group_word)
  note d = group_digits [OF unat_byte_less [of a] unat_byte_less [of b] unat_byte_less [of c]]
  have p: "(2::nat) ^ 18 = 262144" "(2::nat) ^ 12 = 4096" "(2::nat) ^ 6 = 64" by simp_all
  show "conv_bin2ascii (ucast (drop_bit 18 l)) = b64_alphabet ! (unat a div 4)"
    "conv_bin2ascii (ucast (drop_bit 12 l)) = b64_alphabet ! (unat a mod 4 * 16 + unat b div 16)"
    "conv_bin2ascii (ucast (drop_bit 6 l)) = b64_alphabet ! (unat b mod 16 * 4 + unat c div 64)"
    by (simp_all only: conv_digit l p d)
  show "conv_bin2ascii (ucast l) = b64_alphabet ! (unat c mod 64)"
    by (simp only: conv_digit_0 l d)
qed

lemma encode_group1: "encode_block_loop dst off ret [a] = (write_at dst (off + ret) (b64_encode [a]), ret + 4)"
  using encode_group(1,2) [of a 0 0] by simp

lemma encode_group2: "encode_block_loop dst off ret [a, b] = (write_at dst (off + ret) (b64_encode [a, b]), ret + 4)"
  using encode_group(1,2,3) [of a b 0] by simp

lemma encode_block_loop_spec:
  "off + ret \<le> length dst \<Longrightarrow> encode_block_loop dst off ret src =
     (write_at dst (off + ret) (b64_encode src), ret + length (b64_encode src))"
proof (induction src arbitrary: dst ret rule: b64_encode.induct)
  case (4 a b c r)
  define q where "q = [b64_alphabet ! (unat a div 4), b64_alphabet ! (unat a mod 4 * 16 + unat b div 16),
      b64_alphabet ! (unat b mod 16 * 4 + unat c div 64), b64_alphabet ! (unat c mod 64)]"
  then have q: "length q = 4" by simp
  have "off + (ret + 4) \<le> length (write_at dst (off + ret) q)"
    using length_write_at_ge [OF 4(2), of q] q by simp
  from 4(1) [OF this] have "encode_block_loop (write_at dst (off + ret) q) off (ret + 4) r =
     (write_at dst (off + ret) (q @ b64_encode r), ret + 4 + length (b64_encode r))"
    using write_at_extend [OF 4(2), of q "b64_encode r"] q by (simp add: add.assoc)
  then show ?case
    by (simp only: encode_block_loop.simps b64_encode.simps encode_group Let_def flip: q_def) (simp add: q)
next
  case (2 a)
  show ?case using encode_group1 [of dst off ret a] by simp
next
  case (3 a b)
  show ?case using encode_group2 [of dst off ret a b] by simp
qed simp

lemma EncodeBlock_spec:
  "off \<le> length dst \<Longrightarrow> EVP_EncodeBlock dst off src =
     (write_at dst off (b64_encode src @ [0]), length (b64_encode src))"
  using write_at_extend [of off dst "b64_encode src" "[0]"]
  by (simp add: EVP_EncodeBlock_def encode_block_loop_spec)


lemma EncodedLength_iff:
  "n < size_mod \<Longrightarrow> EVP_EncodedLength n =
     (if (n + 2) div 3 * 4 + 1 < size_mod then Some ((n + 2) div 3 * 4 + 1) else None)"
proof -
  assume n: "n < size_mod"
  show ?thesis
  proof (cases "n + 2 < size_mod")
    case False
    with n have "(n + 2) mod size_mod < n" by (simp add: le_mod_geq)
    moreover from False have "\<not> (n + 2) div 3 * 4 + 1 < size_mod" by linarith
    ultimately show ?thesis by (simp add: EVP_EncodedLength_def)
  next
    case True
    define l where "l = (n + 2) div 3"
    have l: "l * 4 mod size_mod div 4 = l \<longleftrightarrow> l * 4 < size_mod"
    proof
      assume "l * 4 mod size_mod div 4 = l"
      moreover have "l * 4 mod size_mod < size_mod" by simp
      ultimately show "l * 4 < size_mod" by linarith
    qed simp
    have s: "l * 4 < size_mod \<longleftrightarrow> l * 4 + 1 < size_mod" by presburger
    have m: "(n + 2) mod size_mod = n + 2" "\<not> n + 2 < n" using True by simp_all
    have "EVP_EncodedLength n = (if l * 4 mod size_mod div 4 \<noteq> l then None
       else if (l * 4 mod size_mod + 1) mod size_mod < l * 4 mod size_mod then None
       else Some ((l * 4 mod size_mod + 1) mod size_mod))"
      unfolding EVP_EncodedLength_def m l_def Let_def by (simp only: m if_False)
    then show ?thesis unfolding l s l_def [symmetric]
      by (cases "l * 4 + 1 < size_mod") simp_all
  qed
qed


subsection \<open>The streaming encoder\<close>

text \<open>Whole lines of 48 bytes, each 64 characters and a newline, and the bytes left over.\<close>

function full_lines :: "byte list \<Rightarrow> byte list" where
  "full_lines xs = (if 48 \<le> length xs then b64_encode (take 48 xs) @ [10] @ full_lines (drop 48 xs) else [])"
  by pat_completeness auto
termination by (relation "measure length") auto

declare full_lines.simps [simp del]

definition left_over :: "byte list \<Rightarrow> byte list" where
  "left_over xs = drop (length xs div 48 * 48) xs"

definition b64_stream :: "byte list \<Rightarrow> byte list" where
  "b64_stream xs = full_lines xs @ (if left_over xs = [] then [] else b64_encode (left_over xs) @ [10])"

lemma full_lines_short: "length xs < 48 \<Longrightarrow> full_lines xs = []"
  by (simp add: full_lines.simps)

lemma div48_step: "48 \<le> n \<Longrightarrow> n div 48 = Suc ((n - 48) div (48::nat))"
  by (simp add: le_div_geq)

lemma length_full_lines: "length (full_lines xs) = 65 * (length xs div 48)"
proof (induction xs rule: full_lines.induct)
  case (1 xs)
  then show ?case
    by (cases "48 \<le> length xs") (simp_all add: full_lines.simps [of xs] length_b64_encode div48_step)
qed

lemma left_over_step: "48 \<le> length xs \<Longrightarrow> left_over xs = left_over (drop 48 xs)"
  by (simp add: left_over_def div48_step add.commute)

lemma left_over_short: "length xs < 48 \<Longrightarrow> left_over xs = xs"
  by (simp add: left_over_def)

lemma length_left_over: "length (left_over xs) = length xs mod 48"
  by (simp add: left_over_def minus_div_mult_eq_mod)

lemma full_lines_append:
  "full_lines (xs @ ys) = full_lines xs @ full_lines (left_over xs @ ys) \<and>
   left_over (xs @ ys) = left_over (left_over xs @ ys)"
proof (induction xs rule: full_lines.induct)
  case (1 xs)
  show ?case
  proof (cases "48 \<le> length xs")
    case True
    then show ?thesis using 1 [OF True] left_over_step [of "xs @ ys"]
      by (simp add: full_lines.simps [of xs] full_lines.simps [of "xs @ ys"] left_over_step)
  next
    case False
    then show ?thesis by (simp add: full_lines_short left_over_short)
  qed
qed

lemma encode_line_spec:
  assumes "off \<le> length out" "length xs = 48"
  shows "encode_line out off xs = (write_at out off (b64_encode xs @ [10, 0]), 64)"
proof -
  have l: "length (b64_encode xs) = 64" using assms by (simp add: length_b64_encode)
  show ?thesis
    using write_at_over [OF assms(1), of "[0]" "[10]" "b64_encode xs"]
      write_at_extend [OF assms(1), of "b64_encode xs @ [10]" "[0]"]
    unfolding encode_line_def EncodeBlock_spec [OF assms(1)] by (simp add: l add.commute)
qed

lemma encode_lines_spec:
  "off \<le> length out \<Longrightarrow> tot + 65 * (length inp div 48) < size_mod \<Longrightarrow>
   encode_lines out off inp tot =
     (if 48 \<le> length inp then write_at out off (full_lines inp @ [0]) else out,
      left_over inp, tot + 65 * (length inp div 48), False)"
proof (induction out off inp tot rule: encode_lines.induct)
  case (1 out off inp tot)
  show ?case
  proof (cases "48 \<le> length inp")
    case False
    then show ?thesis by (simp add: encode_lines.simps [of _ _ inp] left_over_short)
  next
    case True
    define e where "e = b64_encode (take 48 inp)"
    have e: "length e = 64" using True by (simp add: e_def length_b64_encode)
    have n: "length inp div 48 = Suc (length (drop 48 inp) div 48)" using True by (simp add: div48_step)
    have line: "encode_line out off (take 48 inp) = (write_at out off (e @ [10, 0]), 64)"
      using encode_line_spec [of off out "take 48 inp"] 1(2) True by (simp add: e_def)
    have "(tot + 64 + 1) mod size_mod = tot + 65" using 1(3) by (simp add: n)
    moreover have "off + 64 + 1 \<le> length (write_at out off (e @ [10, 0]))"
      using length_write_at_ge [OF 1(2), of "e @ [10, 0]"] e by simp
    ultimately have "encode_lines (write_at out off (e @ [10, 0])) (65 + off) (drop 48 inp) (65 + tot) =
      (if 48 \<le> length (drop 48 inp)
       then write_at (write_at out off (e @ [10, 0])) (65 + off) (full_lines (drop 48 inp) @ [0])
       else write_at out off (e @ [10, 0]), left_over (drop 48 inp), 65 + tot + 65 * (length (drop 48 inp) div 48), False)"
      using 1(1) [OF True line [symmetric]] 1(3) by (simp add: n add.commute)
    moreover have "write_at (write_at out off (e @ [10, 0])) (65 + off) (full_lines (drop 48 inp) @ [0]) =
      write_at out off (e @ [10] @ full_lines (drop 48 inp) @ [0])"
      using write_at_over [OF 1(2), of "[0]" "full_lines (drop 48 inp) @ [0]" "e @ [10]"] e by (simp add: add.commute)
    ultimately show ?thesis
      using True 1(3) unfolding encode_lines.simps [of out off inp] line
      by (simp add: n full_lines.simps [of inp] full_lines_short left_over_step flip: e_def)
  qed
qed

definition enc_inv :: "EVP_ENCODE_CTX \<Rightarrow> bool" where
  "enc_inv ctx \<longleftrightarrow> data_used ctx < 48 \<and> length (ctx_data ctx) = 48"

definition pending :: "EVP_ENCODE_CTX \<Rightarrow> byte list" where
  "pending ctx = take (data_used ctx) (ctx_data ctx)"

lemma EncodeInit_inv: "enc_inv EVP_EncodeInit" "pending EVP_EncodeInit = []"
  by (simp_all add: enc_inv_def pending_def EVP_EncodeInit_def)

lemma take_write_at_pending:
  "n + length bs \<le> length m \<Longrightarrow> take (n + length bs) (write_at m n bs) = take n m @ bs"
  by (simp add: write_at_def)

lemma length_pending: "enc_inv ctx \<Longrightarrow> length (pending ctx) = data_used ctx"
  by (simp add: enc_inv_def pending_def)

text \<open>
  One update: the pending bytes and the input together are cut into whole lines, which are
  written with a terminating zero; the remainder is pending.
\<close>

lemma EncodeUpdate_spec:
  assumes inv: "enc_inv ctx" and max: "65 * (length (pending ctx @ inp) div 48) \<le> INT_MAX"
  shows "\<exists>ctx'. EVP_EncodeUpdate ctx out inp =
      Ret (ctx', if 48 \<le> length (pending ctx @ inp) then write_at out 0 (full_lines (pending ctx @ inp) @ [0]) else out,
           65 * (length (pending ctx @ inp) div 48)) \<and>
     enc_inv ctx' \<and> pending ctx' = left_over (pending ctx @ inp)"
proof -
  let ?p = "pending ctx"
  have p: "length ?p = data_used ctx" "data_used ctx < 48" "length (ctx_data ctx) = 48"
    "take (data_used ctx) (ctx_data ctx) = ?p"
    using inv by (simp_all add: length_pending enc_inv_def pending_def)
  have store: "enc_inv (c\<lparr>ctx_data := write_at d 0 r, data_used := length r\<rparr>) \<and>
      pending (c\<lparr>ctx_data := write_at d 0 r, data_used := length r\<rparr>) = r"
    if "length d = 48" "length r < 48" for c :: EVP_ENCODE_CTX and d r
    using that take_write_at_pending [of 0 r d] by (simp add: enc_inv_def pending_def)
  consider (empty) "inp = []" | (short) "inp \<noteq> []" "length ?p + length inp < 48"
    | (first) "48 \<le> length ?p + length inp" "?p = []" "inp \<noteq> []"
    | (fill) "48 \<le> length ?p + length inp" "?p \<noteq> []" "inp \<noteq> []" by linarith
  then show ?thesis proof cases
    case empty
    then show ?thesis using inv p by (simp add: EVP_EncodeUpdate_def left_over_short)
  next
    case short
    define ctx' where "ctx' = ctx\<lparr>ctx_data := write_at (ctx_data ctx) (data_used ctx) inp,
      data_used := data_used ctx + length inp\<rparr>"
    have "pending ctx' = ?p @ inp"
      using take_write_at_pending [of "data_used ctx" inp "ctx_data ctx"] p short
      unfolding pending_def [of ctx'] by (simp add: ctx'_def)
    moreover have "enc_inv ctx'" using short p by (simp add: ctx'_def enc_inv_def)
    moreover have "48 - data_used ctx > length inp" using short p by linarith
    then have "EVP_EncodeUpdate ctx out inp = Ret (ctx', out, 0)"
      using short p by (simp add: EVP_EncodeUpdate_def ctx'_def)
    ultimately show ?thesis using short by (simp add: left_over_short)
  next
    case first
    define ctx' where "ctx' = ctx\<lparr>ctx_data := write_at (ctx_data ctx) 0 (left_over inp),
      data_used := length (left_over inp)\<rparr>"
    have "encode_lines out 0 inp 0 =
        (write_at out 0 (full_lines inp @ [0]), left_over inp, 65 * (length inp div 48), False)"
      using first encode_lines_spec [of 0 out 0 inp] max by simp
    then have "EVP_EncodeUpdate ctx out inp =
        Ret (ctx', write_at out 0 (full_lines inp @ [0]), 65 * (length inp div 48))"
      using first p max by (simp add: EVP_EncodeUpdate_def ctx'_def)
    moreover have "enc_inv ctx' \<and> pending ctx' = left_over inp"
      using store [of "ctx_data ctx" "left_over inp" ctx] p by (simp add: ctx'_def length_left_over)
    ultimately show ?thesis using first by simp
  next
    case fill
    define todo where "todo = 48 - data_used ctx"
    define d where "d = write_at (ctx_data ctx) (data_used ctx) (take todo inp)"
    have "data_used ctx \<noteq> 0" using fill(2) p(1) by (metis length_0_conv)
    then have t: "todo \<le> length inp" "data_used ctx + todo = 48" "data_used ctx \<noteq> 0"
      using fill p by (auto simp: todo_def)
    have d: "d = ?p @ take todo inp"
      using take_write_at_pending [of "data_used ctx" "take todo inp" "ctx_data ctx"] p t
      by (simp add: d_def write_at_def)
    have all: "take 48 (?p @ inp) = d" "drop 48 (?p @ inp) = drop todo inp" "length d = 48"
      using d p t by (simp_all add: todo_def)
    have n: "length (?p @ inp) div 48 = Suc (length (drop todo inp) div 48)"
      using div48_step [of "length (?p @ inp)"] fill p t by (simp add: todo_def)
    have e: "length (b64_encode d) = 64" using all by (simp add: length_b64_encode)
    define o1 where "o1 = write_at out 0 (b64_encode d @ [10, 0])"
    define o2 where "o2 = (if 48 \<le> length (drop todo inp) then write_at o1 65 (full_lines (drop todo inp) @ [0]) else o1)"
    define r where "r = left_over (drop todo inp)"
    define ctx' where "ctx' = ctx\<lparr>ctx_data := write_at d 0 r, data_used := length r\<rparr>"
    have "65 \<le> length o1" using length_write_at_ge [of 0 out "b64_encode d @ [10, 0]"] e by (simp add: o1_def)
    then have "encode_lines o1 65 (drop todo inp) 65 = (o2, r, 65 * (length (?p @ inp) div 48), False)"
      using encode_lines_spec [of 65 o1 65 "drop todo inp"] max n by (simp add: o2_def r_def)
    moreover have "encode_line out 0 d = (o1, 64)" using encode_line_spec [of 0 out d] all by (simp add: o1_def)
    ultimately have "EVP_EncodeUpdate ctx out inp = Ret (ctx', o2, 65 * (length (?p @ inp) div 48))"
      using fill p t max by (simp add: EVP_EncodeUpdate_def Let_def flip: todo_def d_def) (simp add: ctx'_def)
    moreover have "o2 = write_at out 0 (full_lines (?p @ inp) @ [0])"
      using write_at_over [of 0 out "[0]" "full_lines (drop todo inp) @ [0]" "b64_encode d @ [10]"] e all fill
      by (simp add: o2_def o1_def full_lines.simps [of "?p @ inp"] full_lines_short)
    moreover have "enc_inv ctx' \<and> pending ctx' = r"
      unfolding ctx'_def by (rule store) (use all in \<open>simp_all add: r_def length_left_over\<close>)
    moreover have "r = left_over (?p @ inp)" using left_over_step [of "?p @ inp"] fill all by (simp add: r_def)
    ultimately show ?thesis using fill by auto
  qed
qed


lemma EncodeFinal_spec:
  assumes "enc_inv ctx"
  shows "\<exists>ctx'. EVP_EncodeFinal ctx out =
      (ctx', if pending ctx = [] then out else write_at out 0 (b64_encode (pending ctx) @ [10, 0]),
       if pending ctx = [] then 0 else length (b64_encode (pending ctx)) + 1) \<and>
     enc_inv ctx' \<and> pending ctx' = []"
proof (cases "data_used ctx = 0")
  case True
  then show ?thesis using assms by (simp add: EVP_EncodeFinal_def pending_def)
next
  case False
  then have "pending ctx \<noteq> []" using length_pending [OF assms] by auto
  moreover have "enc_inv (ctx\<lparr>data_used := 0\<rparr>) \<and> pending (ctx\<lparr>data_used := 0\<rparr>) = []"
    using assms by (simp add: enc_inv_def pending_def)
  ultimately show ?thesis using False
      write_at_over [of 0 out "[0]" "[10]" "b64_encode (pending ctx)"]
      write_at_extend [of 0 out "b64_encode (pending ctx) @ [10]" "[0]"]
    by (simp add: EVP_EncodeFinal_def EncodeBlock_spec flip: pending_def)
qed

text \<open>
  A client that encodes a stream: an update per chunk, each into the block \<open>out\<close>, then the final
  call; it collects the \<open>*out_len\<close> bytes each call announces.
\<close>

fun encode_chunks :: "EVP_ENCODE_CTX \<Rightarrow> byte list \<Rightarrow> byte list list \<Rightarrow> byte list c_result" where
  "encode_chunks ctx out [] = (case EVP_EncodeFinal ctx out of (ctx', out', n) \<Rightarrow> Ret (take n out'))"
| "encode_chunks ctx out (inp # chunks) =
     (case EVP_EncodeUpdate ctx out inp of
        Ret (ctx', out', n) \<Rightarrow>
          (case encode_chunks ctx' out' chunks of Ret rest \<Rightarrow> Ret (take n out' @ rest) | r \<Rightarrow> r)
      | Fail \<Rightarrow> Fail | Undef \<Rightarrow> Undef)"

lemma b64_stream_append: "b64_stream (xs @ ys) = full_lines xs @ b64_stream (left_over xs @ ys)"
  using full_lines_append [of xs ys] by (simp add: b64_stream_def)

lemma left_over_length: "length (left_over xs) \<le> length xs"
  by (simp add: left_over_def)

lemma encode_chunks_spec:
  "enc_inv ctx \<Longrightarrow> 65 * (length (pending ctx @ concat chunks) div 48) \<le> INT_MAX \<Longrightarrow>
     encode_chunks ctx out chunks = Ret (b64_stream (pending ctx @ concat chunks))"
proof (induction chunks arbitrary: ctx out)
  case Nil
  then have "length (pending ctx) < 48" by (simp add: length_pending enc_inv_def)
  moreover obtain ctx' where "EVP_EncodeFinal ctx out =
      (ctx', if pending ctx = [] then out else write_at out 0 (b64_encode (pending ctx) @ [10, 0]),
       if pending ctx = [] then 0 else length (b64_encode (pending ctx)) + 1)"
    using EncodeFinal_spec [OF Nil(1), of out] by blast
  ultimately show ?case by (simp add: b64_stream_def full_lines_short left_over_short write_at_def)
next
  case (Cons inp chunks)
  let ?all = "pending ctx @ inp"
  have le: "65 * (length ?all div 48) \<le> INT_MAX"
    using Cons.prems(2) div_le_mono [of "length ?all" "length (?all @ concat chunks)" 48] by simp
  obtain ctx' where u: "EVP_EncodeUpdate ctx out inp =
      Ret (ctx', if 48 \<le> length ?all then write_at out 0 (full_lines ?all @ [0]) else out, 65 * (length ?all div 48))"
    and inv: "enc_inv ctx'" and pend: "pending ctx' = left_over ?all"
    using EncodeUpdate_spec [OF Cons.prems(1) le] by blast
  have "65 * (length (pending ctx' @ concat chunks) div 48) \<le> INT_MAX"
    using Cons.prems(2) left_over_length [of ?all]
      div_le_mono [of "length (pending ctx' @ concat chunks)" "length (?all @ concat chunks)" 48]
    by (simp add: pend)
  note ih = Cons.IH [OF inv this]
  have "take (65 * (length ?all div 48)) (if 48 \<le> length ?all then write_at out 0 (full_lines ?all @ [0]) else out) =
      full_lines ?all"
    using length_full_lines [of ?all] by (simp add: write_at_def full_lines_short)
  then show ?case using b64_stream_append [of ?all "concat chunks"] by (simp add: u ih pend)
qed

end
