(* ===== verification/Base64_Codec.thy ===== *)
theory Base64_Codec
  imports Base64
begin

text \<open>
  The base64 decoder: which strings \<open>EVP_DecodeBase64\<close> accepts and what it returns, that the
  streaming decoder computes the same function whatever the chunks and the white space, and that
  both invert the encoder.
\<close>

subsection \<open>Quads\<close>

lemma shift_or_word:
  assumes "i < 64" "j < 64" "k < 64" "l < 64"
  shows "push_bit 18 (ucast (word_of_nat i :: byte) :: u32) OR push_bit 12 (ucast (word_of_nat j :: byte)) OR
      push_bit 6 (ucast (word_of_nat k :: byte)) OR ucast (word_of_nat l :: byte) =
      word_of_nat (i * 262144 + j * 4096 + k * 64 + l)"
proof -
  have u: "(ucast (word_of_nat n :: byte) :: u32) = word_of_nat n" if "n < 64" for n
    using that by (simp add: word_unat_eq_iff unat_ucast_mod unat_of_nat)
  have "word_of_nat (k * 64) OR word_of_nat l = (word_of_nat (k * 64 + l) :: u32)"
    using word_or_arith [of l 6 k] assms by simp
  moreover have "word_of_nat (j * 4096) OR word_of_nat (k * 64 + l) = (word_of_nat (j * 4096 + (k * 64 + l)) :: u32)"
    using word_or_arith [of "k * 64 + l" 12 j] assms by simp
  moreover have "word_of_nat (i * 262144) OR word_of_nat (j * 4096 + (k * 64 + l)) =
      (word_of_nat (i * 262144 + (j * 4096 + (k * 64 + l))) :: u32)"
    using word_or_arith [of "j * 4096 + (k * 64 + l)" 18 i] assms by simp
  moreover have p: "push_bit n (word_of_nat m :: u32) = word_of_nat (m * 2 ^ n)" for n m
    by (simp add: push_bit_eq_mult)
  ultimately show ?thesis using assms by (simp add: u p or.assoc add.assoc del: of_nat_add of_nat_mult)
qed

lemma byte_of_shifted:
  "v < 4294967296 \<Longrightarrow> (ucast (drop_bit n (word_of_nat v :: u32)) :: byte) = word_of_nat (v div 2 ^ n)"
  by (simp add: word_unat_eq_iff unat_ucast_mod unat_drop_bit unat_of_nat)

lemma byte_of_low: "v < 4294967296 \<Longrightarrow> (ucast (word_of_nat v :: u32) :: byte) = word_of_nat v"
  using byte_of_shifted [of v 0] by simp

lemma be_bytes_3: "be_bytes 3 v = [word_of_nat (v div 65536), word_of_nat (v div 256), word_of_nat v]"
  by (simp add: numeral_3_eq_3 flip: div_mult2_eq)

text \<open>
  A quad of alphabet characters is the 24-bit number of its digits; up to two trailing pad
  characters cut bytes off its end, and everything else is refused.
\<close>

lemma quad_chars:
  assumes "i < 64" "j < 64" "k < 64" "l < 64"
  shows "base64_decode_quad (b64_alphabet ! i) (b64_alphabet ! j) (b64_alphabet ! k) (b64_alphabet ! l) =
      Some (be_bytes 3 (i * 262144 + j * 4096 + k * 64 + l))"
    "base64_decode_quad (b64_alphabet ! i) (b64_alphabet ! j) (b64_alphabet ! k) 61 =
      Some (take 2 (be_bytes 3 (i * 262144 + j * 4096 + k * 64)))"
    "base64_decode_quad (b64_alphabet ! i) (b64_alphabet ! j) 61 61 =
      Some (take 1 (be_bytes 3 (i * 262144 + j * 4096)))"
proof -
  have ne: "(word_of_nat n :: byte) \<noteq> 255" if "n < 64" for n
    using that by (auto simp: word_unat_eq_iff unat_of_nat)
  have lt: "i * 262144 + j * 4096 + k * 64 + l < 4294967296" using assms by simp
  have z: "base64_ascii_to_bin 61 = word_of_nat 0" by (simp add: ascii_to_bin_if)
  have zero: "(0 :: nat) < 64" by simp
  note chars = assms [THEN ascii_to_bin_alphabet] assms [THEN alphabet_not_pad] assms [THEN ne]
  show "base64_decode_quad (b64_alphabet ! i) (b64_alphabet ! j) (b64_alphabet ! k) (b64_alphabet ! l) =
      Some (be_bytes 3 (i * 262144 + j * 4096 + k * 64 + l))"
    unfolding base64_decode_quad_def Let_def chars(1-4) shift_or_word [OF assms]
    using chars(5-) lt by (simp add: byte_of_shifted byte_of_low be_bytes_3 del: of_nat_add of_nat_mult)
  show "base64_decode_quad (b64_alphabet ! i) (b64_alphabet ! j) (b64_alphabet ! k) 61 =
      Some (take 2 (be_bytes 3 (i * 262144 + j * 4096 + k * 64)))"
    unfolding base64_decode_quad_def Let_def chars(1-3) z shift_or_word [OF assms(1,2,3) zero]
    using chars(5-) lt by (simp add: byte_of_shifted byte_of_low be_bytes_3 del: of_nat_add of_nat_mult)
  show "base64_decode_quad (b64_alphabet ! i) (b64_alphabet ! j) 61 61 =
      Some (take 1 (be_bytes 3 (i * 262144 + j * 4096)))"
    unfolding base64_decode_quad_def Let_def chars(1-2) z shift_or_word [OF assms(1,2) zero zero]
    using chars(5-) lt by (simp add: byte_of_shifted byte_of_low be_bytes_3 del: of_nat_add of_nat_mult)
qed


lemma padding_pattern_bits:
  fixes p q r s :: bool
  defines "v \<equiv> (push_bit 3 (of_bool p) OR push_bit 2 (of_bool q) OR push_bit 1 (of_bool r) OR of_bool s :: u32)"
  shows "v = 0 \<or> v = 1 \<or> v = 3 \<Longrightarrow> \<not> p \<and> \<not> q \<and> (r \<longrightarrow> s)"
  unfolding v_def by (cases p; cases q; cases r; cases s) simp_all

lemma quad_Some:
  assumes "base64_decode_quad a b c d = Some bs"
  obtains (full) i j k l where "i < 64" "j < 64" "k < 64" "l < 64" "a = b64_alphabet ! i" "b = b64_alphabet ! j"
      "c = b64_alphabet ! k" "d = b64_alphabet ! l" "bs = be_bytes 3 (i * 262144 + j * 4096 + k * 64 + l)"
    | (pad1) i j k where "i < 64" "j < 64" "k < 64" "a = b64_alphabet ! i" "b = b64_alphabet ! j"
      "c = b64_alphabet ! k" "d = 61" "bs = take 2 (be_bytes 3 (i * 262144 + j * 4096 + k * 64))"
    | (pad2) i j where "i < 64" "j < 64" "a = b64_alphabet ! i" "b = b64_alphabet ! j"
      "c = 61" "d = 61" "bs = take 1 (be_bytes 3 (i * 262144 + j * 4096))"
proof -
  have ok: "base64_ascii_to_bin a \<noteq> 255" "base64_ascii_to_bin b \<noteq> 255"
    "base64_ascii_to_bin c \<noteq> 255" "base64_ascii_to_bin d \<noteq> 255"
    using assms by (auto simp: base64_decode_quad_def Let_def split: if_splits)
  have char: "\<exists>i<64. x = b64_alphabet ! i" if "base64_ascii_to_bin x \<noteq> 255" "x \<noteq> 61" for x
    using that by (cases x rule: ascii_to_bin_cases) auto
  have "a \<noteq> 61 \<and> b \<noteq> 61 \<and> (c = 61 \<longrightarrow> d = 61)"
    by (rule padding_pattern_bits, rule ccontr) (use assms in \<open>simp only: base64_decode_quad_def Let_def de_Morgan_disj if_False option.distinct split: if_splits\<close>)
  then consider "a \<noteq> 61" "b \<noteq> 61" "c \<noteq> 61" "d \<noteq> 61" | "a \<noteq> 61" "b \<noteq> 61" "c \<noteq> 61" "d = 61"
    | "a \<noteq> 61" "b \<noteq> 61" "c = 61" "d = 61" by blast
  then show thesis
  proof cases
    case 1
    with ok char obtain i j k l where "i < 64" "j < 64" "k < 64" "l < 64" "a = b64_alphabet ! i"
      "b = b64_alphabet ! j" "c = b64_alphabet ! k" "d = b64_alphabet ! l" by meson
    with full assms quad_chars(1) show thesis by simp
  next
    case 2
    with ok char obtain i j k where "i < 64" "j < 64" "k < 64" "a = b64_alphabet ! i"
      "b = b64_alphabet ! j" "c = b64_alphabet ! k" by meson
    with pad1 2 assms quad_chars(2) [of i j k 0] show thesis by simp
  next
    case 3
    with ok char obtain i j where "i < 64" "j < 64" "a = b64_alphabet ! i" "b = b64_alphabet ! j" by meson
    with pad2 3 assms quad_chars(3) [of i j 0 0] show thesis by simp
  qed
qed


subsection \<open>The number a string denotes\<close>

definition b64_digit :: "byte \<Rightarrow> nat" where
  "b64_digit c = length (takeWhile (\<lambda>x. x \<noteq> c) b64_alphabet)"

definition b64_value :: "byte list \<Rightarrow> nat" where
  "b64_value cs = foldl (\<lambda>v c. v * 64 + b64_digit c) 0 cs"

text \<open>
  The bytes of \<open>body\<close> followed by \<open>p\<close> pad characters: the big-endian bytes of the number with the
  pads read as zero digits, less one byte for each pad.
\<close>

definition b64_bytes :: "byte list \<Rightarrow> nat \<Rightarrow> byte list" where
  "b64_bytes body p =
     (let m = (length body + p) div 4 * 3 in take (m - p) (be_bytes m (b64_value body * 64 ^ p)))"

definition b64_text :: "byte list \<Rightarrow> nat \<Rightarrow> bool" where
  "b64_text body p \<longleftrightarrow> set body \<subseteq> set b64_alphabet \<and> p \<le> 2 \<and> 4 dvd (length body + p)"

lemma alphabet_inject: "i < 64 \<Longrightarrow> j < 64 \<Longrightarrow> b64_alphabet ! i = b64_alphabet ! j \<longleftrightarrow> i = j"
  by (metis b64_val_ord unat_alphabet)

lemma b64_digit_alphabet: "i < 64 \<Longrightarrow> b64_digit (b64_alphabet ! i) = i"
proof -
  assume i: "i < 64"
  have "takeWhile (\<lambda>x. x \<noteq> b64_alphabet ! i) b64_alphabet = take i b64_alphabet"
    by (rule takeWhile_eq_take_P_nth) (use i in \<open>auto simp: alphabet_inject length_alphabet\<close>)
  then show ?thesis using i by (simp add: b64_digit_def length_alphabet)
qed

lemma alphabet_index: "c \<in> set b64_alphabet \<longleftrightarrow> (\<exists>i<64. c = b64_alphabet ! i)"
  by (auto simp: in_set_conv_nth length_alphabet)

lemma b64_value_append: "b64_value (xs @ ys) = b64_value xs * 64 ^ length ys + b64_value ys"
proof (induction ys rule: rev_induct)
  case (snoc y ys)
  then show ?case by (simp add: b64_value_def algebra_simps)
qed (simp add: b64_value_def)

lemma b64_value_less: "set cs \<subseteq> set b64_alphabet \<Longrightarrow> b64_value cs < 64 ^ length cs"
proof (induction cs rule: rev_induct)
  case (snoc c cs)
  then have "b64_digit c < 64" by (auto simp: alphabet_index b64_digit_alphabet)
  moreover have "b64_value (cs @ [c]) = b64_value cs * 64 + b64_digit c" by (simp add: b64_value_def)
  ultimately show ?case using snoc by (auto simp: less_eq_Suc_le)
qed (simp add: b64_value_def)

lemma be_bytes_append:
  "y < 256 ^ m \<Longrightarrow> be_bytes (n + m) (x * 256 ^ m + y) = be_bytes n x @ be_bytes m y"
proof (induction m arbitrary: y)
  case (Suc m)
  have d: "(x * 256 ^ Suc m + y) div 256 = x * 256 ^ m + y div 256"
    by (simp add: div_add1_eq mult.assoc)
  have "x * 256 ^ Suc m + y = (x * 256 ^ m) * 256 + y" by simp
  then have "(x * 256 ^ Suc m + y) mod 256 = y mod 256" by (simp only: mod_mult_self3)
  then have w: "(word_of_nat (x * 256 ^ Suc m + y) :: byte) = word_of_nat y"
    by (simp only: word_unat_eq_iff unat_byte_of_nat)
  have "y div 256 < 256 ^ m" using Suc.prems by (simp add: less_mult_imp_div_less mult.commute)
  then show ?case using Suc.IH [of "y div 256"] unfolding add_Suc_right be_bytes.simps d w by simp
qed simp

lemma b64_bytes_quad:
  assumes "i < 64" "j < 64" "k < 64" "l < 64" "b64_text body p"
  shows "b64_bytes (b64_alphabet ! i # b64_alphabet ! j # b64_alphabet ! k # b64_alphabet ! l # body) p =
     be_bytes 3 (i * 262144 + j * 4096 + k * 64 + l) @ b64_bytes body p"
proof -
  obtain m where m: "length body + p = 4 * m" using assms(5) by (auto simp: b64_text_def)
  let ?q = "[b64_alphabet ! i, b64_alphabet ! j, b64_alphabet ! k, b64_alphabet ! l]"
  have q: "b64_value ?q = i * 262144 + j * 4096 + k * 64 + l"
    using assms by (simp add: b64_value_def b64_digit_alphabet)
  have pw: "(64 :: nat) ^ length body * 64 ^ p = 256 ^ (m * 3)"
  proof -
    have "(64 :: nat) ^ length body * 64 ^ p = (64 ^ 4) ^ m" by (simp only: power_add [symmetric] m power_mult)
    also have "\<dots> = (256 ^ 3) ^ m" by simp
    finally show ?thesis by (simp only: power_mult [symmetric] mult.commute)
  qed
  have "b64_value body * 64 ^ p < 256 ^ (m * 3)"
    using b64_value_less [of body] assms(5) by (simp add: b64_text_def flip: pw)
  then have "be_bytes (3 + m * 3) (b64_value ?q * 256 ^ (m * 3) + b64_value body * 64 ^ p) =
      be_bytes 3 (b64_value ?q) @ be_bytes (m * 3) (b64_value body * 64 ^ p)"
    by (rule be_bytes_append)
  moreover have "b64_value (?q @ body) * 64 ^ p = b64_value ?q * 256 ^ (m * 3) + b64_value body * 64 ^ p"
    unfolding b64_value_append pw [symmetric] by (simp add: algebra_simps)
  moreover have "p \<le> m * 3" using m assms(5) by (auto simp: b64_text_def)
  ultimately show ?thesis using m by (simp add: b64_bytes_def Let_def q)
qed


subsection \<open>The one-shot decoder\<close>

lemma b64_text_Nil: "b64_text [] p \<longleftrightarrow> p = 0"
  by (auto simp: b64_text_def dvd_def)

lemma b64_bytes_Nil [simp]: "b64_bytes [] 0 = []"
  by (simp add: b64_bytes_def)

lemma b64_bytes_pad:
  assumes "i < 64" "j < 64" "k < 64"
  shows "b64_bytes [b64_alphabet ! i, b64_alphabet ! j, b64_alphabet ! k] 1 =
      take 2 (be_bytes 3 (i * 262144 + j * 4096 + k * 64))"
    "b64_bytes [b64_alphabet ! i, b64_alphabet ! j] 2 = take 1 (be_bytes 3 (i * 262144 + j * 4096))"
  using assms by (simp_all add: b64_bytes_def b64_value_def b64_digit_alphabet Let_def algebra_simps)

lemma dvd4_Suc [simp]: "4 dvd Suc (Suc (Suc (Suc n))) \<longleftrightarrow> 4 dvd n"
  by presburger

lemma b64_text_quad:
  "i < 64 \<Longrightarrow> j < 64 \<Longrightarrow> k < 64 \<Longrightarrow> l < 64 \<Longrightarrow>
   b64_text (b64_alphabet ! i # b64_alphabet ! j # b64_alphabet ! k # b64_alphabet ! l # body) p \<longleftrightarrow> b64_text body p"
  by (auto simp: b64_text_def alphabet_index)

text \<open>Every text is a list of full quads, and at most one padded quad at its end.\<close>

lemma b64_text_cases:
  assumes "b64_text body p"
  obtains (Nil) "body = []" "p = 0"
    | (pad1) i j k where "i < 64" "j < 64" "k < 64" "p = 1"
        "body = [b64_alphabet ! i, b64_alphabet ! j, b64_alphabet ! k]"
    | (pad2) i j where "i < 64" "j < 64" "p = 2" "body = [b64_alphabet ! i, b64_alphabet ! j]"
    | (quad) i j k l body' where "i < 64" "j < 64" "k < 64" "l < 64" "b64_text body' p"
        "body = b64_alphabet ! i # b64_alphabet ! j # b64_alphabet ! k # b64_alphabet ! l # body'"
proof (cases "4 \<le> length body")
  case True
  then obtain a b c d body' where b: "body = a # b # c # d # body'"
    by (cases body rule: b64_encode.cases) (auto simp: neq_Nil_conv numeral_eq_Suc Suc_le_length_iff)
  with assms obtain i j k l where "i < 64" "j < 64" "k < 64" "l < 64" "a = b64_alphabet ! i"
    "b = b64_alphabet ! j" "c = b64_alphabet ! k" "d = b64_alphabet ! l"
    by (auto simp: b64_text_def alphabet_index)
  with assms b quad show thesis by (simp add: b64_text_quad)
next
  case False
  have "length body + p < 8" "4 dvd length body + p" "p \<le> 2" using False assms by (auto simp: b64_text_def)
  then have "length body = 0 \<and> p = 0 \<or> length body = 3 \<and> p = 1 \<or> length body = 2 \<and> p = 2"
    using False by presburger
  moreover have "length body = 3 \<Longrightarrow> \<exists>a b c. body = [a, b, c]" "length body = 2 \<Longrightarrow> \<exists>a b. body = [a, b]"
    by (auto simp: length_Suc_conv numeral_eq_Suc)
  ultimately show thesis using assms Nil pad1 pad2
    by (elim disjE conjE) (auto simp: b64_text_def alphabet_index)
qed


lemma decode_loop_complete:
  "b64_text body p \<Longrightarrow> n \<le> length out \<Longrightarrow> decode_base64_loop out n (body @ replicate p 61) =
     (True, write_at out n (b64_bytes body p), n + length (b64_bytes body p))"
proof (induction body arbitrary: out n rule: length_induct)
  case (1 body)
  from 1(2) show ?case
  proof (cases rule: b64_text_cases)
    case Nil
    then show ?thesis by simp
  next
    case (pad1 i j k)
    then show ?thesis using b64_bytes_pad(1) [of i j k] quad_chars(2) [of i j k 0] by simp
  next
    case (pad2 i j)
    then show ?thesis using b64_bytes_pad(2) [of i j 0] quad_chars(3) [of i j 0 0]
      by (simp add: numeral_2_eq_2)
  next
    case (quad i j k l body')
    let ?q = "be_bytes 3 (i * 262144 + j * 4096 + k * 64 + l)"
    have "n + 3 \<le> length (write_at out n ?q)" using length_write_at_ge [OF 1(3), of ?q] by simp
    then have "decode_base64_loop (write_at out n ?q) (n + 3) (body' @ replicate p 61) =
        (True, write_at (write_at out n ?q) (n + 3) (b64_bytes body' p), n + 3 + length (b64_bytes body' p))"
      using 1(1) quad by simp
    then show ?thesis
      using quad write_at_extend [OF 1(3), of ?q "b64_bytes body' p"]
      by (simp add: quad_chars b64_bytes_quad add.assoc)
  qed
qed

lemma b64_text_empty: "\<exists>p. p = 0 \<and> b64_text [] p"
  by (simp add: b64_text_def)

lemma decode_loop_sound:
  "decode_base64_loop out n inp = (True, out', n') \<Longrightarrow> 4 dvd length inp \<Longrightarrow>
     \<exists>body p. inp = body @ replicate p 61 \<and> b64_text body p"
proof (induction out n inp rule: decode_base64_loop.induct)
  case (1 out n a b c d rest)
  from 1(2) obtain bs where bs: "base64_decode_quad a b c d = Some bs"
    by (auto split: option.splits)
  then have rest: "length bs \<noteq> 3 \<Longrightarrow> rest = []"
    using 1(2) by (auto simp: Let_def split: if_splits)
  from bs show ?case
  proof (cases rule: quad_Some)
    case (full i j k l)
    have "\<exists>body p. rest = body @ replicate p 61 \<and> b64_text body p"
      by (rule 1(1) [OF bs refl]) (use 1(2,3) bs full in \<open>auto simp: Let_def\<close>)
    then obtain body p where "rest = body @ replicate p 61" "b64_text body p" by blast
    with full have "a # b # c # d # rest = (a # b # c # d # body) @ replicate p 61 \<and> b64_text (a # b # c # d # body) p"
      by (simp add: b64_text_quad)
    then show ?thesis by blast
  next
    case (pad1 i j k)
    then have "a # b # c # d # rest = [a, b, c] @ replicate 1 61 \<and> b64_text [a, b, c] 1"
      using rest by (auto simp: b64_text_def alphabet_index)
    then show ?thesis by blast
  next
    case (pad2 i j)
    then have "a # b # c # d # rest = [a, b] @ replicate 2 61 \<and> b64_text [a, b] 2"
      using rest by (auto simp: b64_text_def alphabet_index numeral_2_eq_2)
    then show ?thesis by blast
  qed
qed (use b64_text_empty in \<open>auto dest: dvd_imp_le\<close>)

lemma length_b64_bytes: "b64_text body p \<Longrightarrow> length (b64_bytes body p) = (length body + p) div 4 * 3 - p"
  by (simp add: b64_bytes_def Let_def)

lemma pad_unique:
  assumes "body @ replicate p 61 = body' @ replicate q (61 :: byte)"
    "61 \<notin> set body" "61 \<notin> set body'"
  shows "body = body' \<and> p = q"
proof -
  have t: "takeWhile (\<lambda>c. c \<noteq> 61) (b @ replicate n (61 :: byte)) = b" if "61 \<notin> set b" for b n
    using that by (cases n) (auto simp: takeWhile_append takeWhile_eq_all_conv)
  have "body = body'" using t [of body p] t [of body' q] assms by simp
  with assms(1) show ?thesis using replicate_eq_replicate by auto
qed

text \<open>\<open>EVP_DecodeBase64\<close> accepts exactly the padded texts that fit, and returns their bytes.\<close>

lemma DecodeBase64_Some:
  "EVP_DecodeBase64 out max_out inp = (True, out', n) \<longleftrightarrow>
     (\<exists>body p. inp = body @ replicate p 61 \<and> b64_text body p \<and> length inp div 4 * 3 \<le> max_out \<and>
        out' = write_at out 0 (b64_bytes body p) \<and> n = length (b64_bytes body p))"
    (is "?l \<longleftrightarrow> ?r")
proof
  assume l: ?l
  then have d: "4 dvd length inp" "length inp div 4 * 3 \<le> max_out" "decode_base64_loop out 0 inp = (True, out', n)"
    by (auto simp: EVP_DecodeBase64_def EVP_DecodedLength_def split: if_splits)
  with decode_loop_sound obtain body p where "inp = body @ replicate p 61" "b64_text body p" by blast
  with d decode_loop_complete [of body p 0 out] show ?r by auto
next
  assume ?r
  then obtain body p where "inp = body @ replicate p 61" "b64_text body p" "length inp div 4 * 3 \<le> max_out"
    "out' = write_at out 0 (b64_bytes body p)" "n = length (b64_bytes body p)" by blast
  then show ?l using decode_loop_complete [of body p 0 out]
    by (auto simp: EVP_DecodeBase64_def EVP_DecodedLength_def b64_text_def dvd_eq_mod_eq_0)
qed


subsection \<open>Decoding inverts encoding\<close>

lemma group_value:
  "unat (a :: byte) div 4 * 262144 + (unat a mod 4 * 16 + unat (b :: byte) div 16) * 4096 +
     (unat b mod 16 * 4 + unat (c :: byte) div 64) * 64 + unat c mod 64 = be_nat [a, b, c]"
proof -
  have "a1 * 262144 + (a0 * 16 + b1) * 4096 + (b0 * 4 + c1) * 64 + c0 =
      (a1 * 4 + a0) * 65536 + (b1 * 16 + b0) * 256 + (c1 * 64 + c0)" for a1 a0 b1 b0 c1 c0 :: nat by simp
  from this [of "unat a div 4" "unat a mod 4" "unat b div 16" "unat b mod 16" "unat c div 64" "unat c mod 64"]
  show ?thesis by (simp only: div_mult_mod_eq) (simp add: be_nat_Cons)
qed

lemma alphabet_mem: "i < 64 \<Longrightarrow> b64_alphabet ! i \<in> set b64_alphabet"
  by (simp add: length_alphabet)

lemma encode_text:
  "\<exists>body p. b64_encode xs = body @ replicate p 61 \<and> b64_text body p \<and> b64_bytes body p = xs"
proof (induction xs rule: b64_encode.induct)
  case 1
  have "b64_encode [] = [] @ replicate 0 61 \<and> b64_text [] 0 \<and> b64_bytes [] 0 = []"
    by (simp add: b64_text_def)
  then show ?case by blast
next
  case (2 a)
  let ?i = "unat a div 4" and ?j = "unat a mod 4 * 16"
  have ij: "?i < 64" "?j < 64" using unat_byte_less [of a] by simp_all
  have "?i * 262144 + ?j * 4096 = be_nat [a, 0, 0]" using group_value [of a 0 0] by simp
  then have "b64_bytes [b64_alphabet ! ?i, b64_alphabet ! ?j] 2 = [a]"
    using b64_bytes_pad(2) [OF ij, of 0] be_bytes_be_nat [of "[a, 0, 0]"] by (simp add: numeral_3_eq_3)
  then have "b64_encode [a] = [b64_alphabet ! ?i, b64_alphabet ! ?j] @ replicate 2 61 \<and>
      b64_text [b64_alphabet ! ?i, b64_alphabet ! ?j] 2 \<and> b64_bytes [b64_alphabet ! ?i, b64_alphabet ! ?j] 2 = [a]"
    using ij by (simp add: b64_text_def alphabet_mem) (simp add: numeral_2_eq_2)
  then show ?case by blast
next
  case (3 a b)
  let ?i = "unat a div 4" and ?j = "unat a mod 4 * 16 + unat b div 16" and ?k = "unat b mod 16 * 4"
  let ?body = "[b64_alphabet ! ?i, b64_alphabet ! ?j, b64_alphabet ! ?k]"
  have ij: "?i < 64" "?j < 64" "?k < 64"
    using group_digits_parts(2) unat_byte_less [of a] unat_byte_less [of b] by linarith+
  have "?i * 262144 + ?j * 4096 + ?k * 64 = be_nat [a, b, 0]" using group_value [of a b 0] by simp
  then have "b64_bytes ?body 1 = [a, b]"
    using b64_bytes_pad(1) [OF ij] be_bytes_be_nat [of "[a, b, 0]"] by (simp add: numeral_3_eq_3)
  then have "b64_encode [a, b] = ?body @ replicate 1 61 \<and> b64_text ?body 1 \<and> b64_bytes ?body 1 = [a, b]"
    using ij by (simp add: b64_text_def alphabet_mem)
  then show ?case by blast
next
  case (4 a b c r)
  then obtain body p where ih: "b64_encode r = body @ replicate p 61" "b64_text body p" "b64_bytes body p = r"
    by blast
  let ?i = "unat a div 4" and ?j = "unat a mod 4 * 16 + unat b div 16"
    and ?k = "unat b mod 16 * 4 + unat c div 64" and ?l = "unat c mod 64"
  let ?body = "b64_alphabet ! ?i # b64_alphabet ! ?j # b64_alphabet ! ?k # b64_alphabet ! ?l # body"
  have ij: "?i < 64" "?j < 64" "?k < 64" "?l < 64"
    using unat_byte_less [of a] unat_byte_less [of b] unat_byte_less [of c] by linarith+
  have "be_bytes 3 (be_nat [a, b, c]) = [a, b, c]" using be_bytes_be_nat [of "[a, b, c]"] by (simp add: numeral_3_eq_3)
  then have "b64_bytes ?body p = a # b # c # r"
    using b64_bytes_quad [OF ij ih(2)] ih(3) group_value [of a b c] by simp
  moreover have "b64_text ?body p" using ih(2) ij by (simp add: b64_text_quad)
  ultimately have "b64_encode (a # b # c # r) = ?body @ replicate p 61 \<and> b64_text ?body p \<and> b64_bytes ?body p = a # b # c # r"
    using ih(1) by simp
  then show ?case by blast
qed

lemma decode_encode:
  assumes "(length xs + 2) div 3 * 3 \<le> max_out"
  shows "EVP_DecodeBase64 out max_out (b64_encode xs) = (True, write_at out 0 xs, length xs)"
proof -
  obtain body p where "b64_encode xs = body @ replicate p 61" "b64_text body p" "b64_bytes body p = xs"
    using encode_text [of xs] by blast
  moreover have "length (b64_encode xs) div 4 * 3 \<le> max_out" using assms by (simp add: length_b64_encode)
  ultimately show ?thesis unfolding DecodeBase64_Some by auto
qed


subsection \<open>The streaming decoder\<close>

lemma loop_ws: "decode_update_loop ctx out n inp = decode_update_loop ctx out n (filter (\<lambda>c. \<not> is_ws c) inp)"
  by (induction ctx out n inp rule: decode_update_loop.induct) (auto simp: Let_def split: option.splits)

lemma loop_append:
  "decode_update_loop ctx out n (xs @ ys) =
     (case decode_update_loop ctx out n xs of (ctx', out', n', failed) \<Rightarrow>
        if failed then (ctx', out', n', True) else decode_update_loop ctx' out' n' ys)"
  by (induction ctx out n xs rule: decode_update_loop.induct) (auto simp: Let_def split: option.splits)

text \<open>Where the output starts and what the block held before do not matter.\<close>

lemma loop_shift:
  "n \<le> length out \<Longrightarrow> decode_update_loop ctx pre (length pre) inp = (ctx', o', m, failed) \<Longrightarrow>
     m = length o' \<and>
     decode_update_loop ctx (write_at out n pre) (n + length pre) inp = (ctx', write_at out n o', n + m, failed)"
proof (induction inp arbitrary: ctx pre)
  case (Cons c inp)
  have ext: "write_at (write_at out n pre) (n + length pre) bs = write_at out n (pre @ bs)"
    "write_at pre (length pre) bs = pre @ bs" for bs
    using write_at_extend [OF Cons.prems(1)] by (simp_all add: write_at_def)
  show ?case using Cons.prems Cons.IH [OF Cons.prems(1)]
    by (auto simp: Let_def ext add.assoc simp flip: length_append split: option.splits if_splits)
qed auto

lemma loop_run:
  assumes "decode_update_loop ctx [] 0 inp = (ctx', o', m, failed)"
  shows "m = length o'" "decode_update_loop ctx out 0 inp = (ctx', write_at out 0 o', m, failed)"
    "n \<le> length out \<Longrightarrow> decode_update_loop ctx out n inp = (ctx', write_at out n o', n + m, failed)"
  using loop_shift [of 0 out ctx "[]" inp ctx' o' m failed] loop_shift [of n out ctx "[]" inp ctx' o' m failed] assms
  by simp_all

lemma run_append:
  assumes "decode_update_loop ctx [] 0 xs = (c1, o1, m1, False)" "decode_update_loop c1 [] 0 ys = (c2, o2, m2, f)"
  shows "decode_update_loop ctx [] 0 (xs @ ys) = (c2, o1 @ o2, m1 + m2, f)"
  using loop_run(1) [OF assms(1)] loop_run(3) [OF assms(2), of "m1" o1] assms
  by (simp add: loop_append write_at_def)

lemma quad_length: "base64_decode_quad a b c d = Some bs \<Longrightarrow> length bs \<le> 3"
  by (auto simp: base64_decode_quad_def Let_def split: if_splits)

lemma loop_bounds:
  "decode_update_loop ctx out n inp = (ctx', out', n', failed) \<Longrightarrow> data_used ctx < 4 \<Longrightarrow>
     length (ctx_data ctx) = 48 \<Longrightarrow> \<not> failed \<Longrightarrow>
     error_encountered ctx' = error_encountered ctx \<and> data_used ctx' < 4 \<and> length (ctx_data ctx') = 48 \<and>
     n' + data_used ctx' \<le> n + data_used ctx + length inp"
proof (induction ctx out n inp rule: decode_update_loop.induct)
  case (2 ctx out n c cs)
  then show ?case
    by (fastforce simp: Let_def dest: quad_length split: option.splits if_splits)
qed auto


lemma loop_quad:
  assumes ws: "\<not> is_ws a" "\<not> is_ws b" "\<not> is_ws c" "\<not> is_ws d"
    and ctx: "data_used ctx = 0" "\<not> eof_seen ctx"
  shows "decode_update_loop ctx out n (a # b # c # d # rest) =
     (case base64_decode_quad a b c d of
        None \<Rightarrow> (ctx\<lparr>ctx_data := write_at (ctx_data ctx) 0 [a, b, c, d], data_used := 4, error_encountered := True\<rparr>, out, n, True)
      | Some bs \<Rightarrow> decode_update_loop
          (if length bs < 3
           then ctx\<lparr>ctx_data := write_at (ctx_data ctx) 0 [a, b, c, d], data_used := 0, eof_seen := True\<rparr>
           else ctx\<lparr>ctx_data := write_at (ctx_data ctx) 0 [a, b, c, d], data_used := 0\<rparr>)
          (write_at out n bs) (n + length bs) rest)"
proof -
  have w: "write_at (write_at (write_at (write_at m 0 [a]) 1 [b]) 2 [c]) 3 [d] = write_at m 0 [a, b, c, d]" for m
    using write_at_extend [of 0 m "[a]" "[b]"] write_at_extend [of 0 m "[a, b]" "[c]"]
      write_at_extend [of 0 m "[a, b, c]" "[d]"] by (simp add: numeral_2_eq_2 numeral_3_eq_3)
  have nth: "write_at m 0 [a, b, c, d] ! 0 = a" "write_at m 0 [a, b, c, d] ! 1 = b"
    "write_at m 0 [a, b, c, d] ! 2 = c" "write_at m 0 [a, b, c, d] ! 3 = d" for m
    by (simp_all add: write_at_def)
  show ?thesis using ws ctx w nth
    by (auto simp: Let_def numeral_2_eq_2 numeral_3_eq_3 split: option.splits)
qed

lemma loop_iff:
  "data_used ctx = 0 \<Longrightarrow> \<not> eof_seen ctx \<Longrightarrow> \<forall>c\<in>set inp. \<not> is_ws c \<Longrightarrow>
     (\<exists>ctx'. decode_update_loop ctx out n inp = (ctx', out', n', False) \<and> data_used ctx' = 0) \<longleftrightarrow>
     decode_base64_loop out n inp = (True, out', n') \<and> 4 dvd length inp"
proof (induction out n inp arbitrary: ctx rule: decode_base64_loop.induct)
  case (1 out n a b c d rest)
  show ?case
  proof (cases "base64_decode_quad a b c d")
    case None
    then show ?thesis using 1 by (simp add: loop_quad del: decode_update_loop.simps)
  next
    case (Some bs)
    let ?c = "if length bs < 3
       then ctx\<lparr>ctx_data := write_at (ctx_data ctx) 0 [a, b, c, d], data_used := 0, eof_seen := True\<rparr>
       else ctx\<lparr>ctx_data := write_at (ctx_data ctx) 0 [a, b, c, d], data_used := 0\<rparr>"
    have step: "decode_update_loop ctx out n (a # b # c # d # rest) =
        decode_update_loop ?c (write_at out n bs) (n + length bs) rest"
      using 1 Some by (simp add: loop_quad del: decode_update_loop.simps)
    show ?thesis
    proof (cases "length bs < 3")
      case True
      then show ?thesis using Some 1(4) unfolding step by (cases rest) auto
    next
      case False
      then have "length bs = 3" using quad_length [OF Some] by simp
      then show ?thesis using 1(1) [OF Some refl, of ?c] 1(3,4) Some unfolding step by simp
    qed
  qed
qed (auto simp: Let_def dest: dvd_imp_le)

text \<open>
  A client that decodes a stream: an update per chunk, each into the block \<open>out\<close>, then the final
  call.
\<close>

fun decode_chunks :: "EVP_ENCODE_CTX \<Rightarrow> byte list \<Rightarrow> byte list list \<Rightarrow> byte list c_result" where
  "decode_chunks ctx out [] = (if fst (EVP_DecodeFinal ctx) = - 1 then Fail else Ret [])"
| "decode_chunks ctx out (inp # chunks) =
     (case EVP_DecodeUpdate ctx out inp of (r, ctx', out', n) \<Rightarrow>
        if r = - 1 then Fail
        else case decode_chunks ctx' out' chunks of Ret rest \<Rightarrow> Ret (take n out' @ rest) | r \<Rightarrow> r)"

lemma decode_chunks_run:
  "\<not> error_encountered ctx \<Longrightarrow> data_used ctx < 4 \<Longrightarrow> length (ctx_data ctx) = 48 \<Longrightarrow>
     data_used ctx + length (concat chunks) \<le> INT_MAX \<Longrightarrow>
     decode_chunks ctx out chunks =
       (case decode_update_loop ctx [] 0 (concat chunks) of (ctx', o', m, failed) \<Rightarrow>
          if failed \<or> data_used ctx' \<noteq> 0 then Fail else Ret o')"
proof (induction chunks arbitrary: ctx out)
  case Nil
  then show ?case by (simp add: EVP_DecodeFinal_def)
next
  case (Cons inp chunks)
  obtain c1 o1 m1 f1 where r1: "decode_update_loop ctx [] 0 inp = (c1, o1, m1, f1)" by (metis surj_pair)
  note run = loop_run(1,2) [OF r1]
  show ?case
  proof (cases f1)
    case True
    then show ?thesis using Cons.prems r1 run by (simp add: EVP_DecodeUpdate_def loop_append)
  next
    case False
    have b: "error_encountered c1 = error_encountered ctx" "data_used c1 < 4" "length (ctx_data c1) = 48"
      "m1 + data_used c1 \<le> data_used ctx + length inp"
      using loop_bounds [OF r1 Cons.prems(2,3)] False by auto
    obtain c2 o2 m2 f2 where r2: "decode_update_loop c1 [] 0 (concat chunks) = (c2, o2, m2, f2)" by (metis surj_pair)
    have "decode_chunks c1 (write_at out 0 o1) chunks = (if f2 \<or> data_used c2 \<noteq> 0 then Fail else Ret o2)"
      using Cons.IH [of c1 "write_at out 0 o1"] Cons.prems b by (simp add: r2)
    moreover have "take m1 (write_at out 0 o1) = o1" using run(1) by (simp add: write_at_def)
    moreover have "decode_update_loop ctx [] 0 (concat (inp # chunks)) = (c2, o1 @ o2, m1 + m2, f2)"
      using run_append [OF _ r2] r1 False by simp
    ultimately show ?thesis using Cons.prems b run False by (simp add: EVP_DecodeUpdate_def)
  qed
qed

lemma DecodeInit_fields [simp]:
  "data_used EVP_DecodeInit = 0" "\<not> eof_seen EVP_DecodeInit" "\<not> error_encountered EVP_DecodeInit"
  "length (ctx_data EVP_DecodeInit) = 48"
  by (simp_all add: EVP_DecodeInit_def)

lemma decode_chunks_iff:
  assumes "length (concat chunks) \<le> INT_MAX"
  shows "decode_chunks EVP_DecodeInit out chunks = Ret xs \<longleftrightarrow>
     (\<exists>body p. filter (\<lambda>c. \<not> is_ws c) (concat chunks) = body @ replicate p 61 \<and> b64_text body p \<and> xs = b64_bytes body p)"
    (is "?l \<longleftrightarrow> ?r")
proof -
  let ?f = "filter (\<lambda>c. \<not> is_ws c) (concat chunks)"
  obtain c o' m f where r: "decode_update_loop EVP_DecodeInit [] 0 ?f = (c, o', m, f)" by (metis surj_pair)
  have "?l \<longleftrightarrow> \<not> f \<and> data_used c = 0 \<and> o' = xs"
    using decode_chunks_run [of EVP_DecodeInit chunks out] assms loop_ws [of EVP_DecodeInit "[]" 0 "concat chunks"] r
    by auto
  also have "\<dots> \<longleftrightarrow> (\<exists>m'. \<exists>ctx'. decode_update_loop EVP_DecodeInit [] 0 ?f = (ctx', xs, m', False) \<and> data_used ctx' = 0)"
    using r by auto
  also have "\<dots> \<longleftrightarrow> (\<exists>m'. decode_base64_loop [] 0 ?f = (True, xs, m') \<and> 4 dvd length ?f)"
    by (subst loop_iff) auto
  also have "\<dots> \<longleftrightarrow> ?r"
  proof
    assume "\<exists>m'. decode_base64_loop [] 0 ?f = (True, xs, m') \<and> 4 dvd length ?f"
    then obtain m' where d: "decode_base64_loop [] 0 ?f = (True, xs, m')" "4 dvd length ?f" by blast
    with decode_loop_sound obtain body p where b: "?f = body @ replicate p 61" "b64_text body p" by blast
    then have "xs = b64_bytes body p" using decode_loop_complete [OF b(2), of 0 "[]"] d by (simp add: write_at_def)
    with b show ?r by blast
  next
    assume ?r
    then obtain body p where b: "?f = body @ replicate p 61" "b64_text body p" "xs = b64_bytes body p" by blast
    then show "\<exists>m'. decode_base64_loop [] 0 ?f = (True, xs, m') \<and> 4 dvd length ?f"
      using decode_loop_complete [OF b(2), of 0 "[]"] by (simp add: write_at_def b64_text_def)
  qed
  finally show ?thesis .
qed


subsection \<open>Streams round trip\<close>

lemma encode_append: "3 dvd length xs \<Longrightarrow> b64_encode (xs @ ys) = b64_encode xs @ b64_encode ys"
proof (induction xs rule: b64_encode.induct)
  case (4 a b c r)
  then have "3 dvd length r" by simp presburger
  with 4 show ?case by simp
qed (auto dest: dvd_imp_le)

lemma is_ws_newline [simp]: "is_ws 10"
  by (simp add: is_ws_def)

lemma alphabet_not_ws: "c \<in> set b64_alphabet \<or> c = 61 \<Longrightarrow> \<not> is_ws c"
proof -
  have "\<not> is_ws (b64_alphabet ! i)" if "i < 64" for i
  proof -
    have "b64_ord i \<notin> {32, 9, 13, 10}" using that by (auto simp: b64_ord_def)
    then show ?thesis using unat_alphabet [OF that] by (auto simp: is_ws_def)
  qed
  then show "c \<in> set b64_alphabet \<or> c = 61 \<Longrightarrow> \<not> is_ws c" by (auto simp: alphabet_index is_ws_def)
qed

lemma filter_encode: "filter (\<lambda>c. \<not> is_ws c) (b64_encode xs) = b64_encode xs"
proof -
  obtain body p where "b64_encode xs = body @ replicate p 61" "set body \<subseteq> set b64_alphabet"
    using encode_text [of xs] by (auto simp: b64_text_def)
  then show ?thesis using alphabet_not_ws by (auto simp: filter_id_conv)
qed

lemma filter_full_lines:
  "filter (\<lambda>c. \<not> is_ws c) (full_lines xs) @ b64_encode (left_over xs) = b64_encode xs"
proof (induction xs rule: full_lines.induct)
  case (1 xs)
  show ?case
  proof (cases "48 \<le> length xs")
    case True
    then have "3 dvd length (take 48 xs)" by simp
    from encode_append [OF this, of "drop 48 xs"] 1 [OF True] True show ?thesis
      by (simp add: full_lines.simps [of xs] left_over_step filter_encode)
  next
    case False
    then show ?thesis by (simp add: full_lines_short left_over_short)
  qed
qed

lemma filter_stream: "filter (\<lambda>c. \<not> is_ws c) (b64_stream xs) = b64_encode xs"
  using filter_full_lines [of xs] by (auto simp: b64_stream_def filter_encode)

lemma stream_round_trip:
  assumes "length (concat chunks) \<le> INT_MAX" "concat chunks = b64_stream xs"
  shows "decode_chunks EVP_DecodeInit out chunks = Ret xs"
  using encode_text [of xs] unfolding decode_chunks_iff [OF assms(1)] assms(2) filter_stream by metis


subsection \<open>\<open>EVP_DecodeBlock\<close>\<close>

lemma pad_nuls_spec:
  "n \<le> length dst \<Longrightarrow> pad_nuls dst n =
     (write_at dst n (replicate ((n + 2) div 3 * 3 - n) 0), (n + 2) div 3 * 3)"
proof (induction dst n rule: pad_nuls.induct)
  case (1 dst n)
  show ?case
  proof (cases "n mod 3 = 0")
    case True
    then have "(n + 2) div 3 * 3 = n" by presburger
    with True show ?thesis by (simp add: pad_nuls.simps [of dst n])
  next
    case False
    then have e: "(n + 1 + 2) div 3 * 3 = (n + 2) div 3 * 3" "(n + 2) div 3 * 3 - n = Suc ((n + 2) div 3 * 3 - (n + 1))"
      by presburger+
    have "n + 1 \<le> length (write_at dst n [0])" using length_write_at_ge [OF 1(2), of "[0]"] by simp
    from 1(1) [OF False this] show ?thesis
      using write_at_extend [OF 1(2), of "[0]" "replicate ((n + 2) div 3 * 3 - (n + 1)) 0"] False
      unfolding pad_nuls.simps [of dst n] e by simp
  qed
qed

lemma encode_ends_not_ws:
  "dropWhile (\<lambda>c. c = 32 \<or> c = 9) (b64_encode xs) = b64_encode xs"
  "rev (dropWhile is_ws (rev (b64_encode xs))) = b64_encode xs"
proof -
  have n: "\<not> is_ws c" if "c \<in> set (b64_encode xs)" for c
    using that filter_encode [of xs] by (auto simp: filter_id_conv)
  then have "\<not> (c = 32 \<or> c = 9)" if "c \<in> set (b64_encode xs)" for c using that by (auto simp: is_ws_def)
  then show "dropWhile (\<lambda>c. c = 32 \<or> c = 9) (b64_encode xs) = b64_encode xs"
    by (auto simp: dropWhile_eq_self_iff)
  have "dropWhile is_ws (rev (b64_encode xs)) = rev (b64_encode xs)"
    using n by (auto simp: dropWhile_eq_self_iff hd_rev)
  then show "rev (dropWhile is_ws (rev (b64_encode xs))) = b64_encode xs" by simp
qed

lemma DecodeBlock_encode:
  assumes "(length xs + 2) div 3 * 3 \<le> INT_MAX"
  shows "EVP_DecodeBlock dst (b64_encode xs) =
     (int ((length xs + 2) div 3 * 3), write_at dst 0 (xs @ replicate ((length xs + 2) div 3 * 3 - length xs) 0))"
proof -
  let ?m = "(length xs + 2) div 3 * 3"
  have "EVP_DecodedLength (length (b64_encode xs)) = Some ?m"
    by (simp add: EVP_DecodedLength_def length_b64_encode)
  moreover have "length xs \<le> length (write_at dst 0 xs)" by (simp add: write_at_def)
  ultimately show ?thesis
    using assms decode_encode [of xs ?m dst] pad_nuls_spec [of "length xs" "write_at dst 0 xs"]
      write_at_extend [of 0 dst xs "replicate (?m - length xs) 0"]
    unfolding EVP_DecodeBlock_def Let_def encode_ends_not_ws by simp
qed

lemma DecodeBlock_minus: "fst (EVP_DecodeBlock dst (src @ [45])) = - 1"
proof -
  let ?s = "dropWhile (\<lambda>c. c = 32 \<or> c = 9) (src @ [45])"
  have "\<exists>s'. ?s = s' @ [45]"
    by (induction src) auto
  then obtain s' where s: "?s = s' @ [45]" by blast
  have t: "rev (dropWhile is_ws (rev ?s)) = s' @ [45]" unfolding s by (simp add: is_ws_def)
  have "(45 :: byte) \<notin> set b64_alphabet"
  proof
    assume "(45 :: byte) \<in> set b64_alphabet"
    then obtain i where "i < 64" "b64_ord i = 45" using unat_alphabet by (fastforce simp: alphabet_index)
    then show False by (auto simp: b64_ord_def split: if_splits)
  qed
  then have "\<not> fst (EVP_DecodeBase64 dst n (s' @ [45]))" for n
  proof -
    have "False" if "s' @ [45] = body @ replicate p 61" "b64_text body p" for body p
      using that \<open>45 \<notin> set b64_alphabet\<close> by (cases p) (auto simp: b64_text_def replicate_append_same [symmetric])
    then show ?thesis using DecodeBase64_Some [of dst n "s' @ [45]"] by (metis prod.collapse)
  qed
  then show ?thesis unfolding EVP_DecodeBlock_def Let_def t
    by (auto split: option.splits prod.splits bool.splits) (metis fst_conv)
qed

end
