(* ===== verification/Stack.thy ===== *)
theory Stack
  imports Set_Of
begin

text \<open>
  \<open>crypto/stack/stack.c\<close>: the growable array of pointers. A pointer is a value of the type
  parameter or \<open>None\<close> for NULL, and so is a pointer to a stack. The comparison function is the
  identifier stored in the stack (0 for NULL), which the caller's \<open>call_cmp_func\<close> interprets.
  \<open>sizeof(void *)\<close> is 8.
\<close>

record 'a stack_st =
  num :: nat
  sk_data :: "'a option list"
  sorted_flag :: bool
  num_alloc :: nat
  sk_comp :: nat

type_synonym 'a cmp_func = "nat \<Rightarrow> 'a option \<Rightarrow> 'a option \<Rightarrow> int"

text \<open>A request for a number of bytes gives that many bytes' worth of pointers, or fails.\<close>

type_synonym 'a ptr_allocator = "nat \<Rightarrow> 'a option list option"

definition ptr_allocates :: "'a ptr_allocator \<Rightarrow> bool" where
  "ptr_allocates al \<longleftrightarrow> (\<forall>n b. al (8 * n) = Some b \<longrightarrow> length b = n)"

abbreviation kMinSize :: nat where "kMinSize \<equiv> 4"

subsection \<open>Operations\<close>

text \<open>\<open>struct_ok\<close> says whether the allocation of the structure itself succeeds.\<close>

definition OPENSSL_sk_new :: "bool \<Rightarrow> 'a ptr_allocator \<Rightarrow> nat \<Rightarrow> 'a stack_st option" where
  "OPENSSL_sk_new struct_ok al cmpf =
     (if \<not> struct_ok then None
      else case al (8 * kMinSize) of
             None \<Rightarrow> None
           | Some _ \<Rightarrow> Some \<lparr>num = 0, sk_data = replicate kMinSize None, sorted_flag = False,
                              num_alloc = kMinSize, sk_comp = cmpf\<rparr>)"

definition OPENSSL_sk_new_null :: "bool \<Rightarrow> 'a ptr_allocator \<Rightarrow> 'a stack_st option" where
  "OPENSSL_sk_new_null struct_ok al = OPENSSL_sk_new struct_ok al 0"

definition OPENSSL_sk_num :: "'a stack_st option \<Rightarrow> nat" where
  "OPENSSL_sk_num sk = (case sk of None \<Rightarrow> 0 | Some s \<Rightarrow> num s)"

definition OPENSSL_sk_zero :: "'a stack_st option \<Rightarrow> 'a stack_st option" where
  "OPENSSL_sk_zero sk =
     (case sk of
        None \<Rightarrow> None
      | Some s \<Rightarrow> if num s = 0 then Some s
                  else Some (s\<lparr>sk_data := write_at (sk_data s) 0 (replicate (num s) None),
                               num := 0, sorted_flag := False\<rparr>))"

definition OPENSSL_sk_value :: "'a stack_st option \<Rightarrow> nat \<Rightarrow> 'a option" where
  "OPENSSL_sk_value sk i =
     (case sk of None \<Rightarrow> None | Some s \<Rightarrow> if i \<ge> num s then None else sk_data s ! i)"

definition OPENSSL_sk_set :: "'a stack_st option \<Rightarrow> nat \<Rightarrow> 'a option \<Rightarrow> 'a option \<times> 'a stack_st option" where
  "OPENSSL_sk_set sk i v =
     (case sk of
        None \<Rightarrow> (None, None)
      | Some s \<Rightarrow> if i \<ge> num s then (None, Some s)
                  else (v, Some (s\<lparr>sk_data := (sk_data s)[i := v]\<rparr>)))"

text \<open>The pointers that are passed to \<open>free_func\<close>, in order.\<close>

definition OPENSSL_sk_pop_free_ex :: "'a stack_st option \<Rightarrow> 'a list" where
  "OPENSSL_sk_pop_free_ex sk =
     (case sk of
        None \<Rightarrow> []
      | Some s \<Rightarrow> map the (filter (\<lambda>p. p \<noteq> None) (map (\<lambda>i. sk_data s ! i) [0..<num s])))"

text \<open>The growth step of \<open>OPENSSL_sk_insert\<close>: \<open>None\<close> is the failing return.\<close>

definition sk_new_alloc :: "nat \<Rightarrow> nat option" where
  "sk_new_alloc n_alloc =
     (let overflowed = (\<lambda>a. a < n_alloc \<or> (a * 8 mod size_mod) div 8 \<noteq> a);
          new_alloc = n_alloc * 2 mod size_mod;
          new_alloc = (if overflowed new_alloc then (n_alloc + 1) mod size_mod else new_alloc)
      in if overflowed new_alloc then None else Some new_alloc)"

definition sk_grow :: "'a ptr_allocator \<Rightarrow> 'a stack_st \<Rightarrow> 'a stack_st option" where
  "sk_grow al s =
     (if num_alloc s \<le> num s + 1
      then (case sk_new_alloc (num_alloc s) of
              None \<Rightarrow> None
            | Some new_alloc \<Rightarrow>
                (case al (new_alloc * 8 mod size_mod) of
                   None \<Rightarrow> None
                 | Some b \<Rightarrow> Some (s\<lparr>sk_data := take (length b) (sk_data s) @ drop (length (sk_data s)) b,
                                     num_alloc := new_alloc\<rparr>)))
      else Some s)"

definition OPENSSL_sk_insert ::
  "'a ptr_allocator \<Rightarrow> 'a stack_st option \<Rightarrow> 'a option \<Rightarrow> nat \<Rightarrow> nat \<times> 'a stack_st option" where
  "OPENSSL_sk_insert al sk p pos =
     (case sk of
        None \<Rightarrow> (0, None)
      | Some s \<Rightarrow>
          if num s \<ge> INT_MAX then (0, Some s)
          else case sk_grow al s of
                 None \<Rightarrow> (0, Some s)
               | Some s1 \<Rightarrow>
                   let data = (if pos \<ge> num s1 then (sk_data s1)[num s1 := p]
                               else (write_at (sk_data s1) (pos + 1)
                                       (take (num s1 - pos) (drop pos (sk_data s1))))[pos := p])
                   in (num s1 + 1, Some (s1\<lparr>sk_data := data, num := num s1 + 1, sorted_flag := False\<rparr>)))"


definition OPENSSL_sk_delete :: "'a stack_st option \<Rightarrow> nat \<Rightarrow> 'a option \<times> 'a stack_st option" where
  "OPENSSL_sk_delete sk pos =
     (case sk of
        None \<Rightarrow> (None, None)
      | Some s \<Rightarrow>
          if pos \<ge> num s then (None, Some s)
          else let ret = sk_data s ! pos;
                   data = (if pos \<noteq> num s - 1
                           then write_at (sk_data s) pos (take (num s - pos - 1) (drop (pos + 1) (sk_data s)))
                           else sk_data s)
               in (ret, Some (s\<lparr>sk_data := data, num := num s - 1\<rparr>)))"

text \<open>The index of the first element that a loop over the stack stops at.\<close>

definition sk_search :: "('a option \<Rightarrow> bool) \<Rightarrow> 'a stack_st \<Rightarrow> nat option" where
  "sk_search stop s = find (\<lambda>i. stop (sk_data s ! i)) [0..<num s]"

definition OPENSSL_sk_delete_ptr :: "'a stack_st option \<Rightarrow> 'a option \<Rightarrow> 'a option \<times> 'a stack_st option" where
  "OPENSSL_sk_delete_ptr sk p =
     (case sk of
        None \<Rightarrow> (None, None)
      | Some s \<Rightarrow> (case sk_search (\<lambda>x. x = p) s of
                     None \<Rightarrow> (None, Some s)
                   | Some i \<Rightarrow> OPENSSL_sk_delete sk i))"

fun delete_if_loop :: "('a option \<Rightarrow> bool) \<Rightarrow> nat list \<Rightarrow> 'a option list \<Rightarrow> nat \<Rightarrow> 'a option list \<times> nat" where
  "delete_if_loop f [] data new_num = (data, new_num)"
| "delete_if_loop f (i # is) data new_num =
     (if f (data ! i) then delete_if_loop f is data new_num
      else delete_if_loop f is (data[new_num := data ! i]) (new_num + 1))"

definition OPENSSL_sk_delete_if :: "('a option \<Rightarrow> bool) \<Rightarrow> 'a stack_st option \<Rightarrow> 'a stack_st option" where
  "OPENSSL_sk_delete_if f sk =
     (case sk of
        None \<Rightarrow> None
      | Some s \<Rightarrow> (case delete_if_loop f [0..<num s] (sk_data s) 0 of (data, new_num) \<Rightarrow>
                     Some (s\<lparr>sk_data := data, num := new_num\<rparr>)))"

definition OPENSSL_sk_is_sorted :: "'a stack_st option \<Rightarrow> bool" where
  "OPENSSL_sk_is_sorted sk =
     (case sk of None \<Rightarrow> True | Some s \<Rightarrow> sorted_flag s \<or> sk_comp s \<noteq> 0 \<and> num s < 2)"

text \<open>The binary search; \<open>cmp i\<close> is the comparison of the sought element with entry \<open>i\<close>.\<close>

function find_loop :: "(nat \<Rightarrow> int) \<Rightarrow> nat \<Rightarrow> nat \<Rightarrow> nat option" where
  "find_loop cmp lo hi =
     (if lo < hi
      then let mid = lo + (hi - lo - 1) div 2; r = cmp mid
           in if r > 0 then find_loop cmp (mid + 1) hi
              else if r < 0 then find_loop cmp lo mid
              else if hi - lo = 1 then Some mid
              else find_loop cmp lo (mid + 1)
      else None)"
  by pat_completeness auto
termination by (relation "measure (\<lambda>(cmp, lo, hi). hi - lo)") auto

declare find_loop.simps [simp del]

definition OPENSSL_sk_find :: "'a cmp_func \<Rightarrow> 'a stack_st option \<Rightarrow> 'a option \<Rightarrow> nat option" where
  "OPENSSL_sk_find call_cmp sk p =
     (case sk of
        None \<Rightarrow> None
      | Some s \<Rightarrow>
          if sk_comp s = 0 then sk_search (\<lambda>x. x = p) s
          else if p = None then None
          else if \<not> OPENSSL_sk_is_sorted sk then sk_search (\<lambda>x. call_cmp (sk_comp s) p x = 0) s
          else find_loop (\<lambda>i. call_cmp (sk_comp s) p (sk_data s ! i)) 0 (num s))"

definition OPENSSL_sk_shift :: "'a stack_st option \<Rightarrow> 'a option \<times> 'a stack_st option" where
  "OPENSSL_sk_shift sk =
     (case sk of None \<Rightarrow> (None, None)
      | Some s \<Rightarrow> if num s = 0 then (None, sk) else OPENSSL_sk_delete sk 0)"

text \<open>\<open>OPENSSL_sk_push\<close> reads \<open>sk->num\<close> before any check, so a NULL stack is undefined.\<close>

definition OPENSSL_sk_push ::
  "'a ptr_allocator \<Rightarrow> 'a stack_st option \<Rightarrow> 'a option \<Rightarrow> (nat \<times> 'a stack_st option) c_result" where
  "OPENSSL_sk_push al sk p =
     (case sk of None \<Rightarrow> Undef | Some s \<Rightarrow> Ret (OPENSSL_sk_insert al sk p (num s)))"

definition OPENSSL_sk_pop :: "'a stack_st option \<Rightarrow> 'a option \<times> 'a stack_st option" where
  "OPENSSL_sk_pop sk =
     (case sk of None \<Rightarrow> (None, None)
      | Some s \<Rightarrow> if num s = 0 then (None, sk) else OPENSSL_sk_delete sk (num s - 1))"

definition OPENSSL_sk_dup :: "bool \<Rightarrow> 'a ptr_allocator \<Rightarrow> 'a stack_st option \<Rightarrow> 'a stack_st option" where
  "OPENSSL_sk_dup struct_ok al sk =
     (case sk of
        None \<Rightarrow> None
      | Some s \<Rightarrow> if \<not> struct_ok then None
                  else case al (8 * num_alloc s) of
                         None \<Rightarrow> None
                       | Some b \<Rightarrow> Some (s\<lparr>sk_data := write_at b 0 (take (num_alloc s) (sk_data s))\<rparr>))"

definition parent_idx :: "nat \<Rightarrow> nat" where
  "parent_idx idx = (idx - 1) div 2"

definition left_idx :: "nat \<Rightarrow> nat" where
  "left_idx idx = 2 * idx + 1"

definition swap_at :: "nat \<Rightarrow> nat \<Rightarrow> 'b list \<Rightarrow> 'b list" where
  "swap_at i j data = data[i := data ! j, j := data ! i]"

definition next_idx :: "('b \<Rightarrow> 'b \<Rightarrow> int) \<Rightarrow> 'b list \<Rightarrow> nat \<Rightarrow> nat \<Rightarrow> nat" where
  "next_idx cmp data i n =
     (let left = left_idx i;
          nxt = (if cmp (data ! i) (data ! left) < 0 then left else i);
          right = left + 1
      in if right < n \<and> cmp (data ! nxt) (data ! right) < 0 then right else nxt)"

lemma next_idx_cases:
  assumes "left_idx i < n"
  obtains "next_idx cmp data i n = i" | "next_idx cmp data i n = 2 * i + 1" "2 * i + 1 < n"
    | "next_idx cmp data i n = 2 * i + 2" "2 * i + 2 < n"
proof -
  have "next_idx cmp data i n \<in> {i, 2 * i + 1} \<or> next_idx cmp data i n = 2 * i + 2 \<and> 2 * i + 2 < n"
    by (simp add: next_idx_def left_idx_def Let_def)
  then show thesis using that assms by (auto simp: left_idx_def)
qed

lemma next_idx_bounds:
  "left_idx i < n \<Longrightarrow> next_idx cmp data i n \<noteq> i \<Longrightarrow> i < next_idx cmp data i n \<and> next_idx cmp data i n < n"
  by (erule next_idx_cases [of i n cmp data]) auto

function down_heap :: "('b \<Rightarrow> 'b \<Rightarrow> int) \<Rightarrow> 'b list \<Rightarrow> nat \<Rightarrow> nat \<Rightarrow> 'b list" where
  "down_heap cmp data i n =
     (if left_idx i \<ge> n then data
      else let nxt = next_idx cmp data i n
           in if i = nxt then data else down_heap cmp (swap_at i nxt data) nxt n)"
  by pat_completeness auto
termination
proof (relation "measure (\<lambda>(cmp, data, i, n). n - i)")
  fix cmp :: "'b \<Rightarrow> 'b \<Rightarrow> int" and data i n nxt
  assume "\<not> left_idx i \<ge> n" "nxt = next_idx cmp data i n" "i \<noteq> nxt"
  then show "((cmp, swap_at i nxt data, nxt, n), cmp, data, i, n) \<in> measure (\<lambda>(cmp, data, i, n). n - i)"
    using next_idx_bounds [of i n cmp data] by (simp add: diff_less_mono2)
qed simp

declare down_heap.simps [simp del]

text \<open>Both loops count \<open>i\<close> down; the first ends when \<open>i\<close> wraps around below zero.\<close>

fun build_heap :: "('b \<Rightarrow> 'b \<Rightarrow> int) \<Rightarrow> nat \<Rightarrow> 'b list \<Rightarrow> nat \<Rightarrow> 'b list" where
  "build_heap cmp n data 0 = down_heap cmp data 0 n"
| "build_heap cmp n data (Suc i) = build_heap cmp n (down_heap cmp data (Suc i) n) i"

fun extract_loop :: "('b \<Rightarrow> 'b \<Rightarrow> int) \<Rightarrow> 'b list \<Rightarrow> nat \<Rightarrow> 'b list" where
  "extract_loop cmp data 0 = data"
| "extract_loop cmp data (Suc i) = extract_loop cmp (down_heap cmp (swap_at 0 (Suc i) data) 0 (Suc i)) i"

definition OPENSSL_sk_sort :: "'a cmp_func \<Rightarrow> 'a stack_st option \<Rightarrow> 'a stack_st option" where
  "OPENSSL_sk_sort call_cmp sk =
     (case sk of
        None \<Rightarrow> None
      | Some s \<Rightarrow>
          if sk_comp s = 0 \<or> sorted_flag s then Some s
          else let cmp = call_cmp (sk_comp s);
                   data = (if num s \<ge> 2
                           then extract_loop cmp (build_heap cmp (num s) (sk_data s) (parent_idx (num s - 1))) (num s - 1)
                           else sk_data s)
               in Some (s\<lparr>sk_data := data, sorted_flag := True\<rparr>))"

definition OPENSSL_sk_set_cmp_func :: "'a stack_st \<Rightarrow> nat \<Rightarrow> nat \<times> 'a stack_st" where
  "OPENSSL_sk_set_cmp_func s cmpf =
     (sk_comp s, s\<lparr>sorted_flag := (if sk_comp s \<noteq> cmpf then False else sorted_flag s), sk_comp := cmpf\<rparr>)"

text \<open>
  The copying loop of \<open>OPENSSL_sk_deep_copy\<close>: \<open>Inl\<close> carries the copies that are freed when a
  copy fails.
\<close>

fun deep_copy_loop :: "('a \<Rightarrow> 'a option) \<Rightarrow> 'a option list \<Rightarrow> 'a option list \<Rightarrow> 'a list + 'a option list" where
  "deep_copy_loop cpy [] acc = Inr acc"
| "deep_copy_loop cpy (None # xs) acc = deep_copy_loop cpy xs (acc @ [None])"
| "deep_copy_loop cpy (Some x # xs) acc =
     (case cpy x of
        None \<Rightarrow> Inl (map the (filter (\<lambda>p. p \<noteq> None) acc))
      | Some y \<Rightarrow> deep_copy_loop cpy xs (acc @ [Some y]))"

definition OPENSSL_sk_deep_copy ::
  "bool \<Rightarrow> 'a ptr_allocator \<Rightarrow> ('a \<Rightarrow> 'a option) \<Rightarrow> 'a stack_st option \<Rightarrow> 'a list \<times> 'a stack_st option" where
  "OPENSSL_sk_deep_copy struct_ok al cpy sk =
     (case OPENSSL_sk_dup struct_ok al sk of
        None \<Rightarrow> ([], None)
      | Some ret \<Rightarrow>
          (case deep_copy_loop cpy (take (num ret) (sk_data ret)) [] of
             Inl freed \<Rightarrow> (freed, None)
           | Inr copies \<Rightarrow> ([], Some (ret\<lparr>sk_data := write_at (sk_data ret) 0 copies\<rparr>))))"


subsection \<open>Comparison functions\<close>

text \<open>
  \<open>heap cmp d lo n\<close>: every node below \<open>n\<close> whose parent is at least \<open>lo\<close> is at most its parent.
  \<open>heap_but cmp d lo n c\<close>: the same with the children of \<open>c\<close> compared to the parent of \<open>c\<close> instead.
\<close>

definition heap :: "('b \<Rightarrow> 'b \<Rightarrow> int) \<Rightarrow> 'b list \<Rightarrow> nat \<Rightarrow> nat \<Rightarrow> bool" where
  "heap cmp d lo n \<longleftrightarrow> (\<forall>j. 0 < j \<and> j < n \<and> lo \<le> (j - 1) div 2 \<longrightarrow> cmp (d ! j) (d ! ((j - 1) div 2)) \<le> 0)"

definition heap_but :: "('b \<Rightarrow> 'b \<Rightarrow> int) \<Rightarrow> 'b list \<Rightarrow> nat \<Rightarrow> nat \<Rightarrow> nat \<Rightarrow> bool" where
  "heap_but cmp d lo n c \<longleftrightarrow>
     (\<forall>j. 0 < j \<and> j < n \<and> lo \<le> (j - 1) div 2 \<and> (j - 1) div 2 \<noteq> c \<longrightarrow> cmp (d ! j) (d ! ((j - 1) div 2)) \<le> 0) \<and>
     (\<forall>j. 0 < j \<and> j < n \<and> (j - 1) div 2 = c \<and> 0 < c \<and> lo \<le> (c - 1) div 2 \<longrightarrow> cmp (d ! j) (d ! ((c - 1) div 2)) \<le> 0)"

text \<open>What a comparison function promises: its sign is antisymmetric and it orders transitively.\<close>

locale comparison =
  fixes cmp :: "'b \<Rightarrow> 'b \<Rightarrow> int"
  assumes flip: "cmp x y < 0 \<longleftrightarrow> 0 < cmp y x"
    and cmp_trans: "cmp x y \<le> 0 \<Longrightarrow> cmp y z \<le> 0 \<Longrightarrow> cmp x z \<le> 0"
begin

lemma cmp_refl: "cmp x x = 0"
  using flip [of x x] by linarith

lemma cmp_total: "cmp x y \<le> 0 \<or> cmp y x \<le> 0"
  using flip [of x y] flip [of y x] by linarith

lemma not_less: "\<not> cmp x y < 0 \<longleftrightarrow> cmp y x \<le> 0"
  using flip [of x y] by linarith

lemma less_imp_le: "cmp x y < 0 \<Longrightarrow> cmp x y \<le> 0"
  by simp

lemma next_max:
  assumes "left_idx i < n"
  shows "cmp (data ! i) (data ! next_idx cmp data i n) \<le> 0"
    "cmp (data ! (2 * i + 1)) (data ! next_idx cmp data i n) \<le> 0"
    "2 * i + 2 < n \<Longrightarrow> cmp (data ! (2 * i + 2)) (data ! next_idx cmp data i n) \<le> 0"
  using not_less [of "data ! i" "data ! (2 * i + 1)"] not_less [of "data ! i" "data ! (2 * i + 2)"]
    not_less [of "data ! (2 * i + 1)" "data ! (2 * i + 2)"] cmp_refl
    cmp_trans [of "data ! i" "data ! (2 * i + 1)" "data ! (2 * i + 2)"]
    cmp_trans [of "data ! (2 * i + 1)" "data ! i" "data ! (2 * i + 2)"]
  by (auto simp: next_idx_def left_idx_def Let_def)

lemma child_cases: "0 < j \<Longrightarrow> (j - 1) div 2 = i \<longleftrightarrow> j = 2 * i + 1 \<or> j = 2 * i + (2 :: nat)"
  by presburger

lemma swap_nth: "i < length d \<Longrightarrow> k < length d \<Longrightarrow> i \<noteq> k \<Longrightarrow>
  swap_at i k d ! j = (if j = i then d ! k else if j = k then d ! i else d ! j)"
  by (simp add: swap_at_def nth_list_update)

lemma heap_but_step:
  assumes but: "heap_but cmp d lo n i" and i: "left_idx i < n" "n \<le> length d"
    and k: "k = next_idx cmp d i n" "k \<noteq> i" and lo: "lo \<le> i"
  shows "heap_but cmp (swap_at i k d) lo n k"
proof -
  have kc: "k = 2 * i + 1 \<or> k = 2 * i + 2" "k < n"
    by (rule next_idx_cases [OF i(1), of cmp d]; use k in simp)+
  then have pk: "(k - 1) div 2 = i" "0 < k" by auto
  have il: "i < length d" "k < length d" using kc i by auto
  note sw = swap_nth [OF il k(2) [symmetric]]
  note mx = next_max [OF i(1), of d, folded k(1)]
  show ?thesis unfolding heap_but_def
  proof (intro conjI allI impI)
    fix j assume j: "0 < j \<and> j < n \<and> lo \<le> (j - 1) div 2 \<and> (j - 1) div 2 \<noteq> k"
    consider "(j - 1) div 2 = i" "j \<noteq> i" | "j = i" "(j - 1) div 2 \<noteq> i" | "j \<noteq> i" "(j - 1) div 2 \<noteq> i" "j \<noteq> k"
      using j pk by (metis div_le_dividend le_neq_implies_less less_imp_diff_less not_less_zero diff_less zero_less_one le_less_trans less_irrefl)
    then show "cmp (swap_at i k d ! j) (swap_at i k d ! ((j - 1) div 2)) \<le> 0"
    proof cases
      case 1
      then have "j = 2 * i + 1 \<or> j = 2 * i + 2" using child_cases j by blast
      then show ?thesis using 1 mx j by (auto simp: sw)
    next
      case 2
      then have "cmp (d ! k) (d ! ((i - 1) div 2)) \<le> 0" using but j kc pk by (auto simp: heap_but_def)
      then show ?thesis using 2 j by (simp add: sw)
    next
      case 3
      then show ?thesis using but j by (simp add: sw heap_but_def)
    qed
  next
    fix j assume j: "0 < j \<and> j < n \<and> (j - 1) div 2 = k \<and> 0 < k \<and> lo \<le> (k - 1) div 2"
    then have "j \<noteq> i" "j \<noteq> k" using kc by auto
    moreover have "cmp (d ! j) (d ! k) \<le> 0" using but j k lo kc unfolding heap_but_def by auto
    ultimately show "cmp (swap_at i k d ! j) (swap_at i k d ! ((k - 1) div 2)) \<le> 0"
      using pk by (simp add: sw)
  qed
qed

lemma heap_but_done:
  assumes but: "heap_but cmp d lo n i"
    and "left_idx i < n \<Longrightarrow> cmp (d ! (2 * i + 1)) (d ! i) \<le> 0"
    and "2 * i + 2 < n \<Longrightarrow> cmp (d ! (2 * i + 2)) (d ! i) \<le> 0"
  shows "heap cmp d lo n"
  unfolding heap_def
proof (intro allI impI)
  fix j assume j: "0 < j \<and> j < n \<and> lo \<le> (j - 1) div 2"
  show "cmp (d ! j) (d ! ((j - 1) div 2)) \<le> 0"
  proof (cases "(j - 1) div 2 = i")
    case True
    then have "j = 2 * i + 1 \<or> j = 2 * i + 2" using child_cases j by blast
    then show ?thesis using True assms(2,3) j by (auto simp: left_idx_def)
  next
    case False
    then show ?thesis using but j by (simp add: heap_but_def)
  qed
qed

lemma down_heap_heap:
  "heap_but cmp d lo n i \<Longrightarrow> n \<le> length d \<Longrightarrow> lo \<le> i \<Longrightarrow> heap cmp (down_heap cmp d i n) lo n"
proof (induction "n - i" arbitrary: d i rule: less_induct)
  case less
  let ?k = "next_idx cmp d i n"
  consider (leaf) "n \<le> left_idx i" | (stop) "left_idx i < n" "i = ?k" | (step) "left_idx i < n" "i \<noteq> ?k"
    by linarith
  then show ?case
  proof cases
    case leaf
    then show ?thesis using heap_but_done [OF less(2)]
      by (simp add: down_heap.simps [of cmp d i n] left_idx_def)
  next
    case stop
    then show ?thesis using heap_but_done [OF less(2)] next_max [OF stop(1), of d]
      by (simp add: down_heap.simps [of cmp d i n])
  next
    case step
    have k: "i < ?k" "?k < n" using next_idx_bounds [OF step(1), of cmp d] step by auto
    have "heap_but cmp (swap_at i ?k d) lo n ?k"
      by (rule heap_but_step) (use less step in auto)
    then have "heap cmp (down_heap cmp (swap_at i ?k d) ?k n) lo n"
      using less k by (simp add: swap_at_def)
    then show ?thesis using step by (simp add: down_heap.simps [of cmp d i n] Let_def)
  qed
qed

end

lemma swap_at_props:
  "length (swap_at i k d) = length d"
  "i < length d \<Longrightarrow> k < length d \<Longrightarrow> mset (swap_at i k d) = mset d"
  "i < n \<Longrightarrow> k < n \<Longrightarrow> n \<le> j \<Longrightarrow> swap_at i k d ! j = d ! j"
  by (simp_all add: swap_at_def mset_swap)

lemma swap_at_append:
  "i < length xs \<Longrightarrow> k < length xs \<Longrightarrow> swap_at i k (xs @ ys) = swap_at i k xs @ ys"
  by (simp add: swap_at_def nth_append list_update_append)

lemma swap_at_take:
  assumes "i < n" "k < n" "n \<le> length d"
  shows "take n (swap_at i k d) = swap_at i k (take n d)" "drop n (swap_at i k d) = drop n d"
proof -
  have "swap_at i k (take n d @ drop n d) = swap_at i k (take n d) @ drop n d"
    by (rule swap_at_append) (use assms in auto)
  then show "take n (swap_at i k d) = swap_at i k (take n d)" "drop n (swap_at i k d) = drop n d"
    using assms by (simp_all add: swap_at_props)
qed

lemma down_heap_take:
  "i < n \<Longrightarrow> n \<le> length d \<Longrightarrow>
     length (down_heap cmp d i n) = length d \<and> drop n (down_heap cmp d i n) = drop n d \<and>
     mset (take n (down_heap cmp d i n)) = mset (take n d)"
proof (induction "n - i" arbitrary: d i rule: less_induct)
  case less
  let ?k = "next_idx cmp d i n"
  consider (stop) "n \<le> left_idx i \<or> i = ?k" | (step) "left_idx i < n" "i \<noteq> ?k" by linarith
  then show ?case
  proof cases
    case stop
    then show ?thesis by (auto simp: down_heap.simps [of cmp d i n])
  next
    case step
    have k: "i < ?k" "?k < n" using next_idx_bounds [OF step(1), of cmp d] step by auto
    have sw: "length (swap_at i ?k d) = length d" "drop n (swap_at i ?k d) = drop n d"
      "take n (swap_at i ?k d) = swap_at i ?k (take n d)"
      using swap_at_take [of i n ?k d] less k by (simp_all add: swap_at_props)
    then have "mset (take n (swap_at i ?k d)) = mset (take n d)"
      using less k by (simp add: swap_at_props)
    then show ?thesis using less(1) [of ?k "swap_at i ?k d"] less(2,3) k sw step
      by (simp add: down_heap.simps [of cmp d i n] Let_def)
  qed
qed


lemma build_heap_take:
  "i < n \<Longrightarrow> n \<le> length d \<Longrightarrow>
     length (build_heap cmp n d i) = length d \<and> drop n (build_heap cmp n d i) = drop n d \<and>
     mset (take n (build_heap cmp n d i)) = mset (take n d)"
  by (induction i arbitrary: d) (auto simp: down_heap_take)

context comparison
begin

lemma heap_but_Suc: "heap cmp d (Suc i) n \<Longrightarrow> heap_but cmp d i n i"
  unfolding heap_def heap_but_def
proof (intro conjI allI impI)
  fix j assume h: "\<forall>j. 0 < j \<and> j < n \<and> Suc i \<le> (j - 1) div 2 \<longrightarrow> cmp (d ! j) (d ! ((j - 1) div 2)) \<le> 0"
    and j: "0 < j \<and> j < n \<and> i \<le> (j - 1) div 2 \<and> (j - 1) div 2 \<noteq> i"
  from j have "Suc i \<le> (j - 1) div 2" by linarith
  with h j show "cmp (d ! j) (d ! ((j - 1) div 2)) \<le> 0" by blast
next
  fix j assume "0 < j \<and> j < n \<and> (j - 1) div 2 = i \<and> 0 < i \<and> i \<le> (i - 1) div 2"
  moreover have "0 < i \<Longrightarrow> (i - 1) div 2 < i" by simp
  ultimately show "cmp (d ! j) (d ! ((i - 1) div 2)) \<le> 0" by linarith
qed

lemma build_heap_heap:
  "heap cmp d (Suc i) n \<Longrightarrow> i < n \<Longrightarrow> n \<le> length d \<Longrightarrow> heap cmp (build_heap cmp n d i) 0 n"
proof (induction i arbitrary: d)
  case 0
  then show ?case using down_heap_heap [OF heap_but_Suc] by simp
next
  case (Suc i)
  then have "heap cmp (down_heap cmp d (Suc i) n) (Suc i) n"
    using down_heap_heap [OF heap_but_Suc] by simp
  then show ?case using Suc by (simp add: down_heap_take)
qed

lemma leaves_heap: "heap cmp d (Suc (parent_idx (n - 1))) n"
  unfolding heap_def parent_idx_def
proof (intro allI impI)
  fix j assume j: "0 < j \<and> j < n \<and> Suc ((n - 1 - 1) div 2) \<le> (j - 1) div 2"
  then have "j - 1 \<le> n - 1 - 1" by linarith
  then have "(j - 1) div 2 \<le> (n - 1 - 1) div 2" by (rule div_le_mono)
  with j show "cmp (d ! j) (d ! ((j - 1) div 2)) \<le> 0" by simp
qed

lemma heap_root:
  assumes "heap cmp d 0 n" "j < n"
  shows "cmp (d ! j) (d ! 0) \<le> 0"
  using assms(2)
proof (induction j rule: less_induct)
  case (less j)
  show ?case
  proof (cases "j = 0")
    case True
    then show ?thesis by (simp add: cmp_refl)
  next
    case False
    then have "(j - 1) div 2 < j" by simp
    then have "cmp (d ! ((j - 1) div 2)) (d ! 0) \<le> 0" using less by simp
    moreover have "cmp (d ! j) (d ! ((j - 1) div 2)) \<le> 0" using assms(1) less(2) False by (simp add: heap_def)
    ultimately show ?thesis using cmp_trans by blast
  qed
qed

abbreviation ordered :: "'b list \<Rightarrow> bool" where
  "ordered xs \<equiv> sorted_wrt (\<lambda>x y. cmp x y \<le> 0) xs"

text \<open>
  The invariant of the extraction: the first \<open>Suc i\<close> entries are a heap, the entries from there to
  \<open>n\<close> are in order and above all of them.
\<close>

lemma extract_step:
  assumes "heap cmp d 0 (Suc (Suc i))" "Suc i < length d"
  defines "d2 \<equiv> down_heap cmp (swap_at 0 (Suc i) d) 0 (Suc i)"
  shows "heap cmp d2 0 (Suc i)" "length d2 = length d" "drop (Suc i) d2 = d ! 0 # drop (Suc (Suc i)) d"
    "set (take (Suc i) d2) \<subseteq> set (take (Suc (Suc i)) d)"
    "Suc i < n \<Longrightarrow> n \<le> length d \<Longrightarrow> mset (take n d2) = mset (take n d)"
proof -
  define d1 where "d1 = swap_at 0 (Suc i) d"
  have nth: "d1 ! j = (if j = 0 then d ! Suc i else if j = Suc i then d ! 0 else d ! j)" for j
    unfolding d1_def using assms(2) by (intro swap_nth) auto
  have l1: "length d1 = length d" by (simp add: d1_def swap_at_props)
  have "heap_but cmp d1 0 (Suc i) 0"
    unfolding heap_but_def
  proof (intro conjI allI impI)
    fix j assume j: "0 < j \<and> j < Suc i \<and> 0 \<le> (j - 1) div 2 \<and> (j - 1) div 2 \<noteq> 0"
    then have "d1 ! j = d ! j" "d1 ! ((j - 1) div 2) = d ! ((j - 1) div 2)" by (auto simp: nth)
    then show "cmp (d1 ! j) (d1 ! ((j - 1) div 2)) \<le> 0" using assms(1) j by (simp add: heap_def)
  qed simp
  then show "heap cmp d2 0 (Suc i)" unfolding d2_def d1_def [symmetric]
    by (rule down_heap_heap) (use assms(2) l1 in auto)
  have t: "length d2 = length d1" "drop (Suc i) d2 = drop (Suc i) d1" "mset (take (Suc i) d2) = mset (take (Suc i) d1)"
    using down_heap_take [of 0 "Suc i" d1 cmp] assms(2) l1 by (auto simp: d2_def d1_def)
  show "length d2 = length d" using t l1 by simp
  have drop2: "drop (Suc (Suc i)) d1 = drop (Suc (Suc i)) d"
    unfolding d1_def by (rule swap_at_take) (use assms(2) in auto)
  show "drop (Suc i) d2 = d ! 0 # drop (Suc (Suc i)) d"
    using Cons_nth_drop_Suc [of "Suc i" d1] assms(2) l1 nth [of "Suc i"] drop2 t by simp
  have m: "mset (take k d1) = mset (take k d)" if "Suc i < k" "k \<le> length d" for k
    using swap_at_take(1) [of 0 k "Suc i" d] swap_at_props(2) [of 0 "take k d" "Suc i"] that by (simp add: d1_def)
  have "set (take (Suc i) d1) \<subseteq> set (take (Suc (Suc i)) d1)" by (rule set_take_subset_set_take) simp
  then show "set (take (Suc i) d2) \<subseteq> set (take (Suc (Suc i)) d)"
    using t(3) m [of "Suc (Suc i)"] assms(2) by (metis Suc_leI lessI mset_eq_setD)
  assume n: "Suc i < n" "n \<le> length d"
  have "take n x = take (Suc i) x @ take (n - Suc i) (drop (Suc i) x)" for x :: "'b list"
    using n take_add [of "Suc i" "n - Suc i" x] by simp
  then have "mset (take n d2) = mset (take n d1)" using t by (metis mset_append)
  then show "mset (take n d2) = mset (take n d)" using m n by simp
qed

lemma extract_loop_sorted:
  "heap cmp d 0 (Suc i) \<Longrightarrow> Suc i \<le> n \<Longrightarrow> n \<le> length d \<Longrightarrow>
     ordered (take (n - Suc i) (drop (Suc i) d)) \<Longrightarrow>
     \<forall>x \<in> set (take (Suc i) d). \<forall>y \<in> set (take (n - Suc i) (drop (Suc i) d)). cmp x y \<le> 0 \<Longrightarrow>
     ordered (take n (extract_loop cmp d i)) \<and> mset (take n (extract_loop cmp d i)) = mset (take n d) \<and>
     length (extract_loop cmp d i) = length d"
proof (induction i arbitrary: d)
  case 0
  have "take n d = take 1 d @ take (n - 1) (drop 1 d)"
    using 0(2) take_add [of 1 "n - 1" d] by simp
  moreover have "ordered (take 1 d)" by (cases d) simp_all
  ultimately show ?case using 0(4,5) by (simp add: sorted_wrt_append)
next
  case (Suc i)
  let ?d2 = "down_heap cmp (swap_at 0 (Suc i) d) 0 (Suc i)"
  let ?suf = "take (n - Suc (Suc i)) (drop (Suc (Suc i)) d)"
  have l: "Suc i < length d" using Suc.prems(2,3) by simp
  note step = extract_step [OF Suc.prems(1) l]
  have suf: "take (n - Suc i) (drop (Suc i) ?d2) = d ! 0 # ?suf"
    using Suc.prems(2) by (simp add: step(3) Suc_diff_Suc take_Cons')
  have root: "cmp x (d ! 0) \<le> 0" if "x \<in> set (take (Suc (Suc i)) d)" for x
    using that heap_root [OF Suc.prems(1)] l by (auto simp: in_set_conv_nth)
  have "d ! 0 \<in> set (take (Suc (Suc i)) d)" using l by (cases d) auto
  then have "ordered (take (n - Suc i) (drop (Suc i) ?d2))"
    using Suc.prems(4,5) unfolding suf by auto
  moreover have "\<forall>x \<in> set (take (Suc i) ?d2). \<forall>y \<in> set (take (n - Suc i) (drop (Suc i) ?d2)). cmp x y \<le> 0"
    using step(4) root Suc.prems(5) unfolding suf by auto
  ultimately show ?case
    using Suc.IH [OF step(1)] step(2) step(5) [of n] Suc.prems(2,3) by simp
qed

end


subsection \<open>Binary search\<close>

lemma find_append: "find P (xs @ ys) = (case find P xs of None \<Rightarrow> find P ys | Some x \<Rightarrow> Some x)"
  by (induction xs) auto

lemma find_none: "(\<And>x. x \<in> set xs \<Longrightarrow> \<not> P x) \<Longrightarrow> find P xs = None"
  by (auto simp: find_None_iff)

lemma find_hit: "x \<in> set xs \<Longrightarrow> P x \<Longrightarrow> find P (xs @ ys) = find P xs"
  by (auto simp: find_append find_None_iff split: option.splits)

text \<open>On a range whose signs never increase, the binary search is the linear search.\<close>

definition signs_fall :: "(nat \<Rightarrow> int) \<Rightarrow> nat \<Rightarrow> nat \<Rightarrow> bool" where
  "signs_fall c lo hi \<longleftrightarrow>
     (\<forall>i j. lo \<le> i \<longrightarrow> i \<le> j \<longrightarrow> j < hi \<longrightarrow> (c i < 0 \<longrightarrow> c j < 0) \<and> (0 < c j \<longrightarrow> 0 < c i))"

lemma signs_fallD:
  "signs_fall c lo hi \<Longrightarrow> lo \<le> i \<Longrightarrow> i \<le> j \<Longrightarrow> j < hi \<Longrightarrow> c i < 0 \<Longrightarrow> c j < 0"
  "signs_fall c lo hi \<Longrightarrow> lo \<le> i \<Longrightarrow> i \<le> j \<Longrightarrow> j < hi \<Longrightarrow> 0 < c j \<Longrightarrow> 0 < c i"
  by (simp_all add: signs_fall_def)

lemma signs_fall_sub: "signs_fall c lo hi \<Longrightarrow> lo \<le> lo' \<Longrightarrow> hi' \<le> hi \<Longrightarrow> signs_fall c lo' hi'"
  unfolding signs_fall_def by (meson le_trans less_le_trans)

lemma find_loop_linear:
  "signs_fall c lo hi \<Longrightarrow> find_loop c lo hi = find (\<lambda>i. c i = 0) [lo..<hi]"
proof (induction c lo hi rule: find_loop.induct)
  case (1 c lo hi)
  show ?case
  proof (cases "lo < hi")
    case False
    then show ?thesis by (simp add: find_loop.simps)
  next
    case True
    define mid where "mid = lo + (hi - lo - 1) div 2"
    have m: "lo \<le> mid" "mid < hi" using True by (auto simp: mid_def)
    have up: "[lo..<hi] = [lo..<mid + 1] @ [mid + 1..<hi]" "[lo..<hi] = [lo..<mid] @ [mid..<hi]"
      using m upt_add_eq_append [of lo "mid + 1" "hi - (mid + 1)"] upt_add_eq_append [of lo mid "hi - mid"]
      by simp_all
    have body: "find_loop c lo hi = (if c mid > 0 then find_loop c (mid + 1) hi
        else if c mid < 0 then find_loop c lo mid else if hi - lo = 1 then Some mid else find_loop c lo (mid + 1))"
      using True by (simp add: find_loop.simps [of c lo hi] Let_def mid_def)
    consider "c mid > 0" | "c mid < 0" | "c mid = 0" "hi - lo = 1" | "c mid = 0" "hi - lo \<noteq> 1" by linarith
    then show ?thesis
    proof cases
      case 1
      have "find (\<lambda>i. c i = 0) [lo..<mid + 1] = None"
      proof (rule find_none)
        fix x assume "x \<in> set [lo..<mid + 1]"
        then have "0 < c x" using signs_fallD(2) [OF "1.prems", of x mid] m 1 by auto
        then show "c x \<noteq> 0" by simp
      qed
      moreover have "find_loop c (mid + 1) hi = find (\<lambda>i. c i = 0) [mid + 1..<hi]"
        by (rule "1.IH"(1) [OF True mid_def refl 1]) (use signs_fall_sub [OF "1.prems"] m in simp)
      ultimately show ?thesis using 1 unfolding body up(1) by (simp add: find_append)
    next
      case 2
      have "find (\<lambda>i. c i = 0) [mid..<hi] = None"
      proof (rule find_none)
        fix x assume "x \<in> set [mid..<hi]"
        then have "c x < 0" using signs_fallD(1) [OF "1.prems", of mid x] m 2 by simp
        then show "c x \<noteq> 0" by simp
      qed
      moreover have "find_loop c lo mid = find (\<lambda>i. c i = 0) [lo..<mid]"
        by (rule "1.IH"(2) [OF True mid_def refl]) (use signs_fall_sub [OF "1.prems"] m 2 in simp_all)
      ultimately show ?thesis using 2 unfolding body up(2) by (simp add: find_append split: option.splits)
    next
      case 3
      then have "[lo..<hi] = [mid]" using m by (simp add: upt_rec)
      then show ?thesis using 3 unfolding body by simp
    next
      case 4
      have "find_loop c lo (mid + 1) = find (\<lambda>i. c i = 0) [lo..<mid + 1]"
        by (rule "1.IH"(3) [OF True mid_def refl]) (use signs_fall_sub [OF "1.prems"] m 4 in simp_all)
      moreover have "find (\<lambda>i. c i = 0) [lo..<hi] = find (\<lambda>i. c i = 0) [lo..<mid + 1]"
        unfolding up(1) by (rule find_hit [of mid]) (use 4 m in auto)
      ultimately show ?thesis using 4 unfolding body by simp
    qed
  qed
qed

context comparison
begin

lemma find_sorted:
  assumes "ordered (take n xs)" "n \<le> length xs"
  shows "find_loop (\<lambda>i. cmp p (xs ! i)) 0 n = find (\<lambda>i. cmp p (xs ! i) = 0) [0..<n]"
proof (rule find_loop_linear, unfold signs_fall_def, intro allI impI)
  fix i j assume ij: "0 \<le> i" "i \<le> j" "j < n"
  have le: "cmp (xs ! i) (xs ! j) \<le> 0"
    using assms ij cmp_refl by (cases "i = j") (auto simp: sorted_wrt_iff_nth_less)
  have "cmp p (xs ! j) < 0" if "cmp p (xs ! i) < 0"
    using that le cmp_trans [of "xs ! j" p "xs ! i"] flip [of p "xs ! i"] not_less [of p "xs ! j"]
      cmp_trans [of "xs ! i" "xs ! j" p] by linarith
  moreover have "0 < cmp p (xs ! i)" if "0 < cmp p (xs ! j)"
    using that le cmp_trans [of p "xs ! i" "xs ! j"] by linarith
  ultimately show "(cmp p (xs ! i) < 0 \<longrightarrow> cmp p (xs ! j) < 0) \<and> (0 < cmp p (xs ! j) \<longrightarrow> 0 < cmp p (xs ! i))"
    by blast
qed

lemma heap_sort:
  assumes "2 \<le> n" "n \<le> length d"
  defines "r \<equiv> extract_loop cmp (build_heap cmp n d (parent_idx (n - 1))) (n - 1)"
  shows "ordered (take n r)" "mset (take n r) = mset (take n d)" "length r = length d"
proof -
  let ?b = "build_heap cmp n d (parent_idx (n - 1))"
  have i: "parent_idx (n - 1) < n" using assms(1) by (auto simp: parent_idx_def)
  note t = build_heap_take [OF i assms(2), of cmp]
  have h: "heap cmp ?b 0 (Suc (n - 1))" using build_heap_heap [OF leaves_heap i assms(2)] assms(1) by simp
  have "ordered (take n r) \<and> mset (take n r) = mset (take n ?b) \<and> length r = length ?b"
    unfolding r_def by (rule extract_loop_sorted [OF h]) (use assms t in auto)
  then show "ordered (take n r)" "mset (take n r) = mset (take n d)" "length r = length d" using t by simp_all
qed

end


subsection \<open>The stack as a list\<close>

definition sk_inv :: "'a stack_st \<Rightarrow> bool" where
  "sk_inv s \<longleftrightarrow> num s < num_alloc s \<and> length (sk_data s) = num_alloc s \<and> num s \<le> INT_MAX"

definition sk_list :: "'a stack_st \<Rightarrow> 'a option list" where
  "sk_list s = take (num s) (sk_data s)"

lemma length_sk_list: "sk_inv s \<Longrightarrow> length (sk_list s) = num s"
  by (simp add: sk_inv_def sk_list_def)

lemma sk_list_nth: "i < num s \<Longrightarrow> sk_data s ! i = sk_list s ! i"
  by (simp add: sk_list_def)

lemma sk_new_spec:
  "OPENSSL_sk_new ok al c = Some s \<Longrightarrow> sk_inv s \<and> sk_list s = [] \<and> sk_comp s = c \<and> \<not> sorted_flag s"
  by (auto simp: OPENSSL_sk_new_def sk_inv_def sk_list_def split: if_splits option.splits)

lemma sk_value_spec:
  "sk_inv s \<Longrightarrow> OPENSSL_sk_value (Some s) i = (if i < length (sk_list s) then sk_list s ! i else None)"
  by (simp add: OPENSSL_sk_value_def length_sk_list sk_list_nth)

lemma sk_zero_spec:
  "sk_inv s \<Longrightarrow> \<exists>s'. OPENSSL_sk_zero (Some s) = Some s' \<and> sk_inv s' \<and> sk_list s' = []"
  by (auto simp: OPENSSL_sk_zero_def sk_inv_def sk_list_def)

lemma sk_set_spec:
  "sk_inv s \<Longrightarrow> i < num s \<Longrightarrow> \<exists>s'. OPENSSL_sk_set (Some s) i v = (v, Some s') \<and> sk_inv s' \<and> sk_list s' = (sk_list s)[i := v]"
  by (auto simp: OPENSSL_sk_set_def sk_inv_def sk_list_def take_update_swap)

lemma sk_delete_spec:
  assumes "sk_inv s" "pos < num s"
  shows "\<exists>s'. OPENSSL_sk_delete (Some s) pos = (sk_list s ! pos, Some s') \<and> sk_inv s' \<and>
     sk_list s' = take pos (sk_list s) @ drop (Suc pos) (sk_list s) \<and>
     sorted_flag s' = sorted_flag s \<and> sk_comp s' = sk_comp s"
proof -
  let ?d = "sk_data s" and ?n = "num s"
  have "take (?n - 1) (write_at ?d pos (take (?n - pos - 1) (drop (pos + 1) ?d))) =
      take pos (take ?n ?d) @ drop (Suc pos) (take ?n ?d)"
  proof -
    have "num s - Suc 0 \<le> pos \<Longrightarrow> pos = num s - Suc 0" using assms by simp
    then show ?thesis using assms by (auto simp: write_at_def sk_inv_def drop_take min_def)
  qed
  moreover have "pos = ?n - 1 \<Longrightarrow> take (?n - 1) ?d = take pos (take ?n ?d) @ drop (Suc pos) (take ?n ?d)"
    using assms by (simp add: sk_inv_def min_def)
  ultimately show ?thesis using assms
    by (auto simp: OPENSSL_sk_delete_def sk_inv_def sk_list_def Let_def)
qed

lemma sk_delete_out: "num s \<le> pos \<Longrightarrow> OPENSSL_sk_delete (Some s) pos = (None, Some s)"
  by (simp add: OPENSSL_sk_delete_def)

lemma sk_new_alloc_spec:
  assumes "n \<le> INT_MAX + 1" "0 < n"
  shows "sk_new_alloc n = Some (2 * n)"
  using assms by (simp add: sk_new_alloc_def Let_def)

text \<open>Growing keeps the contents; it fails only when the allocator does.\<close>

lemma sk_grow_spec:
  assumes "sk_inv s" "ptr_allocates al" "num s < INT_MAX"
  shows "sk_grow al s = None \<and> al (8 * (2 * num_alloc s)) = None \<or>
     (\<exists>s1. sk_grow al s = Some s1 \<and> num s1 = num s \<and> sk_comp s1 = sk_comp s \<and> num s + 1 < num_alloc s1 \<and>
        length (sk_data s1) = num_alloc s1 \<and> take (num s) (sk_data s1) = sk_list s)"
proof (cases "num_alloc s \<le> num s + 1")
  case False
  then show ?thesis using assms by (simp add: sk_grow_def sk_inv_def sk_list_def)
next
  case True
  then have n: "num_alloc s = num s + 1" "0 < num_alloc s" "num_alloc s \<le> INT_MAX" using assms by (auto simp: sk_inv_def)
  then have na: "sk_new_alloc (num_alloc s) = Some (2 * num_alloc s)" by (intro sk_new_alloc_spec) auto
  have sz: "2 * num_alloc s * 8 mod size_mod = 8 * (2 * num_alloc s)" using n by simp
  show ?thesis
  proof (cases "al (8 * (2 * num_alloc s))")
    case None
    then show ?thesis using True na sz by (simp add: sk_grow_def)
  next
    case (Some b)
    then have b: "length b = 2 * num_alloc s" using assms(2) by (auto simp: ptr_allocates_def)
    define s1 where "s1 = s\<lparr>sk_data := take (length b) (sk_data s) @ drop (length (sk_data s)) b, num_alloc := 2 * num_alloc s\<rparr>"
    have "sk_grow al s = Some s1" using True na sz Some by (simp add: sk_grow_def s1_def)
    moreover have "num s1 = num s" "sk_comp s1 = sk_comp s" "num s + 1 < num_alloc s1" using n by (simp_all add: s1_def)
    moreover have "length (sk_data s1) = num_alloc s1" "take (num s) (sk_data s1) = sk_list s"
      using b assms(1) by (simp_all add: s1_def sk_inv_def sk_list_def)
    ultimately show ?thesis by blast
  qed
qed

lemma sk_insert_spec:
  assumes "sk_inv s" "ptr_allocates al"
  shows "OPENSSL_sk_insert al (Some s) p pos = (0, Some s) \<and>
      (INT_MAX \<le> num s \<or> al (8 * (2 * num_alloc s)) = None) \<or>
     (\<exists>s'. OPENSSL_sk_insert al (Some s) p pos = (num s + 1, Some s') \<and> sk_inv s' \<and> num s' = num s + 1 \<and>
        sk_list s' = take pos (sk_list s) @ [p] @ drop pos (sk_list s) \<and>
        \<not> sorted_flag s' \<and> sk_comp s' = sk_comp s)"
proof (cases "num s < INT_MAX")
  case False
  then show ?thesis by (simp add: OPENSSL_sk_insert_def)
next
  case True
  from sk_grow_spec [OF assms True] show ?thesis
  proof (elim disjE exE conjE)
    assume "sk_grow al s = None" "al (8 * (2 * num_alloc s)) = None"
    then show ?thesis using True by (simp add: OPENSSL_sk_insert_def)
  next
    fix s1 assume g: "sk_grow al s = Some s1" "num s1 = num s" "sk_comp s1 = sk_comp s" "num s + 1 < num_alloc s1"
      "length (sk_data s1) = num_alloc s1" "take (num s) (sk_data s1) = sk_list s"
    define d where "d = (if num s \<le> pos then (sk_data s1)[num s := p]
      else (write_at (sk_data s1) (pos + 1) (take (num s - pos) (drop pos (sk_data s1))))[pos := p])"
    have "take (num s + 1) d = take pos (sk_list s) @ [p] @ drop pos (sk_list s)"
    proof (cases "num s \<le> pos")
      case True
      then show ?thesis using g assms by (simp add: d_def take_Suc_conv_app_nth length_sk_list)
    next
      case False
      have "write_at (sk_data s1) (pos + 1) (take (num s - pos) (drop pos (sk_data s1))) =
          take pos (sk_data s1) @ sk_data s1 ! pos # take (num s - pos) (drop pos (sk_data s1)) @ drop (num s + 1) (sk_data s1)"
        using False g by (simp add: write_at_def take_Suc_conv_app_nth)
      then have "d = take pos (sk_data s1) @ p # take (num s - pos) (drop pos (sk_data s1)) @ drop (num s + 1) (sk_data s1)"
        using False g by (simp add: d_def list_update_append)
      moreover have "take (num s - pos) (drop pos (sk_data s1)) = drop pos (sk_list s)"
        "take pos (sk_data s1) = take pos (sk_list s)"
        using False by (simp_all add: drop_take min_def flip: g(6))
      ultimately show ?thesis using False length_sk_list [OF assms(1)] by (simp add: Suc_diff_le)
    qed
    moreover have "length d = num_alloc s1" using g by (simp add: d_def)
    moreover have "OPENSSL_sk_insert al (Some s) p pos =
        (num s + 1, Some (s1\<lparr>sk_data := d, num := num s + 1, sorted_flag := False\<rparr>))"
      using True g by (simp add: OPENSSL_sk_insert_def Let_def d_def)
    ultimately show ?thesis using g True by (simp add: sk_inv_def sk_list_def)
  qed
qed


lemma sk_push_spec: "OPENSSL_sk_push al (Some s) p = Ret (OPENSSL_sk_insert al (Some s) p (num s))"
  by (simp add: OPENSSL_sk_push_def)

lemma delete_if_loop_spec:
  "j \<le> i \<Longrightarrow> i \<le> n \<Longrightarrow> n \<le> length d \<Longrightarrow>
     (case delete_if_loop f [i..<n] d j of (d', m) \<Rightarrow>
        length d' = length d \<and> m \<le> n \<and> take m d' = take j d @ filter (\<lambda>x. \<not> f x) (drop i (take n d)))"
proof (induction "n - i" arbitrary: i j d)
  case 0
  then show ?case by simp
next
  case (Suc k)
  then have i: "i < n" by simp
  then have upt: "[i..<n] = i # [Suc i..<n]" by (simp add: upt_rec)
  have dr: "drop i (take n d) = d ! i # drop (Suc i) (take n d)"
    using i Suc.prems(3) by (simp add: Cons_nth_drop_Suc [symmetric])
  have k: "k = n - Suc i" using Suc(2) by simp
  show ?case
  proof (cases "f (d ! i)")
    case True
    then show ?thesis using Suc(1) [OF k, of j d] Suc.prems i by (simp add: upt dr)
  next
    case False
    let ?d = "d[j := d ! i]"
    have "drop (Suc i) (take n ?d) = drop (Suc i) (take n d)" using Suc.prems(1) by (simp add: drop_take)
    moreover have "take (Suc j) ?d = take j d @ [d ! i]"
      using Suc.prems i by (simp add: take_Suc_conv_app_nth)
    ultimately show ?thesis using Suc(1) [OF k, of "Suc j" ?d] Suc.prems i False by (simp add: upt dr split: prod.splits)
  qed
qed

lemma sk_delete_if_spec:
  assumes "sk_inv s"
  shows "\<exists>s'. OPENSSL_sk_delete_if f (Some s) = Some s' \<and> sk_inv s' \<and>
     sk_list s' = filter (\<lambda>x. \<not> f x) (sk_list s) \<and> sorted_flag s' = sorted_flag s \<and> sk_comp s' = sk_comp s"
proof -
  obtain d m where l: "delete_if_loop f [0..<num s] (sk_data s) 0 = (d, m)" by fastforce
  then show ?thesis using delete_if_loop_spec [of 0 0 "num s" "sk_data s" f] assms
    by (auto simp: OPENSSL_sk_delete_if_def sk_inv_def sk_list_def)
qed

lemma sk_search_spec:
  "sk_search stop s = find (\<lambda>i. stop (sk_list s ! i)) [0..<num s]"
proof -
  have "map (\<lambda>i. stop (sk_data s ! i)) [0..<num s] = map (\<lambda>i. stop (sk_list s ! i)) [0..<num s]"
    by (simp add: sk_list_nth)
  moreover have "find P xs = find Q xs" if "map P xs = map Q xs" for P Q and xs :: "nat list"
    using that by (induction xs) auto
  ultimately show ?thesis unfolding sk_search_def by blast
qed

lemma find_upt_Some:
  "find P [0..<n] = Some i \<longleftrightarrow> i < n \<and> P i \<and> (\<forall>j<i. \<not> P j)"
  by (auto simp: find_Some_iff)

text \<open>What the flag means: the entries are in the order of the comparison function.\<close>

definition sk_ordered :: "'a cmp_func \<Rightarrow> 'a stack_st \<Rightarrow> bool" where
  "sk_ordered call s \<longleftrightarrow> sorted_wrt (\<lambda>x y. call (sk_comp s) x y \<le> 0) (sk_list s)"

lemma sk_find_spec:
  assumes "sk_inv s" "comparison (call (sk_comp s))" "sorted_flag s \<Longrightarrow> sk_ordered call s"
  shows "OPENSSL_sk_find call (Some s) p =
     (if sk_comp s = 0 then find (\<lambda>i. sk_list s ! i = p) [0..<num s]
      else if p = None then None
      else find (\<lambda>i. call (sk_comp s) p (sk_list s ! i) = 0) [0..<num s])"
proof -
  have "sorted_wrt (\<lambda>x y. call (sk_comp s) x y \<le> 0) (take (num s) (sk_data s))"
    if "OPENSSL_sk_is_sorted (Some s)"
  proof (cases "sorted_flag s")
    case True
    then show ?thesis using assms(3) by (simp add: sk_ordered_def sk_list_def)
  next
    case False
    then have "num s < 2" using that by (simp add: OPENSSL_sk_is_sorted_def)
    then show ?thesis by (cases "num s"; cases "sk_data s") simp_all
  qed
  then have "find_loop (\<lambda>i. call (sk_comp s) p (sk_data s ! i)) 0 (num s) =
      sk_search (\<lambda>x. call (sk_comp s) p x = 0) s" if "OPENSSL_sk_is_sorted (Some s)"
    using comparison.find_sorted [OF assms(2), of "num s" "sk_data s" p] that assms(1)
    by (simp add: sk_search_def sk_inv_def)
  then show ?thesis by (auto simp: OPENSSL_sk_find_def sk_search_spec)
qed

lemma sk_sort_spec:
  assumes "sk_inv s" "comparison (call (sk_comp s))" "sorted_flag s \<Longrightarrow> sk_ordered call s" "sk_comp s \<noteq> 0"
  shows "\<exists>s'. OPENSSL_sk_sort call (Some s) = Some s' \<and> sk_inv s' \<and> sk_ordered call s' \<and> sorted_flag s' \<and>
     mset (sk_list s') = mset (sk_list s) \<and> sk_comp s' = sk_comp s"
proof (cases "sorted_flag s")
  case True
  then show ?thesis using assms by (simp add: OPENSSL_sk_sort_def)
next
  case unsorted: False
  show ?thesis
  proof (cases "2 \<le> num s")
    case True
    then show ?thesis using comparison.heap_sort [OF assms(2) True, of "sk_data s"] assms unsorted
      by (simp add: OPENSSL_sk_sort_def Let_def sk_inv_def sk_list_def sk_ordered_def)
  next
    case False
    then have "num s < 2" by simp
    then have "sorted_wrt (\<lambda>x y. call (sk_comp s) x y \<le> 0) (take (num s) (sk_data s))"
      by (cases "num s"; cases "sk_data s") simp_all
    then show ?thesis using False assms unsorted
      by (simp add: OPENSSL_sk_sort_def Let_def sk_inv_def sk_list_def sk_ordered_def)
  qed
qed

lemma sk_dup_spec:
  assumes "sk_inv s" "ptr_allocates al" "OPENSSL_sk_dup ok al (Some s) = Some s'"
  shows "sk_inv s' \<and> sk_list s' = sk_list s \<and> sorted_flag s' = sorted_flag s \<and> sk_comp s' = sk_comp s"
  using assms by (auto simp: OPENSSL_sk_dup_def sk_inv_def sk_list_def ptr_allocates_def write_at_def
      split: if_splits option.splits)

lemma deep_copy_loop_spec:
  "deep_copy_loop cpy xs acc =
     (if \<forall>x \<in> set xs. \<forall>y. x = Some y \<longrightarrow> cpy y \<noteq> None
      then Inr (acc @ map (\<lambda>x. Option.bind x cpy) xs)
      else Inl (map the (filter (\<lambda>p. p \<noteq> None) (acc @ map (\<lambda>x. Option.bind x cpy)
             (takeWhile (\<lambda>x. \<forall>y. x = Some y \<longrightarrow> cpy y \<noteq> None) xs)))))"
  by (induction cpy xs acc rule: deep_copy_loop.induct) (auto split: option.splits)


subsection \<open>Reachable stacks\<close>

text \<open>The operations that keep the order of the elements or clear the \<open>sorted\<close> flag.\<close>

inductive sk_step :: "'a cmp_func \<Rightarrow> 'a ptr_allocator \<Rightarrow> 'a stack_st \<Rightarrow> 'a stack_st \<Rightarrow> bool" for call al where
  zero: "OPENSSL_sk_zero (Some s) = Some s' \<Longrightarrow> sk_step call al s s'"
| insert: "OPENSSL_sk_insert al (Some s) p pos = (r, Some s') \<Longrightarrow> sk_step call al s s'"
| push: "OPENSSL_sk_push al (Some s) p = Ret (r, Some s') \<Longrightarrow> sk_step call al s s'"
| delete: "OPENSSL_sk_delete (Some s) pos = (v, Some s') \<Longrightarrow> sk_step call al s s'"
| delete_ptr: "OPENSSL_sk_delete_ptr (Some s) p = (v, Some s') \<Longrightarrow> sk_step call al s s'"
| delete_if: "OPENSSL_sk_delete_if f (Some s) = Some s' \<Longrightarrow> sk_step call al s s'"
| shift: "OPENSSL_sk_shift (Some s) = (v, Some s') \<Longrightarrow> sk_step call al s s'"
| pop: "OPENSSL_sk_pop (Some s) = (v, Some s') \<Longrightarrow> sk_step call al s s'"
| sort: "OPENSSL_sk_sort call (Some s) = Some s' \<Longrightarrow> sk_step call al s s'"
| set_cmp_func: "OPENSSL_sk_set_cmp_func s c = (old, s') \<Longrightarrow> sk_step call al s s'"
| dup: "OPENSSL_sk_dup ok al (Some s) = Some s' \<Longrightarrow> sk_step call al s s'"

text \<open>A copy function that keeps the order of the pointers it copies.\<close>

definition keeps_order :: "('a option \<Rightarrow> 'a option \<Rightarrow> int) \<Rightarrow> ('a \<Rightarrow> 'a option) \<Rightarrow> bool" where
  "keeps_order c cpy \<longleftrightarrow>
     (\<forall>x y. (\<forall>z. x = Some z \<or> y = Some z \<longrightarrow> cpy z \<noteq> None) \<longrightarrow> c x y \<le> 0 \<longrightarrow> c (Option.bind x cpy) (Option.bind y cpy) \<le> 0)"

text \<open>
  All the operations that make or change a stack. The flag \<open>stale\<close> says that the order may be broken:
  since the \<open>sorted\<close> flag of the stack was last clear, \<open>OPENSSL_sk_set\<close> has replaced an element, or
  \<open>OPENSSL_sk_deep_copy\<close> has copied with a function that does not keep the order.
\<close>

inductive sk_reach :: "'a cmp_func \<Rightarrow> 'a ptr_allocator \<Rightarrow> bool \<Rightarrow> 'a stack_st \<Rightarrow> bool" for call al where
  new: "OPENSSL_sk_new ok al c = Some s \<Longrightarrow> sk_reach call al False s"
| step: "sk_reach call al stale s \<Longrightarrow> sk_step call al s s' \<Longrightarrow> sk_reach call al (stale \<and> sorted_flag s') s'"
| set: "sk_reach call al stale s \<Longrightarrow> OPENSSL_sk_set (Some s) i v = (r, Some s') \<Longrightarrow> sk_reach call al (sorted_flag s') s'"
| deep_copy: "sk_reach call al stale s \<Longrightarrow> OPENSSL_sk_deep_copy ok al cpy (Some s) = (freed, Some s') \<Longrightarrow>
    sk_reach call al ((stale \<or> \<not> keeps_order (call (sk_comp s)) cpy) \<and> sorted_flag s') s'"

definition sk_good :: "'a cmp_func \<Rightarrow> 'a stack_st \<Rightarrow> bool" where
  "sk_good call s \<longleftrightarrow> sk_inv s \<and> (sorted_flag s \<longrightarrow> sk_comp s \<noteq> 0 \<and> sk_ordered call s)"

lemma good_insert:
  assumes "sk_good call s" "ptr_allocates al" "OPENSSL_sk_insert al (Some s) p pos = (r, Some s')"
  shows "sk_good call s'"
  using sk_insert_spec [of s al p pos] assms by (auto simp: sk_good_def)

lemma sorted_wrt_delete: "sorted_wrt R xs \<Longrightarrow> sorted_wrt R (take n xs @ drop (Suc n) xs)"
proof -
  assume "sorted_wrt R xs"
  then have "sorted_wrt R (take n xs @ drop n xs)" by simp
  moreover have "drop (Suc n) xs = tl (drop n xs)" by (simp add: drop_Suc tl_drop)
  ultimately show ?thesis by (cases "drop n xs") (simp_all add: sorted_wrt_append)
qed

lemma good_delete:
  assumes "sk_good call s" "OPENSSL_sk_delete (Some s) pos = (v, Some s')"
  shows "sk_good call s'"
proof (cases "pos < num s")
  case True
  then obtain s'' where "OPENSSL_sk_delete (Some s) pos = (sk_list s ! pos, Some s'')" "sk_inv s''"
    "sk_list s'' = take pos (sk_list s) @ drop (Suc pos) (sk_list s)"
    "sorted_flag s'' = sorted_flag s" "sk_comp s'' = sk_comp s"
    using sk_delete_spec assms(1) by (metis sk_good_def)
  then show ?thesis using assms sorted_wrt_delete by (fastforce simp: sk_good_def sk_ordered_def)
next
  case False
  then show ?thesis using assms by (simp add: sk_delete_out)
qed

lemma good_delete_if:
  assumes "sk_good call s" "OPENSSL_sk_delete_if f (Some s) = Some s'"
  shows "sk_good call s'"
  using sk_delete_if_spec [of s f] assms by (auto simp: sk_good_def sk_ordered_def sorted_wrt_filter)

lemma good_sort:
  assumes "sk_good call s" "\<And>c. c \<noteq> 0 \<Longrightarrow> comparison (call c)" "OPENSSL_sk_sort call (Some s) = Some s'"
  shows "sk_good call s'"
proof (cases "sk_comp s = 0")
  case True
  then show ?thesis using assms by (simp add: OPENSSL_sk_sort_def)
next
  case False
  then show ?thesis using sk_sort_spec [of s call] assms by (auto simp: sk_good_def)
qed

lemma good_step:
  assumes "ptr_allocates al" "\<And>c. c \<noteq> 0 \<Longrightarrow> comparison (call c)" "sk_step call al s s'" "sk_good call s"
  shows "sk_good call s'"
  using assms(3,4)
proof (cases rule: sk_step.cases)
  case zero
  then show ?thesis using assms(4) by (auto simp: sk_good_def sk_inv_def OPENSSL_sk_zero_def split: if_splits)
next
  case push
  then show ?thesis using good_insert [OF assms(4,1)] by (simp add: sk_push_spec)
next
  case delete_ptr
  then show ?thesis using good_delete assms(4) by (auto simp: OPENSSL_sk_delete_ptr_def split: option.splits)
next
  case shift
  then show ?thesis using good_delete assms(4) by (auto simp: OPENSSL_sk_shift_def split: if_splits)
next
  case pop
  then show ?thesis using good_delete assms(4) by (auto simp: OPENSSL_sk_pop_def split: if_splits)
next
  case set_cmp_func
  then show ?thesis using assms(4)
    by (auto simp: OPENSSL_sk_set_cmp_func_def sk_good_def sk_inv_def sk_ordered_def sk_list_def split: if_splits)
next
  case dup
  then show ?thesis using sk_dup_spec [OF _ assms(1)] assms(4) by (fastforce simp: sk_good_def sk_ordered_def)
next
  case insert
  then show ?thesis using good_insert [OF assms(4,1)] by blast
next
  case delete
  then show ?thesis using good_delete [OF assms(4)] by blast
next
  case delete_if
  then show ?thesis using good_delete_if [OF assms(4)] by blast
next
  case sort
  then show ?thesis using good_sort [OF assms(4,2)] by blast
qed

text \<open>The invariant alone needs no order: it is \<open>sk_good\<close> with the flag cleared.\<close>

lemma inv_step:
  assumes "ptr_allocates al" "\<And>c. c \<noteq> 0 \<Longrightarrow> comparison (call c)" "sk_step call al s s'" "sk_inv s"
  shows "sk_inv s'"
proof -
  have del: "OPENSSL_sk_delete (Some s) pos = (v, Some s') \<Longrightarrow> sk_inv s'" for pos v
    using sk_delete_spec [OF assms(4), of pos] sk_delete_out [of s pos] assms(4) by (cases "pos < num s") auto
  have ins: "OPENSSL_sk_insert al (Some s) p pos = (r, Some s') \<Longrightarrow> sk_inv s'" for p pos r
    using sk_insert_spec [of s al p pos] assms(1,4) by auto
  have del_if: "OPENSSL_sk_delete_if f (Some s) = Some s' \<Longrightarrow> sk_inv s'" for f
    using sk_delete_if_spec [OF assms(4), of f] by auto
  show ?thesis
    using assms(3)
  proof (cases rule: sk_step.cases)
    case sort
    show ?thesis
    proof (cases "sorted_flag s")
      case True
      then show ?thesis using sort assms(4) by (auto simp: OPENSSL_sk_sort_def split: if_splits)
    next
      case False
      then have "sk_good call s" using assms(4) by (simp add: sk_good_def)
      from good_sort [OF this assms(2) sort] show ?thesis by (simp add: sk_good_def)
    qed
  next
    case dup
    then show ?thesis using sk_dup_spec [OF assms(4,1)] by blast
  next
    case delete_if
    then show ?thesis by (rule del_if)
  qed (use assms(4) del ins sk_zero_spec [OF assms(4)] in
    \<open>auto simp: sk_push_spec OPENSSL_sk_delete_ptr_def OPENSSL_sk_shift_def OPENSSL_sk_pop_def OPENSSL_sk_set_cmp_func_def sk_inv_def
      split: option.splits if_splits\<close>)
qed

lemma deep_copy_spec:
  assumes "sk_inv s" "ptr_allocates al" "OPENSSL_sk_deep_copy ok al cpy (Some s) = (freed, Some s')"
  shows "sk_inv s'" "sk_list s' = map (\<lambda>x. Option.bind x cpy) (sk_list s)" "sorted_flag s' = sorted_flag s"
    "sk_comp s' = sk_comp s" "\<forall>x \<in> set (sk_list s). \<forall>y. x = Some y \<longrightarrow> cpy y \<noteq> None"
proof -
  obtain t cs where t: "OPENSSL_sk_dup ok al (Some s) = Some t" "deep_copy_loop cpy (sk_list t) [] = Inr cs"
    "s' = t\<lparr>sk_data := write_at (sk_data t) 0 cs\<rparr>"
    using assms(3) by (auto simp: OPENSSL_sk_deep_copy_def sk_list_def split: option.splits sum.splits)
  note d = sk_dup_spec [OF assms(1,2) t(1)]
  have cs: "cs = map (\<lambda>x. Option.bind x cpy) (sk_list s)" "\<forall>x \<in> set (sk_list s). \<forall>y. x = Some y \<longrightarrow> cpy y \<noteq> None"
    using t(2) d unfolding deep_copy_loop_spec by (auto split: if_splits)
  have l: "length cs = num t" using cs(1) d length_sk_list [of t] by simp
  then show "sk_inv s'" using d t(3) by (auto simp: sk_inv_def)
  show "sk_list s' = map (\<lambda>x. Option.bind x cpy) (sk_list s)"
    using l cs(1) t(3) by (simp add: sk_list_def write_at_def)
  show "sorted_flag s' = sorted_flag s" "sk_comp s' = sk_comp s" using d t(3) by simp_all
  show "\<forall>x \<in> set (sk_list s). \<forall>y. x = Some y \<longrightarrow> cpy y \<noteq> None" by (rule cs(2))
qed

lemma good_deep_copy:
  assumes "sk_good call s" "ptr_allocates al" "OPENSSL_sk_deep_copy ok al cpy (Some s) = (freed, Some s')"
    and "sorted_flag s \<longrightarrow> keeps_order (call (sk_comp s)) cpy"
  shows "sk_good call s'"
proof -
  note d = deep_copy_spec [OF _ assms(2,3)]
  have inv: "sk_inv s" using assms(1) by (simp add: sk_good_def)
  have "sk_ordered call s'" if "sorted_flag s"
  proof -
    let ?c = "call (sk_comp s)"
    have k: "keeps_order ?c cpy" and o: "sorted_wrt (\<lambda>x y. ?c x y \<le> 0) (sk_list s)"
      using that assms(1,4) by (simp_all add: sk_good_def sk_ordered_def)
    have "?c (Option.bind x cpy) (Option.bind y cpy) \<le> 0"
      if "x \<in> set (sk_list s)" "y \<in> set (sk_list s)" "?c x y \<le> 0" for x y
      using k [unfolded keeps_order_def, rule_format, of x y] d(5) [OF inv] that by metis
    then have "sorted_wrt (\<lambda>x y. ?c (Option.bind x cpy) (Option.bind y cpy) \<le> 0) (sk_list s)"
      using o by (rule sorted_wrt_mono_rel)
    then show ?thesis using d [OF inv] by (simp add: sk_ordered_def sorted_wrt_map)
  qed
  then show ?thesis using d [OF inv] assms(1) by (auto simp: sk_good_def)
qed

lemma sk_reach_good:
  assumes "ptr_allocates al" "\<And>c. c \<noteq> 0 \<Longrightarrow> comparison (call c)"
  shows "sk_reach call al stale s \<Longrightarrow> sk_inv s \<and> (\<not> stale \<longrightarrow> sk_good call s)"
proof (induction rule: sk_reach.induct)
  case (new ok c s)
  then show ?case using sk_new_spec [OF new] by (auto simp: sk_good_def)
next
  case (step stale s s')
  have "sk_inv s'" using inv_step [OF assms step.hyps(2)] step.IH by blast
  moreover have "sk_good call s'" if "\<not> (stale \<and> sorted_flag s')"
    using that step.IH good_step [OF assms step.hyps(2)] calculation by (cases stale) (simp_all add: sk_good_def [of call s'])
  ultimately show ?case by blast
next
  case (set stale s i v r s')
  then have "sk_inv s'" by (auto simp: OPENSSL_sk_set_def sk_inv_def split: if_splits)
  then show ?case by (simp add: sk_good_def)
next
  case (deep_copy stale s ok cpy freed s')
  have inv: "sk_inv s'" using deep_copy_spec(1) [OF _ assms(1) deep_copy.hyps(2)] deep_copy.IH by blast
  have f: "sorted_flag s' = sorted_flag s" using deep_copy_spec(3) [OF _ assms(1) deep_copy.hyps(2)] deep_copy.IH by blast
  show ?case
  proof (cases "sorted_flag s")
    case True
    have "sk_good call s'" if "\<not> stale" "keeps_order (call (sk_comp s)) cpy"
      using good_deep_copy [OF _ assms(1) deep_copy.hyps(2)] deep_copy.IH that by simp
    then show ?thesis using inv f True by simp
  next
    case False
    then show ?thesis using inv f by (simp add: sk_good_def)
  qed
qed

subsection \<open>An order from the source\<close>

lemma compare_neg: "compare_set_of_element a b < 0 \<longleftrightarrow> 0 < compare_set_of_element b a"
proof (induction a arbitrary: b)
  case Nil
  then show ?case by (cases b) (simp_all add: compare_set_of_element_def)
next
  case (Cons x a)
  show ?case
  proof (cases b)
    case (Cons y b')
    then show ?thesis using Cons.IH [of b']
      by (auto simp: compare_set_of_element_def Let_def)
  qed (simp add: compare_set_of_element_def)
qed

interpretation set_of_order: comparison compare_set_of_element
  by unfold_locales (use compare_neg memcmp_lex in \<open>auto\<close>)

lemma comparison_pullback: "comparison c \<Longrightarrow> comparison (\<lambda>x y. c (f x) (f y))"
  by (auto simp: comparison_def)

end
