(* ===== verification/Lhash.thy ===== *)
theory Lhash
  imports Mem "HOL-Library.Multiset"
begin

text \<open>
  \<open>crypto/lhash/lhash.c\<close>: the chained hash table. A chain is the list of its items, a pointer to
  a \<open>next\<close> field is a bucket index and a position in its chain. The hash and comparison functions
  that the table stores, which its callers reach through the \<open>call_*_func\<close> helpers, are
  arguments; \<open>ok n\<close> says whether an allocation of \<open>n\<close> bytes succeeds. \<open>sizeof(LHASH_ITEM *)\<close>
  is 8 and \<open>sizeof(LHASH_ITEM)\<close> is 24.
\<close>

record 'a lhash_item_st =
  item_data :: 'a
  item_hash :: u32

record 'a lhash_st =
  num_items :: nat
  buckets :: "'a lhash_item_st list list"
  num_buckets :: nat
  callback_depth :: nat

abbreviation kMinNumBuckets :: nat where "kMinNumBuckets \<equiv> 16"
abbreviation kMaxAverageChainLength :: nat where "kMaxAverageChainLength \<equiv> 2"
abbreviation kMinAverageChainLength :: nat where "kMinAverageChainLength \<equiv> 1"

definition OPENSSL_lh_new :: "(nat \<Rightarrow> bool) \<Rightarrow> bool \<Rightarrow> 'a lhash_st option" where
  "OPENSSL_lh_new ok struct_ok =
     (if \<not> struct_ok then None
      else if \<not> ok (8 * kMinNumBuckets) then None
      else Some \<lparr>num_items = 0, buckets = replicate kMinNumBuckets [], num_buckets = kMinNumBuckets,
                 callback_depth = 0\<rparr>)"

definition OPENSSL_lh_num_items :: "'a lhash_st \<Rightarrow> nat" where
  "OPENSSL_lh_num_items lh = num_items lh"

text \<open>How far a walk along a chain goes before it stops at an item.\<close>

definition chain_pos :: "('a \<Rightarrow> bool) \<Rightarrow> 'a lhash_item_st list \<Rightarrow> nat" where
  "chain_pos stop chain = length (takeWhile (\<lambda>cur. \<not> stop (item_data cur)) chain)"

definition get_next_ptr_and_hash ::
  "('a \<Rightarrow> u32) \<Rightarrow> ('a \<Rightarrow> 'a \<Rightarrow> int) \<Rightarrow> 'a lhash_st \<Rightarrow> 'a \<Rightarrow> u32 \<times> nat \<times> nat" where
  "get_next_ptr_and_hash hash cmp lh d =
     (let h = hash d; b = unat h mod num_buckets lh
      in (h, b, chain_pos (\<lambda>x. cmp x d = 0) (buckets lh ! b)))"

definition get_next_ptr_by_key :: "'a lhash_st \<Rightarrow> u32 \<Rightarrow> ('a \<Rightarrow> int) \<Rightarrow> nat \<times> nat" where
  "get_next_ptr_by_key lh key_hash cmp_key =
     (let b = unat key_hash mod num_buckets lh
      in (b, chain_pos (\<lambda>x. cmp_key x = 0) (buckets lh ! b)))"

text \<open>Reading through the pointer: \<open>None\<close> is NULL.\<close>

definition item_at :: "'a lhash_st \<Rightarrow> nat \<Rightarrow> nat \<Rightarrow> 'a lhash_item_st option" where
  "item_at lh b i = (if i < length (buckets lh ! b) then Some (buckets lh ! b ! i) else None)"

definition OPENSSL_lh_retrieve :: "('a \<Rightarrow> u32) \<Rightarrow> ('a \<Rightarrow> 'a \<Rightarrow> int) \<Rightarrow> 'a lhash_st \<Rightarrow> 'a \<Rightarrow> 'a option" where
  "OPENSSL_lh_retrieve hash cmp lh d =
     (case get_next_ptr_and_hash hash cmp lh d of (_, b, i) \<Rightarrow> map_option item_data (item_at lh b i))"

definition OPENSSL_lh_retrieve_key :: "'a lhash_st \<Rightarrow> u32 \<Rightarrow> ('a \<Rightarrow> int) \<Rightarrow> 'a option" where
  "OPENSSL_lh_retrieve_key lh key_hash cmp_key =
     (case get_next_ptr_by_key lh key_hash cmp_key of (b, i) \<Rightarrow> map_option item_data (item_at lh b i))"

definition push_item ::
  "nat \<Rightarrow> 'a lhash_item_st list list \<Rightarrow> 'a lhash_item_st \<Rightarrow> 'a lhash_item_st list list" where
  "push_item n new_buckets cur =
     (let new_bucket = unat (item_hash cur) mod n
      in new_buckets[new_bucket := cur # new_buckets ! new_bucket])"

definition lh_rebucket :: "(nat \<Rightarrow> bool) \<Rightarrow> 'a lhash_st \<Rightarrow> nat \<Rightarrow> 'a lhash_st" where
  "lh_rebucket ok lh new_num_buckets =
     (let alloc_size = 8 * new_num_buckets mod size_mod
      in if alloc_size div 8 \<noteq> new_num_buckets then lh
         else if \<not> ok alloc_size then lh
         else lh\<lparr>num_buckets := new_num_buckets,
                 buckets := foldl (push_item new_num_buckets) (replicate new_num_buckets []) (concat (buckets lh))\<rparr>)"

definition lh_maybe_resize :: "(nat \<Rightarrow> bool) \<Rightarrow> 'a lhash_st \<Rightarrow> 'a lhash_st" where
  "lh_maybe_resize ok lh =
     (if callback_depth lh > 0 then lh
      else let avg_chain_length = num_items lh div num_buckets lh
           in if avg_chain_length > kMaxAverageChainLength
              then let new_num_buckets = num_buckets lh * 2 mod size_mod
                   in if new_num_buckets > num_buckets lh then lh_rebucket ok lh new_num_buckets else lh
              else if avg_chain_length < kMinAverageChainLength \<and> num_buckets lh > kMinNumBuckets
              then let new_num_buckets = num_buckets lh div 2;
                       new_num_buckets = (if new_num_buckets < kMinNumBuckets then kMinNumBuckets else new_num_buckets)
                   in lh_rebucket ok lh new_num_buckets
              else lh)"

definition OPENSSL_lh_insert ::
  "('a \<Rightarrow> u32) \<Rightarrow> ('a \<Rightarrow> 'a \<Rightarrow> int) \<Rightarrow> (nat \<Rightarrow> bool) \<Rightarrow> 'a lhash_st \<Rightarrow> 'a \<Rightarrow> bool \<times> 'a option \<times> 'a lhash_st" where
  "OPENSSL_lh_insert hash cmp ok lh d =
     (case get_next_ptr_and_hash hash cmp lh d of (h, b, i) \<Rightarrow>
        case item_at lh b i of
          Some item \<Rightarrow>
            (True, Some (item_data item),
             lh\<lparr>buckets := (buckets lh)[b := (buckets lh ! b)[i := item\<lparr>item_data := d\<rparr>]]\<rparr>)
        | None \<Rightarrow>
            if \<not> ok 24 then (False, None, lh)
            else (True, None,
                  lh_maybe_resize ok
                    (lh\<lparr>buckets := (buckets lh)[b := buckets lh ! b @ [\<lparr>item_data = d, item_hash = h\<rparr>]],
                        num_items := num_items lh + 1\<rparr>)))"

definition OPENSSL_lh_delete ::
  "('a \<Rightarrow> u32) \<Rightarrow> ('a \<Rightarrow> 'a \<Rightarrow> int) \<Rightarrow> (nat \<Rightarrow> bool) \<Rightarrow> 'a lhash_st \<Rightarrow> 'a \<Rightarrow> 'a option \<times> 'a lhash_st" where
  "OPENSSL_lh_delete hash cmp ok lh d =
     (case get_next_ptr_and_hash hash cmp lh d of (h, b, i) \<Rightarrow>
        case item_at lh b i of
          None \<Rightarrow> (None, lh)
        | Some item \<Rightarrow>
            (Some (item_data item),
             lh_maybe_resize ok
               (lh\<lparr>buckets := (buckets lh)[b := take i (buckets lh ! b) @ drop (Suc i) (buckets lh ! b)],
                   num_items := num_items lh - 1\<rparr>)))"

text \<open>
  The iteration, for a callback that does not change the table: it sees the items in order,
  here as a function on the client's state \<open>'s\<close>.
\<close>

definition OPENSSL_lh_doall_arg ::
  "(nat \<Rightarrow> bool) \<Rightarrow> ('a \<Rightarrow> 's \<Rightarrow> 's) \<Rightarrow> 's \<Rightarrow> 'a lhash_st option \<Rightarrow> 's \<times> 'a lhash_st option" where
  "OPENSSL_lh_doall_arg ok func arg lh0 =
     (case lh0 of
        None \<Rightarrow> (arg, None)
      | Some lh \<Rightarrow>
          let lh1 = (if callback_depth lh < UINT_MAX then lh\<lparr>callback_depth := callback_depth lh + 1\<rparr> else lh);
              arg' = fold (\<lambda>cur. func (item_data cur)) (concat (buckets lh1)) arg;
              lh2 = (if callback_depth lh1 < UINT_MAX then lh1\<lparr>callback_depth := callback_depth lh1 - 1\<rparr> else lh1)
          in (arg', Some (lh_maybe_resize ok lh2)))"


subsection \<open>Placement and contents\<close>

definition home :: "('a \<Rightarrow> u32) \<Rightarrow> nat \<Rightarrow> nat \<Rightarrow> 'a lhash_item_st \<Rightarrow> bool" where
  "home hash n b x \<longleftrightarrow> item_hash x = hash (item_data x) \<and> unat (item_hash x) mod n = b"

definition placed :: "('a \<Rightarrow> u32) \<Rightarrow> nat \<Rightarrow> 'a lhash_item_st list list \<Rightarrow> bool" where
  "placed hash n bs \<longleftrightarrow> length bs = n \<and>
     (\<forall>b<n. \<forall>x \<in> set (bs ! b). home hash n b x)"

definition lh_bag :: "'a lhash_st \<Rightarrow> 'a multiset" where
  "lh_bag lh = image_mset item_data (mset (concat (buckets lh)))"

text \<open>No two stored elements are equal for the comparison function.\<close>

definition lh_unique :: "('a \<Rightarrow> 'a \<Rightarrow> int) \<Rightarrow> 'a multiset \<Rightarrow> bool" where
  "lh_unique cmp M \<longleftrightarrow> (\<forall>k. size {#d \<in># M. cmp d k = 0#} \<le> 1)"

definition lh_inv :: "('a \<Rightarrow> u32) \<Rightarrow> ('a \<Rightarrow> 'a \<Rightarrow> int) \<Rightarrow> 'a lhash_st \<Rightarrow> bool" where
  "lh_inv hash cmp lh \<longleftrightarrow> placed hash (num_buckets lh) (buckets lh) \<and> kMinNumBuckets \<le> num_buckets lh \<and>
     num_items lh = size (lh_bag lh) \<and> lh_unique cmp (lh_bag lh)"

lemma filter_mset_none: "(\<And>x. x \<in># M \<Longrightarrow> \<not> P x) \<Longrightarrow> filter_mset P M = {#}"
  by (induction M) auto

lemma filter_mset_all: "(\<And>x. x \<in># M \<Longrightarrow> P x) \<Longrightarrow> filter_mset P M = M"
  by (induction M) auto

lemma bag_bucket:
  assumes "b < length bs"
  obtains R where "mset (concat bs) = R + mset (bs ! b)" "\<And>c. mset (concat (bs[b := c])) = R + mset c"
proof
  let ?R = "mset (concat (take b bs)) + mset (concat (drop (Suc b) bs))"
  have "concat bs = concat (take b bs) @ bs ! b @ concat (drop (Suc b) bs)"
    using id_take_nth_drop [OF assms] by (metis concat.simps(2) concat_append)
  then show "mset (concat bs) = ?R + mset (bs ! b)" by (simp only: mset_append) simp
  show "mset (concat (bs[b := c])) = ?R + mset c" for c
    using assms by (simp add: upd_conv_take_nth_drop)
qed

lemma placed_update:
  assumes "placed hash n bs" "b < n" "\<And>x. x \<in> set c \<Longrightarrow> home hash n b x"
  shows "placed hash n (bs[b := c])"
  using assms by (auto simp: placed_def nth_list_update)

lemma placed_bucket:
  assumes "placed hash n bs" "x \<in> set (concat bs)"
  shows "item_hash x = hash (item_data x)" "x \<in> set (bs ! (unat (hash (item_data x)) mod n))"
proof -
  from assms obtain b where b: "b < n" "x \<in> set (bs ! b)"
    by (auto simp: placed_def set_conv_nth [of bs])
  with assms(1) have "home hash n b x" by (simp add: placed_def)
  with b show "item_hash x = hash (item_data x)" "x \<in> set (bs ! (unat (hash (item_data x)) mod n))"
    unfolding home_def by (blast, metis)
qed

lemma push_items_placed:
  "placed hash n bs \<Longrightarrow> 0 < n \<Longrightarrow> \<forall>x \<in> set items. item_hash x = hash (item_data x) \<Longrightarrow>
     placed hash n (foldl (push_item n) bs items) \<and>
     mset (concat (foldl (push_item n) bs items)) = mset (concat bs) + mset items"
proof (induction items arbitrary: bs)
  case (Cons x items)
  let ?b = "unat (item_hash x) mod n"
  have l: "?b < length bs" using Cons.prems by (simp add: placed_def)
  have "placed hash n (push_item n bs x)" unfolding push_item_def Let_def
    by (rule placed_update) (use Cons.prems in \<open>auto simp: placed_def home_def [of _ _ _ x]\<close>)
  moreover have "mset (concat (push_item n bs x)) = mset (concat bs) + {#x#}"
    by (rule bag_bucket [OF l]) (simp add: push_item_def Let_def)
  ultimately show ?case using Cons.IH [of "push_item n bs x"] Cons.prems by simp
qed simp

lemma rebucket_spec:
  assumes "lh_inv hash cmp lh" "kMinNumBuckets \<le> n"
  shows "lh_inv hash cmp (lh_rebucket ok lh n)" "lh_bag (lh_rebucket ok lh n) = lh_bag lh"
    "callback_depth (lh_rebucket ok lh n) = callback_depth lh"
proof -
  let ?bs = "foldl (push_item n) (replicate n []) (concat (buckets lh))"
  have "\<forall>x \<in> set (concat (buckets lh)). item_hash x = hash (item_data x)"
    using assms(1) placed_bucket(1) unfolding lh_inv_def by blast
  moreover have "placed hash n (replicate n [])" by (simp add: placed_def)
  ultimately have p: "placed hash n ?bs" "mset (concat ?bs) = mset (concat (buckets lh))"
    using push_items_placed [of hash n "replicate n []" "concat (buckets lh)"] assms(2) by auto
  show bag: "lh_bag (lh_rebucket ok lh n) = lh_bag lh"
    using p(2) by (simp add: lh_rebucket_def Let_def lh_bag_def)
  show "lh_inv hash cmp (lh_rebucket ok lh n)"
    using assms p unfolding lh_inv_def bag by (simp add: lh_rebucket_def Let_def)
  show "callback_depth (lh_rebucket ok lh n) = callback_depth lh"
    by (simp add: lh_rebucket_def Let_def)
qed

lemma maybe_resize_spec:
  assumes "lh_inv hash cmp lh"
  shows "lh_inv hash cmp (lh_maybe_resize ok lh)" "lh_bag (lh_maybe_resize ok lh) = lh_bag lh"
    "callback_depth (lh_maybe_resize ok lh) = callback_depth lh"
  using assms rebucket_spec [OF assms, of _ ok]
  by (auto simp: lh_maybe_resize_def Let_def lh_inv_def)


text \<open>A chain around the position at which the walk stops.\<close>

lemma chain_pos_split:
  assumes "chain_pos stop chain < length chain"
  obtains pre item post where "chain = pre @ item # post" "length pre = chain_pos stop chain"
    "stop (item_data item)" "\<And>x. x \<in> set pre \<Longrightarrow> \<not> stop (item_data x)"
proof -
  let ?P = "\<lambda>cur. \<not> stop (item_data cur)"
  have "dropWhile ?P chain \<noteq> []"
    using assms unfolding chain_pos_def by (metis length_append list.size(3) add.right_neutral takeWhile_dropWhile_id less_irrefl)
  then obtain item post where d: "dropWhile ?P chain = item # post" by (cases "dropWhile ?P chain") auto
  then have "stop (item_data item)" using hd_dropWhile [of ?P chain] by simp
  moreover have "chain = takeWhile ?P chain @ item # post" by (metis d takeWhile_dropWhile_id)
  moreover have "\<not> stop (item_data x)" if "x \<in> set (takeWhile ?P chain)" for x using that by (auto dest: set_takeWhileD)
  ultimately show thesis using that [of "takeWhile ?P chain" item post] by (simp add: chain_pos_def)
qed

lemma chain_pos_end:
  "\<not> chain_pos stop chain < length chain \<Longrightarrow> x \<in> set chain \<Longrightarrow> \<not> stop (item_data x)"
proof -
  let ?P = "\<lambda>cur. \<not> stop (item_data cur)"
  assume "\<not> chain_pos stop chain < length chain" "x \<in> set chain"
  moreover have "length chain = length (takeWhile ?P chain) + length (dropWhile ?P chain)"
    by (metis length_append takeWhile_dropWhile_id)
  ultimately have "dropWhile ?P chain = []" by (simp add: chain_pos_def)
  then show "\<not> stop (item_data x)" using \<open>x \<in> set chain\<close> by (simp add: dropWhile_eq_Nil_conv)
qed

subsection \<open>What the table promises\<close>

text \<open>A comparison function that decides an equivalence, and a hash function that respects it.\<close>

locale hashing =
  fixes hash :: "'a \<Rightarrow> u32" and cmp :: "'a \<Rightarrow> 'a \<Rightarrow> int"
  assumes cmp_refl: "cmp x x = 0"
    and cmp_sym: "cmp x y = 0 \<Longrightarrow> cmp y x = 0"
    and cmp_trans: "cmp x y = 0 \<Longrightarrow> cmp y z = 0 \<Longrightarrow> cmp x z = 0"
    and hash_cmp: "cmp x y = 0 \<Longrightarrow> hash x = hash y"
begin

text \<open>The element equal to \<open>k\<close>, if there is one, is in the bucket that the hash selects.\<close>

lemma filter_bag:
  assumes "lh_inv hash cmp lh" "b = unat (hash k) mod num_buckets lh"
  shows "{#d \<in># lh_bag lh. cmp d k = 0#} = {#d \<in># image_mset item_data (mset (buckets lh ! b)). cmp d k = 0#}"
proof -
  have p: "placed hash (num_buckets lh) (buckets lh)" and "b < length (buckets lh)"
    using assms by (auto simp: lh_inv_def placed_def)
  obtain R where R: "mset (concat (buckets lh)) = R + mset (buckets lh ! b)"
    "\<And>c. mset (concat ((buckets lh)[b := c])) = R + mset c" using bag_bucket [OF \<open>b < length (buckets lh)\<close>] by blast
  have "cmp (item_data x) k \<noteq> 0" if "x \<in># R" for x
  proof
    assume c: "cmp (item_data x) k = 0"
    have "x \<in> set (concat ((buckets lh)[b := []]))" using R(2) [of "[]"] that by (metis add.right_neutral mset.simps(1) set_mset_mset)
    moreover have "placed hash (num_buckets lh) ((buckets lh)[b := []])"
      by (rule placed_update [OF p]) (use \<open>b < length (buckets lh)\<close> p in \<open>auto simp: placed_def\<close>)
    ultimately have "x \<in> set ((buckets lh)[b := []] ! (unat (hash (item_data x)) mod num_buckets lh))"
      by (rule placed_bucket(2) [rotated])
    then show False using hash_cmp [OF c] \<open>b < length (buckets lh)\<close> assms(2) by simp
  qed
  then have "{#d \<in># image_mset item_data R. cmp d k = 0#} = {#}"
    by (intro filter_mset_none) auto
  then show ?thesis by (simp add: lh_bag_def R(1))
qed

lemma retrieve_law:
  assumes "lh_inv hash cmp lh"
  shows "{#d \<in># lh_bag lh. cmp d k = 0#} = (case OPENSSL_lh_retrieve hash cmp lh k of None \<Rightarrow> {#} | Some d \<Rightarrow> {#d#})"
proof -
  define b where "b = unat (hash k) mod num_buckets lh"
  define chain where "chain = buckets lh ! b"
  let ?stop = "\<lambda>x. cmp x k = 0"
  have f: "{#d \<in># lh_bag lh. cmp d k = 0#} = {#d \<in># image_mset item_data (mset chain). cmp d k = 0#}"
    unfolding chain_def by (rule filter_bag [OF assms b_def])
  have r: "OPENSSL_lh_retrieve hash cmp lh k =
      (if chain_pos ?stop chain < length chain then Some (item_data (chain ! chain_pos ?stop chain)) else None)"
    by (simp add: OPENSSL_lh_retrieve_def get_next_ptr_and_hash_def Let_def item_at_def b_def chain_def)
  show ?thesis
  proof (cases "chain_pos ?stop chain < length chain")
    case False
    then have "{#d \<in># image_mset item_data (mset chain). cmp d k = 0#} = {#}"
      by (intro filter_mset_none) (auto dest: chain_pos_end)
    with False show ?thesis by (simp add: f r)
  next
    case True
    then obtain pre item post where c: "chain = pre @ item # post" "length pre = chain_pos ?stop chain" "?stop (item_data item)"
      by (rule chain_pos_split) blast
    then have i: "chain ! chain_pos ?stop chain = item" by (metis nth_append_length)
    have "size {#d \<in># image_mset item_data (mset chain). cmp d k = 0#} \<le> 1"
      using assms unfolding f [symmetric] by (simp add: lh_inv_def lh_unique_def)
    then have "{#d \<in># image_mset item_data (mset chain). cmp d k = 0#} = {#item_data item#}"
      using c(3) by (simp add: c(1))
    with True show ?thesis by (simp add: f r i)
  qed
qed

lemma retrieve_Some:
  "lh_inv hash cmp lh \<Longrightarrow> OPENSSL_lh_retrieve hash cmp lh k = Some d \<longleftrightarrow> d \<in># lh_bag lh \<and> cmp d k = 0"
proof -
  assume "lh_inv hash cmp lh"
  note law = arg_cong [OF retrieve_law [OF this, of k], of "\<lambda>M. d \<in># M"]
  show ?thesis using law by (cases "OPENSSL_lh_retrieve hash cmp lh k") auto
qed

text \<open>Storing \<open>d\<close> leaves exactly one element equal to it; removing leaves none.\<close>

lemma unique_filter: "lh_unique cmp M \<Longrightarrow> lh_unique cmp {#x \<in># M. P x#}"
proof -
  assume u: "lh_unique cmp M"
  have "size {#d \<in># {#x \<in># M. P x#}. cmp d k = 0#} \<le> size {#d \<in># M. cmp d k = 0#}" for k
    by (intro size_mset_mono multiset_filter_mono multiset_filter_subset)
  with u show ?thesis unfolding lh_unique_def by (meson le_trans)
qed

lemma unique_put:
  assumes "lh_unique cmp M"
  shows "lh_unique cmp (add_mset d {#x \<in># M. cmp x d \<noteq> 0#})"
  unfolding lh_unique_def
proof
  fix k
  let ?M = "{#x \<in># M. cmp x d \<noteq> 0#}"
  show "size {#x \<in># add_mset d ?M. cmp x k = 0#} \<le> 1"
  proof (cases "cmp d k = 0")
    case True
    have "{#x \<in># ?M. cmp x k = 0#} = {#}"
    proof (rule filter_mset_none)
      fix x assume "x \<in># ?M"
      then have "cmp x d \<noteq> 0" by simp
      with cmp_trans [of x k d] cmp_sym [OF True] show "cmp x k \<noteq> 0" by blast
    qed
    with True show ?thesis by simp
  next
    case False
    have "size {#x \<in># ?M. cmp x k = 0#} \<le> 1" using unique_filter [OF assms] unfolding lh_unique_def by blast
    with False show ?thesis by simp
  qed
qed

text \<open>The three cases of \<open>OPENSSL_lh_insert\<close>, and \<open>OPENSSL_lh_delete\<close>, on the contents.\<close>

lemma position:
  assumes "lh_inv hash cmp lh"
  obtains (found) R pre item post where
      "get_next_ptr_and_hash hash cmp lh d = (hash d, unat (hash d) mod num_buckets lh, length pre)"
      "item_at lh (unat (hash d) mod num_buckets lh) (length pre) = Some item"
      "buckets lh ! (unat (hash d) mod num_buckets lh) = pre @ item # post" "cmp (item_data item) d = 0"
      "mset (concat (buckets lh)) = R + mset (pre @ item # post)"
      "\<And>c. mset (concat ((buckets lh)[unat (hash d) mod num_buckets lh := c])) = R + mset c"
      "OPENSSL_lh_retrieve hash cmp lh d = Some (item_data item)"
      "{#x \<in># lh_bag lh. cmp x d \<noteq> 0#} = image_mset item_data (R + mset pre + mset post)"
    | (absent) R i where
      "get_next_ptr_and_hash hash cmp lh d = (hash d, unat (hash d) mod num_buckets lh, i)"
      "item_at lh (unat (hash d) mod num_buckets lh) i = None"
      "mset (concat (buckets lh)) = R + mset (buckets lh ! (unat (hash d) mod num_buckets lh))"
      "\<And>c. mset (concat ((buckets lh)[unat (hash d) mod num_buckets lh := c])) = R + mset c"
      "OPENSSL_lh_retrieve hash cmp lh d = None" "{#x \<in># lh_bag lh. cmp x d \<noteq> 0#} = lh_bag lh"
proof -
  define b where "b = unat (hash d) mod num_buckets lh"
  let ?stop = "\<lambda>x. cmp x d = 0"
  define i where "i = chain_pos ?stop (buckets lh ! b)"
  have "b < length (buckets lh)" using assms by (auto simp: lh_inv_def placed_def b_def)
  then obtain R where R: "mset (concat (buckets lh)) = R + mset (buckets lh ! b)"
    "\<And>c. mset (concat ((buckets lh)[b := c])) = R + mset c" using bag_bucket by blast
  have g: "get_next_ptr_and_hash hash cmp lh d = (hash d, b, i)"
    by (simp add: get_next_ptr_and_hash_def Let_def b_def i_def)
  then have r: "OPENSSL_lh_retrieve hash cmp lh d = map_option item_data (item_at lh b i)"
    by (simp add: OPENSSL_lh_retrieve_def)
  note law = retrieve_law [OF assms, of d]
  show thesis
  proof (cases "i < length (buckets lh ! b)")
    case True
    then obtain pre item post where c: "buckets lh ! b = pre @ item # post" "length pre = i" "?stop (item_data item)"
      unfolding i_def by (rule chain_pos_split) blast
    then have it: "item_at lh b i = Some item" by (auto simp: item_at_def)
    then have "{#x \<in># lh_bag lh. cmp x d = 0#} = {#item_data item#}" using law r by simp
    then have "add_mset (item_data item) {#x \<in># lh_bag lh. cmp x d \<noteq> 0#} = lh_bag lh"
      using multiset_partition [of "lh_bag lh" "\<lambda>x. cmp x d = 0"] by simp
    then have "{#x \<in># lh_bag lh. cmp x d \<noteq> 0#} = image_mset item_data (R + mset pre + mset post)"
      by (simp add: lh_bag_def R(1) c(1))
    then show thesis using found [of pre item post R] g it c R r unfolding b_def by simp
  next
    case False
    then have it: "item_at lh b i = None" by (simp add: item_at_def)
    then have "{#x \<in># lh_bag lh. cmp x d = 0#} = {#}" using law r by simp
    then have "{#x \<in># lh_bag lh. cmp x d \<noteq> 0#} = lh_bag lh"
      by (intro filter_mset_all) (auto dest: arg_cong [of _ _ set_mset])
    then show thesis using absent [of i R] g it R r unfolding b_def by simp
  qed
qed

lemma insert_spec:
  assumes "lh_inv hash cmp lh"
  shows "OPENSSL_lh_insert hash cmp ok lh d = (False, None, lh) \<and> \<not> ok 24 \<and> OPENSSL_lh_retrieve hash cmp lh d = None \<or>
     (\<exists>lh'. OPENSSL_lh_insert hash cmp ok lh d = (True, OPENSSL_lh_retrieve hash cmp lh d, lh') \<and> lh_inv hash cmp lh' \<and>
        lh_bag lh' = add_mset d {#x \<in># lh_bag lh. cmp x d \<noteq> 0#} \<and> callback_depth lh' = callback_depth lh)"
proof -
  define b where "b = unat (hash d) mod num_buckets lh"
  have p: "placed hash (num_buckets lh) (buckets lh)" "b < num_buckets lh" "lh_unique cmp (lh_bag lh)"
    using assms by (auto simp: lh_inv_def b_def)
  from assms show ?thesis
  proof (cases rule: position [where d = d])
    case (found R pre item post)
    let ?lh = "lh\<lparr>buckets := (buckets lh)[b := (pre @ item # post)[length pre := item\<lparr>item_data := d\<rparr>]]\<rparr>"
    have bag: "lh_bag ?lh = add_mset d {#x \<in># lh_bag lh. cmp x d \<noteq> 0#}"
      using found(6,8) by (simp add: lh_bag_def b_def)
    have "size (lh_bag ?lh) = size (lh_bag lh)" using found(5,6) by (simp add: lh_bag_def b_def)
    moreover have "placed hash (num_buckets lh) (buckets ?lh)"
    proof -
      have "home hash (num_buckets lh) b x" if "x \<in> set (pre @ item # post)" for x
        using p(1,2) found(3) that unfolding placed_def b_def by metis
      moreover from this [of item] have "home hash (num_buckets lh) b (item\<lparr>item_data := d\<rparr>)"
        using hash_cmp [OF found(4)] by (simp add: home_def b_def)
      ultimately show ?thesis using placed_update [OF p(1,2), of "pre @ item\<lparr>item_data := d\<rparr> # post"] by auto
    qed
    ultimately have "lh_inv hash cmp ?lh"
      using assms unique_put [OF p(3), of d] unfolding lh_inv_def bag [symmetric] by simp
    then show ?thesis using found bag by (simp add: OPENSSL_lh_insert_def b_def)
  next
    case (absent R i)
    let ?lh = "lh\<lparr>buckets := (buckets lh)[b := buckets lh ! b @ [\<lparr>item_data = d, item_hash = hash d\<rparr>]], num_items := num_items lh + 1\<rparr>"
    have bag: "lh_bag ?lh = add_mset d {#x \<in># lh_bag lh. cmp x d \<noteq> 0#}"
      unfolding absent(6) using absent(3,4) by (simp add: lh_bag_def b_def)
    have "placed hash (num_buckets lh) (buckets ?lh)"
    proof -
      have "home hash (num_buckets lh) b x" if "x \<in> set (buckets lh ! b)" for x
        using p(1,2) that unfolding placed_def by blast
      moreover have "home hash (num_buckets lh) b \<lparr>item_data = d, item_hash = hash d\<rparr>"
        by (simp add: home_def b_def)
      ultimately show ?thesis
        using placed_update [OF p(1,2), of "buckets lh ! b @ [\<lparr>item_data = d, item_hash = hash d\<rparr>]"] by auto
    qed
    moreover have "size (lh_bag ?lh) = num_items lh + 1"
      using assms unfolding bag absent(6) by (simp add: lh_inv_def)
    ultimately have "lh_inv hash cmp ?lh"
      using assms unique_put [OF p(3), of d] unfolding lh_inv_def bag [symmetric] by simp
    note mr = maybe_resize_spec [OF this, of ok]
    have "OPENSSL_lh_insert hash cmp ok lh d = (if ok 24 then (True, None, lh_maybe_resize ok ?lh) else (False, None, lh))"
      using absent(1,2) by (simp add: OPENSSL_lh_insert_def b_def)
    then show ?thesis using mr bag absent(5) by auto
  qed
qed

lemma insert_fails:
  assumes "lh_inv hash cmp lh" and "OPENSSL_lh_retrieve hash cmp lh d = None" and "\<not> ok 24"
  shows "OPENSSL_lh_insert hash cmp ok lh d = (False, None, lh)"
  using assms(1)
proof (cases rule: position [where d = d])
  case (found R pre item post)
  then show ?thesis using assms(2) by simp
next
  case (absent R i)
  then show ?thesis using assms(3) by (simp add: OPENSSL_lh_insert_def)
qed

lemma delete_spec:
  assumes "lh_inv hash cmp lh"
  shows "\<exists>lh'. OPENSSL_lh_delete hash cmp ok lh d = (OPENSSL_lh_retrieve hash cmp lh d, lh') \<and> lh_inv hash cmp lh' \<and>
     lh_bag lh' = {#x \<in># lh_bag lh. cmp x d \<noteq> 0#} \<and> callback_depth lh' = callback_depth lh"
proof -
  define b where "b = unat (hash d) mod num_buckets lh"
  have p: "placed hash (num_buckets lh) (buckets lh)" "b < num_buckets lh" "lh_unique cmp (lh_bag lh)"
    using assms by (auto simp: lh_inv_def b_def)
  from assms show ?thesis
  proof (cases rule: position [where d = d])
    case (found R pre item post)
    let ?lh = "lh\<lparr>buckets := (buckets lh)[b := pre @ post], num_items := num_items lh - 1\<rparr>"
    have bag: "lh_bag ?lh = {#x \<in># lh_bag lh. cmp x d \<noteq> 0#}"
      using found(6,8) by (simp add: lh_bag_def b_def)
    have "size (lh_bag ?lh) = num_items lh - 1" using found(5,6) assms by (simp add: lh_bag_def b_def lh_inv_def)
    moreover have "placed hash (num_buckets lh) (buckets ?lh)"
    proof -
      have "home hash (num_buckets lh) b x" if "x \<in> set (pre @ item # post)" for x
        using p(1,2) found(3) that unfolding placed_def b_def by metis
      then show ?thesis using placed_update [OF p(1,2), of "pre @ post"] by auto
    qed
    ultimately have "lh_inv hash cmp ?lh"
      using assms unique_filter [OF p(3), of "\<lambda>x. cmp x d \<noteq> 0"] unfolding lh_inv_def bag [symmetric] by simp
    note mr = maybe_resize_spec [OF this, of ok]
    have "OPENSSL_lh_delete hash cmp ok lh d = (Some (item_data item), lh_maybe_resize ok ?lh)"
      using found(1-3) by (simp add: OPENSSL_lh_delete_def b_def)
    then show ?thesis using mr bag found(7) by auto
  next
    case (absent R i)
    then show ?thesis using assms by (simp add: OPENSSL_lh_delete_def)
  qed
qed

lemma retrieve_insert:
  assumes "lh_inv hash cmp lh" "OPENSSL_lh_insert hash cmp ok lh d = (True, old, lh')"
  shows "lh_inv hash cmp lh'"
    "OPENSSL_lh_retrieve hash cmp lh' k = (if cmp d k = 0 then Some d else OPENSSL_lh_retrieve hash cmp lh k)"
proof -
  from insert_spec [OF assms(1), of ok d] assms(2) have inv: "lh_inv hash cmp lh'"
    and bag: "lh_bag lh' = add_mset d {#x \<in># lh_bag lh. cmp x d \<noteq> 0#}" by auto
  show "lh_inv hash cmp lh'" by (rule inv)
  have "OPENSSL_lh_retrieve hash cmp lh' k = Some e \<longleftrightarrow>
      (if cmp d k = 0 then Some d else OPENSSL_lh_retrieve hash cmp lh k) = Some e" for e
  proof (cases "cmp d k = 0")
    case True
    have "cmp e k = 0 \<Longrightarrow> cmp e d = 0" using cmp_trans [of e k d] cmp_sym [OF True] by blast
    with True show ?thesis unfolding retrieve_Some [OF inv] bag by auto
  next
    case False
    have "cmp e k = 0 \<Longrightarrow> cmp e d \<noteq> 0" using cmp_trans [of d e k] cmp_sym [of e d] False by blast
    with False show ?thesis unfolding retrieve_Some [OF inv] bag by (auto simp: retrieve_Some [OF assms(1)])
  qed
  then show "OPENSSL_lh_retrieve hash cmp lh' k = (if cmp d k = 0 then Some d else OPENSSL_lh_retrieve hash cmp lh k)"
    by (metis option.exhaust)
qed

lemma retrieve_delete:
  assumes "lh_inv hash cmp lh" "OPENSSL_lh_delete hash cmp ok lh d = (old, lh')"
  shows "lh_inv hash cmp lh'"
    "OPENSSL_lh_retrieve hash cmp lh' k = (if cmp d k = 0 then None else OPENSSL_lh_retrieve hash cmp lh k)"
proof -
  from delete_spec [OF assms(1), of ok d] assms(2) have inv: "lh_inv hash cmp lh'"
    and bag: "lh_bag lh' = {#x \<in># lh_bag lh. cmp x d \<noteq> 0#}" by auto
  show "lh_inv hash cmp lh'" by (rule inv)
  have "OPENSSL_lh_retrieve hash cmp lh' k = Some e \<longleftrightarrow>
      (if cmp d k = 0 then None else OPENSSL_lh_retrieve hash cmp lh k) = Some e" for e
  proof (cases "cmp d k = 0")
    case True
    have "cmp e k = 0 \<Longrightarrow> cmp e d = 0" using cmp_trans [of e k d] cmp_sym [OF True] by blast
    with True show ?thesis unfolding retrieve_Some [OF inv] bag by auto
  next
    case False
    have "cmp e k = 0 \<Longrightarrow> cmp e d \<noteq> 0" using cmp_trans [of d e k] cmp_sym [of e d] False by blast
    with False show ?thesis unfolding retrieve_Some [OF inv] bag by (auto simp: retrieve_Some [OF assms(1)])
  qed
  then show "OPENSSL_lh_retrieve hash cmp lh' k = (if cmp d k = 0 then None else OPENSSL_lh_retrieve hash cmp lh k)"
    by (metis option.exhaust)
qed

lemma new_inv: "OPENSSL_lh_new ok s = Some lh \<Longrightarrow> lh_inv hash cmp lh \<and> lh_bag lh = {#}"
  by (auto simp: OPENSSL_lh_new_def lh_inv_def placed_def lh_bag_def lh_unique_def split: if_splits)

lemma retrieve_key_retrieve:
  assumes "\<And>x. cmp_key x = 0 \<longleftrightarrow> cmp x d = 0" "key_hash = hash d"
  shows "OPENSSL_lh_retrieve_key lh key_hash cmp_key = OPENSSL_lh_retrieve hash cmp lh d"
  using assms by (simp add: OPENSSL_lh_retrieve_key_def OPENSSL_lh_retrieve_def get_next_ptr_by_key_def
      get_next_ptr_and_hash_def Let_def)

lemma doall_spec:
  assumes "lh_inv hash cmp lh" "callback_depth lh + 1 < UINT_MAX"
  shows "\<exists>lh'. OPENSSL_lh_doall_arg ok f a (Some lh) =
      (fold f (map item_data (concat (buckets lh))) a, Some lh') \<and>
     lh_inv hash cmp lh' \<and> lh_bag lh' = lh_bag lh \<and> callback_depth lh' = callback_depth lh"
proof -
  have "lh\<lparr>callback_depth := callback_depth lh\<rparr> = lh" by simp
  then show ?thesis using assms maybe_resize_spec [OF assms(1), of ok]
    by (simp add: OPENSSL_lh_doall_arg_def Let_def fold_map comp_def)
qed

end

subsection \<open>The table as a keyed store\<close>

text \<open>
  Calls on a store, in any order: storing an element and removing one, each with the allocator it
  meets, and looking one up. Every call returns whether it succeeded and the element it found.
\<close>

datatype ('c, 'a) store_call = Put 'c 'a | Remove 'c 'a | Find 'a

fun store_run ::
  "('t \<Rightarrow> 'a \<Rightarrow> 'a option) \<Rightarrow> ('c \<Rightarrow> 't \<Rightarrow> 'a \<Rightarrow> bool \<times> 'a option \<times> 't) \<Rightarrow> ('c \<Rightarrow> 't \<Rightarrow> 'a \<Rightarrow> 'a option \<times> 't) \<Rightarrow>
     ('c, 'a) store_call list \<Rightarrow> 't \<Rightarrow> (bool \<times> 'a option) list \<times> 't" where
  "store_run get put del [] t = ([], t)"
| "store_run get put del (Put c d # us) t =
     (case put c t d of (ok, old, t') \<Rightarrow> apfst ((#) (ok, old)) (store_run get put del us t'))"
| "store_run get put del (Remove c d # us) t =
     (case del c t d of (old, t') \<Rightarrow> apfst ((#) (True, old)) (store_run get put del us t'))"
| "store_run get put del (Find d # us) t = apfst ((#) (True, get t d)) (store_run get put del us t)"

text \<open>
  The specification: a map from keys to elements. A call on one key changes what the keys equal to it
  find. Storing fails, without an effect, when the key is new and there is no \<open>room\<close>.
\<close>

definition map_put ::
  "('a \<Rightarrow> 'a \<Rightarrow> bool) \<Rightarrow> ('c \<Rightarrow> bool) \<Rightarrow> 'c \<Rightarrow> ('a \<rightharpoonup> 'a) \<Rightarrow> 'a \<Rightarrow> bool \<times> 'a option \<times> ('a \<rightharpoonup> 'a)" where
  "map_put same room c m d =
     (if m d = None \<and> \<not> room c then (False, None, m) else (True, m d, \<lambda>k. if same d k then Some d else m k))"

definition map_del :: "('a \<Rightarrow> 'a \<Rightarrow> bool) \<Rightarrow> 'c \<Rightarrow> ('a \<rightharpoonup> 'a) \<Rightarrow> 'a \<Rightarrow> 'a option \<times> ('a \<rightharpoonup> 'a)" where
  "map_del same c m d = (m d, \<lambda>k. if same d k then None else m k)"

definition map_run ::
  "('a \<Rightarrow> 'a \<Rightarrow> bool) \<Rightarrow> ('c \<Rightarrow> bool) \<Rightarrow> ('c, 'a) store_call list \<Rightarrow> ('a \<rightharpoonup> 'a) \<Rightarrow> (bool \<times> 'a option) list \<times> ('a \<rightharpoonup> 'a)" where
  "map_run same room = store_run (\<lambda>m. m) (map_put same room) (map_del same)"

text \<open>What a client of a keyed store relies on.\<close>

locale keyed_store =
  fixes get :: "'t \<Rightarrow> 'a \<Rightarrow> 'a option" and put :: "'c \<Rightarrow> 't \<Rightarrow> 'a \<Rightarrow> bool \<times> 'a option \<times> 't"
    and del :: "'c \<Rightarrow> 't \<Rightarrow> 'a \<Rightarrow> 'a option \<times> 't"
    and same :: "'a \<Rightarrow> 'a \<Rightarrow> bool" and room :: "'c \<Rightarrow> bool" and invar :: "'t \<Rightarrow> bool"
  assumes put_law: "invar t \<Longrightarrow> put c t d = (ok, old, t') \<Longrightarrow> invar t' \<and> map_put same room c (get t) d = (ok, old, get t')"
    and del_law: "invar t \<Longrightarrow> del c t d = (old, t') \<Longrightarrow> invar t' \<and> map_del same c (get t) d = (old, get t')"
begin

lemma run_refines:
  "invar t \<Longrightarrow> store_run get put del us t = (rs, t') \<Longrightarrow> invar t' \<and> map_run same room us (get t) = (rs, get t')"
proof (induction us arbitrary: t rs)
  case (Cons u us)
  show ?case
  proof (cases u)
    case (Put c d)
    obtain ok old t1 where 1: "put c t d = (ok, old, t1)" by (metis prod_cases3)
    obtain rs1 where "store_run get put del us t1 = (rs1, t')" "rs = (ok, old) # rs1"
      using Cons.prems(2) 1 by (auto simp: Put apfst_def map_prod_def split: prod.splits)
    then show ?thesis using put_law [OF Cons.prems(1) 1] Cons.IH [of t1 rs1] by (simp add: Put map_run_def)
  next
    case (Remove c d)
    obtain old t1 where 1: "del c t d = (old, t1)" by fastforce
    obtain rs1 where "store_run get put del us t1 = (rs1, t')" "rs = (True, old) # rs1"
      using Cons.prems(2) 1 by (auto simp: Remove apfst_def map_prod_def split: prod.splits)
    then show ?thesis using del_law [OF Cons.prems(1) 1] Cons.IH [of t1 rs1] by (simp add: Remove map_run_def)
  next
    case (Find d)
    obtain rs1 where "store_run get put del us t = (rs1, t')" "rs = (True, get t d) # rs1"
      using Cons.prems(2) by (auto simp: Find apfst_def map_prod_def split: prod.splits)
    then show ?thesis using Cons.IH [OF Cons.prems(1)] by (simp add: Find map_run_def)
  qed
qed (simp add: map_run_def)

end

text \<open>The calls of the hash table; \<open>ok 24\<close> is the allocation of a new item.\<close>

definition lh_run ::
  "('a \<Rightarrow> u32) \<Rightarrow> ('a \<Rightarrow> 'a \<Rightarrow> int) \<Rightarrow> (nat \<Rightarrow> bool, 'a) store_call list \<Rightarrow> 'a lhash_st \<Rightarrow>
     (bool \<times> 'a option) list \<times> 'a lhash_st" where
  "lh_run hash cmp = store_run (OPENSSL_lh_retrieve hash cmp) (OPENSSL_lh_insert hash cmp) (OPENSSL_lh_delete hash cmp)"

sublocale hashing \<subseteq> store: keyed_store "OPENSSL_lh_retrieve hash cmp" "OPENSSL_lh_insert hash cmp"
  "OPENSSL_lh_delete hash cmp" "\<lambda>x y. cmp x y = 0" "\<lambda>ok. ok 24" "lh_inv hash cmp"
proof
  fix t c d ok old t' assume inv: "lh_inv hash cmp t" and r: "OPENSSL_lh_insert hash cmp c t d = (ok, old, t')"
  show "lh_inv hash cmp t' \<and> map_put (\<lambda>x y. cmp x y = 0) (\<lambda>ok. ok 24) c (OPENSSL_lh_retrieve hash cmp t) d =
      (ok, old, OPENSSL_lh_retrieve hash cmp t')"
  proof (cases "OPENSSL_lh_retrieve hash cmp t d = None \<and> \<not> c 24")
    case True
    then have "(ok, old, t') = (False, None, t)" using insert_fails [OF inv, of d c] r by simp
    then show ?thesis using True inv by (simp add: map_put_def)
  next
    case False
    then have o: "ok" "old = OPENSSL_lh_retrieve hash cmp t d" using insert_spec [OF inv, of c d] r by auto
    then show ?thesis using False r retrieve_insert [OF inv, of c d old t'] by (auto simp: map_put_def)
  qed
next
  fix t c d old t' assume inv: "lh_inv hash cmp t" and r: "OPENSSL_lh_delete hash cmp c t d = (old, t')"
  then show "lh_inv hash cmp t' \<and> map_del (\<lambda>x y. cmp x y = 0) c (OPENSSL_lh_retrieve hash cmp t) d =
      (old, OPENSSL_lh_retrieve hash cmp t')"
    using retrieve_delete [OF inv r] delete_spec [OF inv, of c d] by (auto simp: map_del_def)
qed

context hashing
begin

lemma retrieve_new: "OPENSSL_lh_new ok s = Some lh \<Longrightarrow> OPENSSL_lh_retrieve hash cmp lh = (\<lambda>_. None)"
proof
  fix k assume "OPENSSL_lh_new ok s = Some lh"
  then have "lh_inv hash cmp lh" "lh_bag lh = {#}" using new_inv by simp_all
  then show "OPENSSL_lh_retrieve hash cmp lh k = None"
    using retrieve_Some by (metis empty_iff option.exhaust set_mset_empty)
qed

lemma lh_run_refines:
  assumes "OPENSSL_lh_new ok s = Some lh" and "lh_run hash cmp us lh = (rs, lh')"
  shows "lh_inv hash cmp lh' \<and> map_run (\<lambda>x y. cmp x y = 0) (\<lambda>ok. ok 24) us (\<lambda>_. None) = (rs, OPENSSL_lh_retrieve hash cmp lh')"
  using store.run_refines [of lh us rs lh'] new_inv [OF assms(1)] retrieve_new [OF assms(1)] assms(2)
  by (simp add: lh_run_def)

end

subsection \<open>The tables of \<open>conf.c\<close>\<close>

text \<open>
  \<open>strcmp\<close> of the C library, on strings that end with their list or at the first zero byte, and the
  two pairs of functions that \<open>crypto/conf/conf.c\<close> stores in its tables.
\<close>

fun strcmp :: "byte list \<Rightarrow> byte list \<Rightarrow> int" where
  "strcmp [] [] = 0"
| "strcmp [] (b # bs) = (if b = 0 then 0 else - 1)"
| "strcmp (a # as) [] = (if a = 0 then 0 else 1)"
| "strcmp (a # as) (b # bs) =
     (if a < b then - 1 else if b < a then 1 else if a = 0 then 0 else strcmp as bs)"

record conf_value =
  cv_section :: "byte list"
  cv_name :: "byte list"
  cv_value :: "byte list"

record conf_section =
  cs_name :: "byte list"
  cs_values :: "conf_value list"

definition conf_section_hash :: "conf_section \<Rightarrow> u32" where
  "conf_section_hash s = OPENSSL_strhash (cs_name s)"

definition conf_section_cmp :: "conf_section \<Rightarrow> conf_section \<Rightarrow> int" where
  "conf_section_cmp a b = strcmp (cs_name a) (cs_name b)"

definition conf_value_hash :: "conf_value \<Rightarrow> u32" where
  "conf_value_hash v = push_bit 2 (OPENSSL_strhash (cv_section v)) XOR OPENSSL_strhash (cv_name v)"

definition conf_value_cmp :: "conf_value \<Rightarrow> conf_value \<Rightarrow> int" where
  "conf_value_cmp a b =
     (let c = strcmp (cv_section a) (cv_section b) in if c \<noteq> 0 then c else strcmp (cv_name a) (cv_name b))"

definition c_string :: "byte list \<Rightarrow> byte list" where
  "c_string s = takeWhile (\<lambda>c. c \<noteq> 0) s"

lemma strcmp_eq: "strcmp a b = 0 \<longleftrightarrow> c_string a = c_string b"
  by (induction a b rule: strcmp.induct) (auto simp: c_string_def)

lemma strhash_c_string: "OPENSSL_strhash s = OPENSSL_hash32 (c_string s)"
  by (simp add: OPENSSL_strhash_def strlen_def c_string_def takeWhile_eq_take [symmetric])

interpretation conf_sections: hashing conf_section_hash conf_section_cmp
  by unfold_locales (auto simp: conf_section_cmp_def conf_section_hash_def strcmp_eq strhash_c_string)

interpretation conf_values: hashing conf_value_hash conf_value_cmp
  by unfold_locales (auto simp: conf_value_cmp_def conf_value_hash_def strcmp_eq strhash_c_string Let_def split: if_splits)

end
