(* ===== verification/Spec2Isabelle.thy ===== *)
theory Spec2Isabelle
  imports Nanopb_Fields Bio_Pair Ber Cbs_Time Mem Base64_Codec Stack Lhash
begin

text \<open>
  A verification of the C code that an iOS client (\<open>InstagramClone/\<close>) ships through its pods. The
  application itself is Swift; the C sources are those of its vendored libraries, and the part with
  logic of its own that everything else stands on is the foundation layer of BoringSSL,
  \<open>Pods/BoringSSL-GRPC/src/crypto\<close>: byte strings and DER, time, text encodings, containers and memory
  helpers; all paths below are relative to that directory, except those of \<open>Pods/nanopb\<close>, the Protocol
  Buffers library of the Firebase pods, whose wire format is modelled as well.

  The parts and how they interact. \<open>bytestring/cbs.c\<close> reads and \<open>bytestring/cbb.c\<close> writes byte strings and
  ASN.1; \<open>bytestring/unicode.c\<close> adds code points on both sides, \<open>bytestring/ber.c\<close> parses with the first and
  writes with the second to turn BER into DER; \<open>cbs.c\<close> hands times to \<open>asn1/posix_time.c\<close> and uses the
  comparison and character helpers of \<open>mem.c\<close>; \<open>base64/base64.c\<close> is built on the constant-time helpers of
  \<open>internal.h\<close>; \<open>bio/pair.c\<close> connects two endpoints through ring buffers; \<open>stack/stack.c\<close> and
  \<open>lhash/lhash.c\<close> are the containers, the second used by \<open>conf/conf.c\<close> with the string hash of \<open>mem.c\<close>.

  Conventions. Machine integers are words, or natural numbers taken modulo \<open>size_mod\<close> (\<open>2 ^ 64\<close>, the \<open>size_t\<close> of
  the 64-bit targets) where the code checks for overflow. Memory is a list of bytes; a C string ends at
  its first zero byte. Allocation is a parameter, a function from the number of bytes to fresh memory or
  \<open>None\<close> for a failure (\<open>allocates\<close> says that the memory has the size asked for), so that every
  out-of-memory path is a branch; \<open>zero_alloc\<close> never fails and serves concrete runs. A function that
  returns 0 or NULL on failure returns \<open>None\<close> or \<open>False\<close> and the state it leaves behind; undefined
  behaviour and failed assertions are the outcome \<open>Undef\<close> of \<open>c_result\<close>, or a condition that the text of
  the definition names and the theorems assume. Function pointers that a container stores are arguments.

  Theories, in the order of their imports.
  \<^item> \<open>Bytes_Prelude\<close>: types, memory, allocation, big-endian numbers and facts on lists, maps and words.
  \<^item> \<open>Mem\<close> (\<open>mem.c\<close>): comparison, hashing, copies and character classes.
  \<^item> \<open>Cbs\<close>, \<open>Cbs_Asn1\<close> (\<open>bytestring/cbs.c\<close>): a \<open>CBS\<close> is the list of bytes it still covers, a reader maps it to
    an output and the rest. The locale \<open>cbs_reader\<close> is the contract of all readers: they consume a prefix,
    and read the same whatever follows it.
  \<^item> \<open>Der\<close>: the canonical bytes of tags, lengths and base-128 numbers, with the proof that the parsers
    accept these and nothing else.
  \<^item> \<open>Cbb\<close>, \<open>Cbb_Asn1\<close> (\<open>bytestring/cbb.c\<close>): a builder is its buffer with the chain of open children; a
    \<open>CBB *\<close> is a depth in that chain. \<open>cbb_inv\<close> is the invariant, \<open>contents\<close> the abstraction to bytes,
    \<open>flushed\<close> the specification of \<open>CBB_flush\<close>, and \<open>appends\<close> and \<open>opens\<close> what a writer promises.
  \<^item> \<open>Codec\<close>: the locale \<open>codec\<close> (a \<open>cbs_reader\<close> with a writer of the same encoding), interpreted on every
    pair of functions of the two files; its lemmas give the round trips.
  \<^item> \<open>Oid\<close>, \<open>Set_Of\<close>, \<open>Unicode\<close>: object identifiers and their text, the sorting of a SET OF, code points.
  \<^item> \<open>Cbb_Machine\<close>: the operations as the steps of a machine (\<open>cbb_step\<close>, \<open>cbb_reach\<close>; a call that
    would follow the NULL \<open>base\<close> of a flushed child is \<open>Undef\<close> and no step) with the facts that every reachable state satisfies the invariant and that errors are final.
  \<^item> \<open>Ber\<close> (\<open>bytestring/ber.c\<close>, \<open>asn1_compat.c\<close>): the conversion, with BER values as trees for its
    specification: \<open>ber_der\<close> is the DER encoding of a value, \<open>der_form\<close> says that it is DER as it stands, and
    \<open>cbs_find_ber\<close> is proved to decide the second.
  \<^item> \<open>Posix_Time\<close> (\<open>asn1/posix_time.c\<close>), \<open>Cbs_Time\<close>: calendar arithmetic and the time formats of RFC 5280.
  \<^item> \<open>Constant_Time\<close> (\<open>internal.h\<close>), \<open>Base64\<close>, \<open>Base64_Codec\<close> (\<open>base64/base64.c\<close>): masks and selections; the
    encoder and the decoder, one-shot and streaming, against reference definitions (\<open>b64_encode\<close>, \<open>b64_text\<close>).
  \<^item> \<open>Stack\<close> (\<open>stack/stack.c\<close>): growth, heap sort and binary search; the locale \<open>comparison\<close> is what they need
    of the comparison function; \<open>sk_reach\<close> collects the states the operations reach, with a flag for
    the two operations that can put a stack out of order.
  \<^item> \<open>Lhash\<close> (\<open>lhash/lhash.c\<close>, and the tables of \<open>conf/conf.c\<close>): the hash table refines a set of elements
    without two equal ones; the locale \<open>hashing\<close> is what it needs of its two functions, \<open>keyed_store\<close> what
    its clients get, a run of calls (\<open>lh_run\<close>) that refines the run on a map (\<open>map_run\<close>), and the tables of
    \<open>conf.c\<close> are interpretations of both.
  \<^item> \<open>Bio_Pair\<close> (\<open>bio/pair.c\<close>, and \<open>BIO_new\<close> of \<open>bio/bio.c\<close>): each endpoint is a ring buffer that refines a
    bounded queue (\<open>ring_inv\<close>, \<open>queue\<close>); \<open>pair_run\<close> executes a sequence of calls on both ends.

  \<^item> \<open>Nanopb\<close> (\<open>pb_encode.c\<close>, \<open>pb_decode.c\<close>), \<open>Nanopb_Varint\<close>, \<open>Nanopb_Codec\<close>, \<open>Nanopb_Fields\<close>: streams, the
    values of the wire format and submessages; \<open>reads\<close> and \<open>writes\<close> are the contracts of readers and writers,
    \<open>leb\<close> the canonical varint, \<open>accepts32\<close> the numbers the 32-bit decoder takes, \<open>fields_bytes\<close> the bytes of a message.

  The properties below are grouped by component and rest on the lemmas and interpretations of these
  theories. Loops and recursions are proved to end (structurally or by the length of the input that
  remains; the loops of \<open>pair.c\<close> are partial functions, proved to return), so no definition takes fuel; the only depth bound, 128 levels of BER, is the code's own
  \<open>kMaxDepth\<close>.

  Not modelled. Freeing memory and reference counts have no counterpart, since memory is a value. Of
  \<open>mem.c\<close>, the allocator itself and the \<open>printf\<close> family; of \<open>conf.c\<close>, the parser; of \<open>lhash.c\<close>, callbacks that
  change the table they iterate over. The value barriers of \<open>internal.h\<close> only restrain the compiler and are
  the identity; timing is not modelled. Of nanopb, the
  interpretation of field descriptor tables and streams with callbacks of the client. The other pods are generated code (gRPC's protocol buffers, object
  tables, certificates), C++ or Objective-C, or wrappers around the operating system, and the
  cryptographic primitives of BoringSSL are outside this development.
\<close>

section \<open>Reading DER\<close>

text \<open>C2: \<open>CBS_get_asn1\<close> accepts exactly the DER encoding of an element: it
  returns the contents \<open>c\<close> and the rest \<open>r\<close> if and only if the input is the one canonical
  encoding of \<open>c\<close> under the requested tag, followed by \<open>r\<close>. Every non-minimal tag or length form
  is rejected and every canonical one of a length below \<open>2 ^ 32\<close> is accepted.\<close>

theorem CBS_get_asn1_der_iff:
  "CBS_get_asn1 tag s = (Some c, r) \<longleftrightarrow>
     s = der_element tag c @ r \<and> valid_tag tag \<and> length c < 2 ^ 32"
  using CBS_get_asn1_Some [of tag s c r] by simp

text \<open>C28: if two byte strings are complete DER elements and one is a prefix of the
  other, they are equal; the comment in \<open>compare_set_of_element\<close> relies on it.\<close>

theorem der_prefix_free:
  assumes "CBS_get_any_asn1_element p = (Some e, [])" and "CBS_get_any_asn1_element q = (Some f, [])"
    and "prefix p q"
  shows "p = q"
  using assms by (rule any_element.prefix_free)

theorem der_prefix_free_witness:
  "CBS_get_any_asn1_element [4, 1, 7] =
     (Some \<lparr>el_out = [4, 1, 7], el_tag = 4, el_header_len = 2, el_ber_found = False, el_indefinite = False\<rparr>, []) \<and>
   [4, 1, 7] = ([4, 1, 7] :: byte list)"
proof -
  have "CBS_get_any_asn1_element [4, 1, 7] =
     (Some \<lparr>el_out = [4, 1, 7], el_tag = 4, el_header_len = 2, el_ber_found = False, el_indefinite = False\<rparr>, [])"
    by code_simp
  with der_prefix_free [OF this this] show ?thesis by simp
qed

text \<open>C29: \<open>parse_base128_integer\<close>, which reads tag numbers and the arcs of object
  identifiers, accepts exactly the shortest base-128 encoding of a 64-bit value: no leading zero
  group, no value that overflows.\<close>

theorem base128_canonical:
  "parse_base128_integer s = (Some v, r) \<longleftrightarrow> s = b128 (unat v) @ r"
  by (rule parse_base128_integer_Some)

text \<open>C30: \<open>CBS_get_asn1_uint64\<close> succeeds exactly on the DER INTEGER of a value
  below \<open>2 ^ 64\<close>, and the contents octets are minimal and big-endian: no negative, padded or too
  large integer is accepted.\<close>

theorem asn1_uint64_canonical:
  "CBS_get_asn1_uint64 s = (Some v, r) \<longleftrightarrow>
     (\<exists>c. s = der_element CBS_ASN1_INTEGER c @ r \<and> minimal_uint c \<and> be_nat c = unat v)"
proof -
  have "minimal_uint c \<and> be_nat c = unat v \<longleftrightarrow> c = uint_octets (unat v)" for c
    using minimal_uint_octets [of "unat v"] uint_octets_unique [of c] by auto
  then show ?thesis by (simp add: CBS_get_asn1_uint64_Some)
qed

section \<open>Building byte strings\<close>

text \<open>C1: \<open>CBB_flush\<close> implements its specification on the bytes: it fills in the
  length prefixes of all open children of the object, innermost first, growing and moving the
  contents of ASN.1 children, and closes them. When it fails, because a length does not fit or
  memory runs out, the error flag is set; with memory available it succeeds whenever the lengths fit.\<close>

theorem CBB_flush_refines:
  assumes "allocates al" and "cbb_inv s" and "d \<le> length (cbb_chain s)" and "CBB_flush al d s = (ok, s')"
  shows "cbb_inv s' \<and>
    (if ok then cbb_chain s' = take d (cbb_chain s) \<and> \<not> cbb_error (cbb_base s') \<and>
                flushed (drop d (cbb_chain s)) (contents s) = Some (contents s')
     else cbb_error (cbb_base s')) \<and>
    (unbounded al s \<and> \<not> cbb_error (cbb_base s) \<and>
       (\<exists>m. flushed (drop d (cbb_chain s)) (contents s) = Some m \<and> length m < size_mod) \<longrightarrow> ok)"
  using CBB_flush_spec [OF assms(1,2,4)] assms(3) by (cases ok) auto

theorem CBB_flush_refines_witness:
  "\<exists>s s'. CBB_flush zero_alloc 0 s = (True, s') \<and> contents s = [0, 7, 9] \<and> contents s' = [2, 7, 9] \<and>
     flushed (cbb_chain s) (contents s) = Some (contents s')"
proof -
  define s where "s = snd (cbb_seq (cbb_add_length_prefixed zero_alloc 0 1) (CBB_add_bytes zero_alloc 1 [7, 9]) (cbb_init [] 0 True))"
  define s' where "s' = snd (CBB_flush zero_alloc 0 s)"
  have "CBB_flush zero_alloc 0 s = (True, s')" "contents s = [0, 7, 9]" "contents s' = [2, 7, 9]" "cbb_inv s"
    unfolding s'_def s_def by (simp_all add: cbb_eval)
  moreover have "flushed (cbb_chain s) (contents s) = Some (contents s')"
    using CBB_flush_refines [OF allocates_zero_alloc, of s 0 True s'] calculation by simp
  ultimately show ?thesis by blast
qed

text \<open>C3: whatever operations a program calls, in any order and on any object, as long as
  the call is defined in C (no NULL \<open>base\<close> is followed, \<open>cbb_exec\<close> is not \<open>Undef\<close>), the state of a builder created by \<open>CBB_init\<close> keeps its invariant: the length never
  exceeds the capacity, the capacity is the size of the buffer, and the open children lie inside
  the contents in order.\<close>

theorem cbb_memory_safe:
  assumes "allocates al" and "cap < size_mod" and "CBB_init al cap = (True, s)" and "cbb_reach al s s'"
  shows "cbb_inv s' \<and> can_resize (cbb_base s')"
  using reach_safe [OF assms(4,1)] init_inv [OF assms(1-3)] by (simp add: frame_def)

lemma reach_two_steps:
  assumes "cbb_exec al op1 s = Ret (ok1, s1)" "op_ok op1" "cbb_exec al op2 s1 = Ret (ok2, s2)" "op_ok op2"
  shows "cbb_reach al s s2"
  using assms by (blast intro: cbb_reach.intros cbb_step.intros)

theorem cbb_memory_safe_witness:
  "\<exists>s s'. CBB_init zero_alloc 1 = (True, s) \<and> cbb_reach zero_alloc s s' \<and> contents s' = [48, 0, 1, 2] \<and> cbb_inv s'"
proof -
  define s where "s = snd (CBB_init zero_alloc 1)"
  define s1 where "s1 = snd (CBB_add_asn1 zero_alloc 0 0x20000010 s)"
  define s2 where "s2 = snd (CBB_add_bytes zero_alloc 1 [1, 2] s1)"
  have 0: "CBB_init zero_alloc 1 = (True, s)" unfolding s_def by (simp add: cbb_eval)
  have 1: "cbb_exec zero_alloc (Add_asn1 0 0x20000010) s = Ret (True, s1)" unfolding s1_def s_def by (simp add: cbb_eval)
  have 2: "cbb_exec zero_alloc (Add_bytes 1 [1, 2]) s1 = Ret (True, s2)" unfolding s2_def s1_def s_def by (simp add: cbb_eval)
  have c: "contents s2 = [48, 0, 1, 2]" unfolding s2_def s1_def s_def by (simp add: cbb_eval)
  have r: "cbb_reach zero_alloc s s2" by (rule reach_two_steps [OF 1 _ 2]) simp_all
  show ?thesis using cbb_memory_safe [OF allocates_zero_alloc _ 0 r] 0 r c by auto
qed

text \<open>C25: a builder on a caller's buffer (\<open>CBB_init_fixed\<close>) keeps that buffer: no
  sequence of operations that are defined in C changes its size or writes past its end.\<close>

theorem fixed_buffer_never_grows:
  assumes "allocates al" and "length buf < size_mod" and "cbb_reach al (snd (CBB_init_fixed buf)) s"
  shows "length (cbb_buf (cbb_base s)) = length buf \<and> cbb_len (cbb_base s) \<le> length buf"
proof -
  note i = init_fixed_inv [OF assms(2), of "snd (CBB_init_fixed buf)"]
  have "CBB_init_fixed buf = (True, snd (CBB_init_fixed buf))" by (simp add: CBB_init_fixed_def)
  then show ?thesis using reach_safe [OF assms(3,1) i(1)] i by (simp add: frame_def cbb_inv_def)
qed

theorem fixed_buffer_never_grows_witness:
  "\<exists>s. cbb_reach zero_alloc (snd (CBB_init_fixed [0, 0])) s \<and> cbb_error (cbb_base s) \<and> length (cbb_buf (cbb_base s)) = 2"
proof -
  define s0 where "s0 = snd (CBB_init_fixed [0, 0])"
  define s1 where "s1 = snd (CBB_add_u8 zero_alloc 0 5 s0)"
  define s2 where "s2 = snd (CBB_add_u16 zero_alloc 0 6 s1)"
  have 1: "cbb_exec zero_alloc (Add_u8 0 5) s0 = Ret (True, s1)" unfolding s1_def s0_def by (simp add: cbb_eval)
  have 2: "cbb_exec zero_alloc (Add_u16 0 6) s1 = Ret (False, s2)" unfolding s2_def s1_def s0_def by (simp add: cbb_eval)
  have c: "cbb_error (cbb_base s2)" unfolding s2_def s1_def s0_def by (simp add: cbb_eval)
  have r: "cbb_reach zero_alloc s0 s2" by (rule reach_two_steps [OF 1 _ 2]) simp_all
  show ?thesis using fixed_buffer_never_grows [OF allocates_zero_alloc, of "[0, 0]" s2] r c unfolding s0_def by auto
qed

text \<open>C4: once an operation has set the error flag, it stays set: every later
  operation that looks at it fails, and \<open>CBB_finish\<close> never hands out the bytes.\<close>

theorem cbb_error_is_final:
  assumes "allocates al" and "cbb_inv s" and "cbb_error (cbb_base s)" and "cbb_reach al s s'"
  shows "cbb_error (cbb_base s') \<and> fst (CBB_finish al d want_out s') = None \<and>
    (checks_error op \<longrightarrow> cbb_exec al op s' \<noteq> Ret (True, s''))"
proof -
  have "cbb_error (cbb_base s')" using reach_safe [OF assms(4,1,2)] assms(3) by (simp add: frame_def)
  then show ?thesis using finish_strict exec_strict [of op al] by (simp add: strict_call_def)
qed

theorem cbb_error_is_final_witness:
  "\<exists>s. cbb_error (cbb_base s) \<and> (\<forall>s'. cbb_exec zero_alloc (Add_u8 0 1) s \<noteq> Ret (True, s')) \<and> fst (CBB_finish zero_alloc 0 True s) = None"
proof -
  define s where "s = snd (CBB_add_u16 zero_alloc 0 6 (snd (CBB_init_fixed [0])))"
  have "cbb_inv s" "cbb_error (cbb_base s)" unfolding s_def by (simp_all add: cbb_eval)
  with cbb_error_is_final [OF allocates_zero_alloc this cbb_reach.reach_start, where want_out = True and op = "Add_u8 0 1"] show ?thesis
    by (intro exI [of _ s]) simp
qed

section \<open>Writers and readers agree\<close>

text \<open>C26: byte strings written as length-prefixed children with a prefix of one,
  two or three bytes come back from \<open>CBS_get_u8/u16/u24_length_prefixed\<close>, in order and followed by
  whatever comes after them.\<close>

theorem length_prefixed_round_trip:
  assumes "allocates al" and "\<forall>n. al n \<noteq> None" and "cap < size_mod"
    and "n \<in> {1, 2, 3}" and "list_all (\<lambda>bs. length bs < 256 ^ n) bss"
    and "length (concat (map (\<lambda>bs. be_bytes n (length bs) @ bs) bss)) < size_mod"
  shows "\<exists>out. cbb_build al cap (write_list (add_prefixed n) al 0 bss) = Some out \<and>
    read_list (cbs_get_length_prefixed n) (length bss) (out @ r) = (Some bss, r)"
proof -
  have e: "list_all (\<lambda>bs. length bs < 256 ^ n \<and> n \<in> {1, 2, 3}) bss" using assms(4,5) by (simp add: list_all_iff)
  show ?thesis
    using prefixed_codec.build_succeeds [OF assms(1,3) e assms(2,6)] prefixed_codec.read_list_enc [OF e] by blast
qed

theorem length_prefixed_round_trip_witness:
  "\<exists>out. cbb_build zero_alloc 0 (write_list (add_prefixed 1) zero_alloc 0 [[7, 8], [], [9]]) = Some out \<and>
    read_list (cbs_get_length_prefixed 1) 3 (out @ [255]) = (Some [[7, 8], [], [9]], [255])"
  using length_prefixed_round_trip [of zero_alloc 0 1 "[[7, 8], [], [9]]" "[255]"]
  by (simp add: zero_alloc_def numeral_3_eq_3 del: read_list.simps write_list.simps)

text \<open>C13: every \<open>int64_t\<close> written by \<open>CBB_add_asn1_int64\<close> is read back by
  \<open>CBS_get_asn1_int64\<close>, for lists of values too; the encoding is the shortest two's complement
  one.\<close>

theorem asn1_int64_round_trip:
  assumes "allocates al" and "\<forall>n. al n \<noteq> None" and "cap < size_mod"
    and "length (concat (map (\<lambda>v. der_element CBS_ASN1_INTEGER (int64_octets v)) vs)) < size_mod"
  shows "\<exists>out. cbb_build al cap (write_list CBB_add_asn1_int64 al 0 vs) = Some out \<and>
    read_list CBS_get_asn1_int64 (length vs) (out @ r) = (Some vs, r)"
proof -
  have e: "list_all (\<lambda>_. True) vs" by (simp add: list_all_iff)
  show ?thesis
    using int64_codec.build_succeeds [OF assms(1,3) e assms(2,4)] int64_codec.read_list_enc [OF e] by blast
qed

theorem asn1_int64_round_trip_witness:
  "\<exists>out. cbb_build zero_alloc 0 (write_list CBB_add_asn1_int64 zero_alloc 0 [- 129, 127]) = Some out \<and>
    read_list CBS_get_asn1_int64 2 (out @ [0]) = (Some [- 129, 127], [0])"
proof -
  have "length (concat (map (\<lambda>v. der_element CBS_ASN1_INTEGER (int64_octets v)) [- 129, 127])) < size_mod"
    by (simp add: der_element_def der_header_def der_tag_def der_len_def int64_octets_def uint_octets.simps)
  from asn1_int64_round_trip [OF allocates_zero_alloc _ _ this, of 0 "[0]"] show ?thesis
    by (simp add: zero_alloc_def numeral_2_eq_2)
qed

text \<open>C27: an object identifier given as dotted decimal text is encoded by
  \<open>CBB_add_asn1_oid_from_text\<close>, and \<open>CBS_asn1_oid_to_text\<close> prints the encoding as the same text,
  for all arcs below \<open>2 ^ 64\<close> that the first octet allows.\<close>

theorem oid_text_round_trip:
  assumes "allocates al" and "\<forall>n. al n \<noteq> None" and "cap < size_mod" and "valid_arcs a b"
    and "length (oid_octets a b vs) < size_mod" and "length (dotted (a # b # vs)) < size_mod - 1"
  shows "\<exists>out. cbb_build al cap (CBB_add_asn1_oid_from_text al 0 (dotted (a # b # vs))) = Some out \<and>
    CBS_asn1_oid_to_text al out = Some (dotted (a # b # vs) @ [0])"
  using build_appends(2) [OF assms(1,3) oid_from_text_appends [OF assms(1,4)] assms(2,5)]
    oid_to_text_octets(2) [OF assms(1,4,2,6)] by blast

theorem oid_text_round_trip_witness:
  "\<exists>out. cbb_build zero_alloc 0 (CBB_add_asn1_oid_from_text zero_alloc 0 (dotted [2, 100, 3])) = Some out \<and>
    CBS_asn1_oid_to_text zero_alloc out = Some (dotted [2, 100, 3] @ [0])"
  by (rule oid_text_round_trip) (simp_all add: zero_alloc_def valid_arcs_def oid_octets_def b128_def b128_high.simps decimal.simps)

text \<open>C12: \<open>CBB_flush_asn1_set_of\<close> leaves the same elements in the set, in ascending order
  of their encodings as DER demands, and does not touch the bytes before them.\<close>

theorem set_of_sorted:
  assumes "allocates al" and "cbb_inv s" and "CBB_flush_asn1_set_of al d s = (True, s')"
    and "flushed (drop d (cbb_chain s)) (contents s) = Some m"
  shows "\<exists>pre es. m = pre @ concat es \<and> contents s' = pre @ concat (sort es) \<and> length pre = CBB_start d s \<and>
    split_elements (concat es) = Some es"
  using flush_set_of_spec [OF assms(1-3)] assms(4) by (metis option.inject)

theorem set_of_sorted_witness:
  "\<exists>s s' pre es. CBB_flush_asn1_set_of zero_alloc 0 s = (True, s') \<and> contents s = pre @ concat es \<and>
     contents s' = pre @ concat (sort es) \<and> contents s = [4, 1, 9, 4, 1, 7] \<and> contents s' = [4, 1, 7, 4, 1, 9]"
proof -
  define s where "s = cbb_init [] 0 True\<lparr>cbb_base := \<lparr>cbb_buf = [4, 1, 9, 4, 1, 7], cbb_len = 6, cbb_cap = 6,
    can_resize = True, cbb_error = False\<rparr>\<rparr>"
  define s' where "s' = snd (CBB_flush_asn1_set_of zero_alloc 0 s)"
  have e: "split_elements [4, 1, 9, 4, 1, 7] = Some [[4, 1, 9], [4, 1, 7]]"
    "qsort compare_set_of_element [[4, 1, 9], [4, 1, 7]] = [[4, 1, 7], [4, 1, 9]]" by code_simp+
  have 1: "CBB_flush_asn1_set_of zero_alloc 0 s = (True, s')" "contents s' = [4, 1, 7, 4, 1, 9]"
    unfolding s'_def s_def
    by (simp_all add: CBB_flush_asn1_set_of_def CBB_data_def CBB_start_def CBB_len_def OPENSSL_memdup_def cbb_eval e)
  have 2: "cbb_inv s" "contents s = [4, 1, 9, 4, 1, 7]" "flushed (drop 0 (cbb_chain s)) (contents s) = Some (contents s)"
    unfolding s_def by (simp_all add: cbb_eval)
  show ?thesis using set_of_sorted [OF allocates_zero_alloc 2(1) 1(1) 2(3)] 1 2(2) by metis
qed

text \<open>C18: \<open>CBS_get_utf8\<close> accepts exactly the shortest UTF-8 encoding of a valid code
  point: over-long forms, surrogates, noncharacters and values above \<open>0x10ffff\<close> are rejected.\<close>

theorem utf8_canonical:
  "CBS_get_utf8 s = (Some u, r) \<longleftrightarrow> s = utf8 (unat u) @ r \<and> is_valid_code_point u"
  by (rule CBS_get_utf8_Some)

text \<open>C19: text written one code point at a time by \<open>CBB_add_utf8\<close> is read back by
  \<open>CBS_get_utf8\<close>, and takes the number of bytes \<open>CBB_get_utf8_len\<close> announces.\<close>

theorem utf8_round_trip:
  assumes "allocates al" and "\<forall>n. al n \<noteq> None" and "cap < size_mod" and "list_all is_valid_code_point us"
    and "(\<Sum>u\<leftarrow>us. CBB_get_utf8_len u) < size_mod"
  shows "\<exists>out. cbb_build al cap (write_list CBB_add_utf8 al 0 us) = Some out \<and>
    length out = (\<Sum>u\<leftarrow>us. CBB_get_utf8_len u) \<and> read_list CBS_get_utf8 (length us) (out @ r) = (Some us, r)"
proof -
  let ?m = "concat (map (\<lambda>u. utf8 (unat u)) us)"
  have len: "length ?m = (\<Sum>u\<leftarrow>us. CBB_get_utf8_len u)" using assms(4) by (induction us) (simp_all add: length_utf8)
  then show ?thesis
    using utf8_codec.build_succeeds [OF assms(1,3,4,2)] utf8_codec.read_list_enc [OF assms(4)] assms(5) by auto
qed

theorem utf8_round_trip_witness:
  "\<exists>out. cbb_build zero_alloc 0 (write_list CBB_add_utf8 zero_alloc 0 [0x41, 0x20ac]) = Some out \<and>
    length out = 4 \<and> read_list CBS_get_utf8 (length [0x41, 0x20ac :: u32]) (out @ [0]) = (Some [0x41, 0x20ac], [0])"
proof -
  have "list_all is_valid_code_point [0x41, 0x20ac]" "(\<Sum>u\<leftarrow>[0x41, 0x20ac]. CBB_get_utf8_len u) = 4" by code_simp+
  with utf8_round_trip [of zero_alloc 0 "[0x41, 0x20ac]" "[0]"] show ?thesis
    by (simp add: zero_alloc_def del: read_list.simps write_list.simps)
qed

section \<open>From BER to DER\<close>

text \<open>C5: \<open>CBS_asn1_ber_to_der\<close> on a sequence of BER values, with indefinite and
  non-minimal lengths and constructed strings nested up to the depth limit. When all of them are in DER
  form (\<open>der_form\<close>: minimal definite lengths, no constructed string), it returns the first one as it
  stands. Otherwise it returns the DER encoding of the same values, with constructed strings joined, as
  long as memory is available and the DER lengths fit into four bytes.\<close>

theorem ber_to_der_converts:
  assumes "allocates al" and "\<forall>n. al n \<noteq> None" and "ts \<noteq> []" and "forest_ok 0 kMaxDepth ts"
    and "length (forest_bytes ts) < size_mod" and "forest_der 0 ts = Some out" and "length out < size_mod"
  shows "CBS_asn1_ber_to_der al (forest_bytes ts) =
    (if list_all der_form ts then (Some (ber_bytes (hd ts), False), forest_bytes (tl ts)) else (Some (out, True), []))"
proof (cases "list_all der_form ts")
  case True
  then show ?thesis using ber_to_der_unchanged [of "hd ts" "tl ts" al] assms(3,4) by simp
next
  case False
  then show ?thesis using ber_to_der_complete [OF assms(1,2,4-7)] by simp
qed

theorem ber_to_der_converts_witness:
  "CBS_asn1_ber_to_der zero_alloc [0x24, 3, 4, 1, 7, 5, 0] = (Some ([4, 1, 7, 5, 0], True), [])"
proof -
  define ts where "ts = [Constr 0x20000004 (Some [3]) [Prim 4 [1] [7]], Prim 5 [0] []]"
  have "forest_ok 0 kMaxDepth ts" "forest_der 0 ts = Some [4, 1, 7, 5, 0]" "forest_bytes ts = [0x24, 3, 4, 1, 7, 5, 0]"
    by (simp_all add: ts_def valid_tag_def len_octets_def child_string_tag_def joins_def is_string_type_def put_value_def
      put_element_def der_element_def der_header_def der_tag_def der_len_def) (rule exI [of _ False], simp)+
  moreover have "ts \<noteq> []" "\<not> list_all der_form ts" by (simp_all add: ts_def)
  ultimately show ?thesis using ber_to_der_converts [OF allocates_zero_alloc, of ts] by (simp add: zero_alloc_def)
qed

text \<open>C6: whatever \<open>CBS_asn1_ber_to_der\<close> returns is a sequence of values in DER
  form, within the depth limit: minimal definite lengths and no constructed string at any level. A
  result in a new buffer is the DER encoding of the whole input, which is a sequence of BER values;
  otherwise the result is the first element of the input as it stands.\<close>

theorem ber_to_der_output:
  assumes "allocates al" and "length inp < size_mod" and "CBS_asn1_ber_to_der al inp = (Some (out, stored), r)"
  shows "(\<exists>us. out = forest_bytes us \<and> forest_ok 0 kMaxDepth us \<and> list_all der_form us) \<and>
    (if stored then r = [] \<and> (\<exists>ts. forest_ok 0 kMaxDepth ts \<and> inp = forest_bytes ts \<and> forest_der 0 ts = Some out)
     else inp = out @ r)"
  using ber_to_der_sound [OF assms] by (cases stored) (simp_all only: if_True if_False simp_thms)

theorem ber_to_der_output_witness:
  "CBS_asn1_ber_to_der zero_alloc [4, 1, 7, 5, 0] = (Some ([4, 1, 7], False), [5, 0]) \<and>
    (\<exists>us. [4, 1, 7] = forest_bytes us \<and> list_all der_form us)"
proof -
  have "cbs_find_ber 0 [4, 1, 7, 5, 0] = Some False" "CBS_get_any_asn1_element [4, 1, 7, 5, 0] =
     (Some \<lparr>el_out = [4, 1, 7], el_tag = 4, el_header_len = 2, el_ber_found = False, el_indefinite = False\<rparr>, [5, 0])"
    by code_simp+
  then have 1: "CBS_asn1_ber_to_der zero_alloc [4, 1, 7, 5, 0] = (Some ([4, 1, 7], False), [5, 0])"
    by (simp add: CBS_asn1_ber_to_der_def rret_def)
  from ber_to_der_output [OF allocates_zero_alloc _ 1] 1 show ?thesis by auto
qed

text \<open>C34: \<open>CBS_get_asn1_implicit_string\<close>, called with tags that satisfy its
  assertions, on a constructed string returns the pieces
  joined, however the string was cut, and leaves the input after it.\<close>

theorem implicit_string_joined:
  assumes "allocates al" and "\<forall>n. al n \<noteq> None" and "outer AND CBS_ASN1_CONSTRUCTED = 0" and "valid_tag outer"
    and "valid_tag inner" and "inner AND CBS_ASN1_CONSTRUCTED = 0" and "is_string_type inner" and "\<forall>c \<in> set cs. length c < 2 ^ 32" and "length (concat (map (der_element inner) cs)) < 2 ^ 32"
    and "s = der_element (outer OR CBS_ASN1_CONSTRUCTED) (concat (map (der_element inner) cs)) @ r" and "length s < size_mod"
  shows "CBS_get_asn1_implicit_string al outer inner s = Ret (Some (concat cs, True), r)"
  using assms by (rule implicit_string_constructed)

theorem implicit_string_joined_witness:
  "CBS_get_asn1_implicit_string zero_alloc 0x80000000 4 [0xa0, 6, 4, 1, 7, 4, 1, 9, 255] = Ret (Some ([7, 9], True), [255])"
  using implicit_string_joined [where al = zero_alloc and outer = "0x80000000" and inner = 4 and cs = "[[7], [9]]"
      and s = "[0xa0, 6, 4, 1, 7, 4, 1, 9, 255]" and r = "[255]"]
  by (simp add: zero_alloc_def valid_tag_def is_string_type_def der_element_def der_header_def der_tag_def der_len_def)

section \<open>Times\<close>

text \<open>C20: \<open>posix_time_from_utc\<close> and \<open>utc_from_posix_time\<close> are inverse to each other between
  the valid dates and times and the seconds from 0000-01-01 00:00:00 to 9999-12-31 23:59:59 of the
  proleptic Gregorian calendar, and every such second has a date and time.\<close>

theorem posix_time_bijection:
  "(posix_time_from_utc y m d h mi s = Some t \<longleftrightarrow>
     is_valid_epoch_time t \<and> utc_from_posix_time t = Some (y, m, d, h, mi, s)) \<and>
   (is_valid_epoch_time t \<longleftrightarrow> utc_from_posix_time t \<noteq> None)"
proof (intro conjI iffI)
  assume "posix_time_from_utc y m d h mi s = Some t"
  then show "is_valid_epoch_time t" "utc_from_posix_time t = Some (y, m, d, h, mi, s)" by (rule posix_utc_round_trip)+
next
  assume "is_valid_epoch_time t \<and> utc_from_posix_time t = Some (y, m, d, h, mi, s)"
  then show "posix_time_from_utc y m d h mi s = Some t" by (metis utc_posix_round_trip option.inject prod.inject)
next
  assume "is_valid_epoch_time t"
  then show "utc_from_posix_time t \<noteq> None" by (metis utc_posix_round_trip option.distinct(1))
next
  assume "utc_from_posix_time t \<noteq> None"
  then show "is_valid_epoch_time t" by (simp add: utc_from_posix_time_def split: if_splits)
qed

text \<open>C31: without time zone offsets, \<open>CBS_parse_rfc5280_time_internal\<close> accepts exactly
  the strings \<open>YYYYMMDDhhmmssZ\<close> (\<open>YYMMDDhhmmssZ\<close> for UTCTime, years 1950 to 2049) whose fields are a
  date and a time that exist, and stores those fields.\<close>

theorem rfc5280_time_iff:
  "CBS_parse_rfc5280_time_internal s is_gentime False (Some t) = (True, out) \<longleftrightarrow>
     (\<exists>y m d h mi sec. year_ok is_gentime y \<and> is_valid_date y m d \<and> is_valid_time h mi sec \<and>
        s = year_digits is_gentime y @ time_digits m d h mi sec @ [90] \<and> out = Some (set_tm y m d h mi sec t))"
  by (rule parse_rfc5280_Z)

text \<open>C38: a time with the zone offset \<open>+hhmm\<close> (or \<open>-hhmm\<close>) is converted by adding
  (or subtracting) the offset to the local fields; the value that comes out is later than the
  written local time for a zone east of Greenwich.\<close>

theorem rfc5280_offset_added:
  assumes "year_ok g y" and "is_valid_date y m d" and "is_valid_time h mi sec"
    and "tz = 43 \<or> tz = 45" and "0 \<le> oh" "oh \<le> 23" "0 \<le> om" "om \<le> 59"
    and "posix_time_from_utc y m d h mi sec = Some p"
    and "is_valid_epoch_time (p + (if tz = 43 then 1 else - 1) * (oh * 3600 + om * 60))"
  shows "\<exists>t'. CBS_parse_rfc5280_time_internal
      (year_digits g y @ time_digits m d h mi sec @ tz # two_digits oh @ two_digits om) g True (Some t) = (True, Some t') \<and>
    OPENSSL_tm_to_posix t' = Ret (p + (if tz = 43 then 1 else - 1) * (oh * 3600 + om * 60))"
  using parse_rfc5280_offset [OF assms] .

theorem rfc5280_offset_added_witness:
  "\<exists>t'. CBS_parse_rfc5280_time_internal
      (year_digits True 2000 @ time_digits 1 1 0 0 0 @ 43 # two_digits 1 @ two_digits 0) True True (Some tm_zero) = (True, Some t') \<and>
    OPENSSL_tm_to_posix t' = Ret (946684800 + 3600)"
proof -
  have "posix_time_from_utc 2000 1 1 0 0 0 = Some 946684800" "is_valid_date 2000 1 1" "is_valid_time 0 0 0"
    "is_valid_epoch_time (946684800 + 3600)" "year_ok True 2000" by code_simp+
  with rfc5280_offset_added [of True 2000 1 1 0 0 0 43 1 0 946684800 tm_zero] show ?thesis by simp
qed

section \<open>Constant-time selection and memory helpers\<close>

text \<open>Remark: the branch-free comparisons of \<open>crypto/internal.h\<close> return all ones
  exactly when the unsigned comparison holds, for all 64-bit words.\<close>

theorem constant_time_comparisons:
  "constant_time_lt_w a b = (if a < b then - 1 else 0) \<and>
   constant_time_ge_w a b = (if a \<ge> b then - 1 else 0) \<and>
   constant_time_eq_w a b = (if a = b then - 1 else 0) \<and>
   constant_time_select_w (if c then - 1 else 0) a b = (if c then a else b)"
  using lt_w [of a b] ge_w [of a b] eq_w [of a b] select_w [of c a b] by simp

text \<open>C37: the constant-time \<open>CRYPTO_memcmp\<close> returns zero exactly when the buffers are
  equal, whatever bytes differ.\<close>

theorem CRYPTO_memcmp_spec:
  assumes "length a = length b"
  shows "CRYPTO_memcmp a b = 0 \<longleftrightarrow> a = b"
  using assms by (rule CRYPTO_memcmp_eq_0)

theorem CRYPTO_memcmp_spec_witness: "CRYPTO_memcmp [1, 2] [1, 3] \<noteq> 0"
  using CRYPTO_memcmp_spec [of "[1, 2]" "[1, 3]"] by simp

text \<open>Remark: \<open>OPENSSL_strlcpy\<close> copies as much of the string as fits, always
  terminates it inside the buffer, leaves the rest of the buffer alone and returns the full length
  of the source.\<close>

theorem strlcpy_terminates:
  assumes "0 < n" and "n \<le> length dst" and "OPENSSL_strlcpy dst src n = (dst', k)"
  shows "k = strlen src \<and> length dst' = length dst \<and>
    dst' = write_at dst 0 (take (min (strlen src) (n - 1)) src @ [0])"
  using strlcpy_spec [OF assms] by simp

theorem strlcpy_terminates_witness:
  "\<exists>dst' k. OPENSSL_strlcpy [9, 9, 9, 9] [65, 66, 67, 0] 3 = (dst', k) \<and> k = 3 \<and> dst' = [65, 66, 0, 9]"
proof -
  obtain dst' k where r: "OPENSSL_strlcpy [9, 9, 9, 9] [65, 66, 67, 0] 3 = (dst', k)" by fastforce
  have "strlen [65, 66, 67, 0] = 3" by code_simp
  with strlcpy_terminates [OF _ _ r] r show ?thesis by (simp add: write_at_def)
qed

section \<open>Base64\<close>

text \<open>Remark: the branch-free conversions of \<open>base64.c\<close> agree with the alphabet of RFC
  4648: six bits select the character, and a character gives its index back, \<open>=\<close> gives zero and any
  other byte the error value \<open>0xff\<close>.\<close>

theorem base64_alphabet_tables:
  "conv_bin2ascii a = b64_alphabet ! (unat a mod 64) \<and>
   base64_ascii_to_bin (conv_bin2ascii a) = word_of_nat (unat a mod 64) \<and>
   base64_ascii_to_bin 61 = 0 \<and> (base64_ascii_to_bin c = 0xff \<longleftrightarrow> c \<noteq> 61 \<and> c \<notin> set b64_alphabet)"
proof -
  have "base64_ascii_to_bin c = 0xff \<longleftrightarrow> c \<noteq> 61 \<and> c \<notin> set b64_alphabet"
  proof (cases c rule: ascii_to_bin_cases)
    case (char i)
    then have "unat (base64_ascii_to_bin c) = i" by (simp add: unat_byte_of_nat)
    then show ?thesis using char nth_mem [of i b64_alphabet] length_alphabet by auto
  qed simp_all
  moreover have "base64_ascii_to_bin 61 = 0" by (cases "61 :: byte" rule: ascii_to_bin_cases) simp_all
  ultimately show ?thesis by (simp add: conv_bin2ascii_alphabet ascii_to_bin_alphabet)
qed

text \<open>C36: \<open>EVP_EncodeBlock\<close> writes the Base64 text of its input and a NUL, nothing else,
  returns the length of the text, and \<open>EVP_EncodedLength\<close> announces exactly the bytes written, or
  fails when that number does not fit into \<open>size_t\<close>.\<close>

theorem EncodeBlock_bounds:
  assumes "off \<le> length dst" and "length src < size_mod"
  shows "EVP_EncodeBlock dst off src = (write_at dst off (b64_encode src @ [0]), length (b64_encode src)) \<and>
    EVP_EncodedLength (length src) =
      (if length (b64_encode src @ [0]) < size_mod then Some (length (b64_encode src @ [0])) else None)"
  using EncodeBlock_spec [OF assms(1)] EncodedLength_iff [OF assms(2)] by (simp add: length_b64_encode)

theorem EncodeBlock_bounds_witness:
  "EVP_EncodeBlock [9, 9, 9, 9, 9, 9] 0 [77, 97] = ([84, 87, 69, 61, 0, 9], 4) \<and>
   EVP_EncodedLength (length [77, 97 :: byte]) = Some 5"
proof -
  have "b64_encode [77, 97] = [84, 87, 69, 61]" by (simp add: b64_alphabet_def)
  with EncodeBlock_bounds [of 0 "[9, 9, 9, 9, 9, 9]" "[77, 97]"] show ?thesis by (simp add: write_at_def del: b64_encode.simps)
qed

text \<open>C23: encoding a message through \<open>EVP_EncodeUpdate\<close> and \<open>EVP_EncodeFinal\<close> gives
  the same text however the message is cut into chunks: the Base64 of 48-byte lines, each followed
  by a newline.\<close>

theorem base64_stream_encoding:
  assumes "65 * (length (concat chunks) div 48) \<le> INT_MAX"
  shows "encode_chunks EVP_EncodeInit out chunks = Ret (b64_stream (concat chunks))"
  using encode_chunks_spec [OF EncodeInit_inv(1)] assms by (simp add: EncodeInit_inv(2))

theorem base64_stream_encoding_witness:
  "encode_chunks EVP_EncodeInit [] [[77], [], [97, 110]] = Ret [84, 87, 70, 117, 10]"
  using base64_stream_encoding [of "[[77], [], [97, 110]]" "[]"]
  by (simp add: b64_stream_def left_over_def full_lines_short b64_alphabet_def)

text \<open>C24: \<open>EVP_DecodeBase64\<close> accepts exactly whole groups of four characters of the
  alphabet with at most two \<open>=\<close> at the very end, provided the output buffer is large enough, and
  writes the bytes the text stands for.\<close>

theorem DecodeBase64_iff:
  "EVP_DecodeBase64 out max_out inp = (True, out', n) \<longleftrightarrow>
     (\<exists>body p. inp = body @ replicate p 61 \<and> b64_text body p \<and> length inp div 4 * 3 \<le> max_out \<and>
        out' = write_at out 0 (b64_bytes body p) \<and> n = length (b64_bytes body p))"
  by (rule DecodeBase64_Some)

text \<open>C8: the streaming decoder accepts a text exactly when, without its white space,
  it is valid padded Base64, whatever the chunks it arrives in, and returns its bytes.\<close>

theorem stream_decoding_iff:
  assumes "length (concat chunks) \<le> INT_MAX"
  shows "decode_chunks EVP_DecodeInit out chunks = Ret xs \<longleftrightarrow>
     (\<exists>body p. filter (\<lambda>c. \<not> is_ws c) (concat chunks) = body @ replicate p 61 \<and> b64_text body p \<and> xs = b64_bytes body p)"
  using assms by (rule decode_chunks_iff)

theorem stream_decoding_iff_witness:
  "decode_chunks EVP_DecodeInit [] [[84, 87], [10, 70, 117]] = Ret [77, 97, 110]"
proof -
  obtain body p where "b64_encode [77, 97, 110] = body @ replicate p 61" "b64_text body p" "b64_bytes body p = [77, 97, 110]"
    using encode_text by blast
  moreover have "filter (\<lambda>c. \<not> is_ws c) (concat [[84, 87], [10, 70, 117]]) = b64_encode [77, 97, 110]"
    by (simp add: is_ws_def b64_alphabet_def)
  ultimately show ?thesis
    using stream_decoding_iff [of "[[84, 87], [10, 70, 117]]" "[]" "[77, 97, 110]"] by fastforce
qed

text \<open>C7: the text produced by the streaming encoder, cut into any chunks, is
  decoded by the streaming decoder to the original message.\<close>

theorem stream_codec_round_trip:
  assumes "65 * (length (concat msg) div 48) \<le> INT_MAX" and "encode_chunks EVP_EncodeInit out msg = Ret txt"
    and "concat chunks = txt" and "length txt \<le> INT_MAX"
  shows "decode_chunks EVP_DecodeInit out' chunks = Ret (concat msg)"
proof -
  have "txt = b64_stream (concat msg)"
    using encode_chunks_spec [OF EncodeInit_inv(1), of msg out] assms(1,2) by (simp add: EncodeInit_inv(2))
  then show ?thesis using stream_round_trip [of chunks "concat msg" out'] assms by simp
qed

theorem stream_codec_round_trip_witness:
  "\<exists>txt. encode_chunks EVP_EncodeInit [] [[77], [97, 110]] = Ret txt \<and> decode_chunks EVP_DecodeInit [] [txt] = Ret [77, 97, 110]"
proof -
  have "encode_chunks EVP_EncodeInit [] [[77], [97, 110]] = Ret (b64_stream [77, 97, 110])"
    using encode_chunks_spec [OF EncodeInit_inv(1), of "[[77], [97, 110]]" "[]"] by (simp add: EncodeInit_inv(2))
  moreover have "length (b64_stream [77, 97, 110]) \<le> INT_MAX"
    by (simp add: b64_stream_def left_over_def full_lines_short)
  ultimately show ?thesis using stream_codec_round_trip [of "[[77], [97, 110]]" "[]" _ "[_]" "[]"] by auto
qed

text \<open>Remark: \<open>EVP_DecodeBlock\<close> fails on every text that ends with a minus sign;
  nothing but white space is stripped from the end of its input.\<close>

theorem DecodeBlock_rejects_minus: "fst (EVP_DecodeBlock dst (src @ [45])) = - 1"
  by (rule DecodeBlock_minus)

section \<open>Stacks\<close>

text \<open>C10: \<open>OPENSSL_sk_sort\<close> (a heap sort) leaves the same elements in the order of the
  stack's comparison function and marks the stack as sorted.\<close>

theorem sk_sort_sorts:
  assumes "sk_good call s" and "comparison (call (sk_comp s))" and "sk_comp s \<noteq> 0"
  shows "\<exists>s'. OPENSSL_sk_sort call (Some s) = Some s' \<and> sk_good call s' \<and> sorted_flag s' \<and>
    mset (sk_list s') = mset (sk_list s)"
proof -
  have "sk_inv s" "sorted_flag s \<Longrightarrow> sk_ordered call s" using assms(1) by (simp_all add: sk_good_def)
  from sk_sort_spec [OF this(1) assms(2) this(2) assms(3)] show ?thesis using assms(3) unfolding sk_good_def by metis
qed

text \<open>C21: \<open>OPENSSL_sk_find\<close> returns the first element that compares equal; the binary search
  it uses on a sorted stack gives the same index as the linear search on an unsorted one.\<close>

theorem sk_find_first:
  assumes "sk_good call s" and "comparison (call (sk_comp s))"
  shows "OPENSSL_sk_find call (Some s) p =
     (if sk_comp s = 0 then find (\<lambda>i. sk_list s ! i = p) [0..<num s]
      else if p = None then None
      else find (\<lambda>i. call (sk_comp s) p (sk_list s ! i) = 0) [0..<num s])"
  using assms by (intro sk_find_spec) (simp_all add: sk_good_def)

text \<open>C35: \<open>OPENSSL_sk_insert\<close> either inserts the element at the position (at the end when the
  position is too large), keeping all others in order, or fails because of memory or the \<open>INT_MAX\<close>
  limit and changes nothing.\<close>

theorem sk_insert_list:
  assumes "sk_inv s" and "ptr_allocates al"
  shows "OPENSSL_sk_insert al (Some s) p pos = (0, Some s) \<and> (INT_MAX \<le> num s \<or> al (8 * (2 * num_alloc s)) = None) \<or>
     (\<exists>s'. OPENSSL_sk_insert al (Some s) p pos = (num s + 1, Some s') \<and> sk_inv s' \<and>
        sk_list s' = take pos (sk_list s) @ [p] @ drop pos (sk_list s))"
  using sk_insert_spec [OF assms, of p pos] by (elim disjE) blast+

text \<open>C22: on every stack that the operations of \<open>stack.c\<close> can build, the invariant
  holds. The \<open>sorted\<close> flag is only set when the elements really are in order, unless, since the flag was
  last clear, \<open>OPENSSL_sk_set\<close> has replaced an element or \<open>OPENSSL_sk_deep_copy\<close> has copied with a
  function that does not keep the order (\<open>stale\<close>). The two are the only exceptions, and sorting a
  stack whose flag is clear ends them.\<close>

theorem sk_reachable_good:
  assumes "ptr_allocates al" and "\<And>c. c \<noteq> 0 \<Longrightarrow> comparison (call c)" and "sk_reach call al stale s"
  shows "sk_inv s \<and> (sorted_flag s \<and> \<not> stale \<longrightarrow> sk_comp s \<noteq> 0 \<and> sk_ordered call s)"
  using sk_reach_good [OF assms] by (simp add: sk_good_def)

definition bytes_call :: "byte list cmp_func" where
  "bytes_call c x y = compare_set_of_element (case x of None \<Rightarrow> [] | Some a \<Rightarrow> a) (case y of None \<Rightarrow> [] | Some b \<Rightarrow> b)"

definition null_alloc :: "'a ptr_allocator" where
  "null_alloc n = Some (replicate (n div 8) None)"

definition small_stack :: "byte list stack_st" where
  "small_stack = \<lparr>num = 3, sk_data = [Some [7], Some [3], Some [5], None], sorted_flag = False, num_alloc = 4, sk_comp = 1\<rparr>"

lemma bytes_comparison: "comparison (bytes_call c)"
proof -
  have "bytes_call c = (\<lambda>x y. compare_set_of_element (case x of None \<Rightarrow> [] | Some a \<Rightarrow> a) (case y of None \<Rightarrow> [] | Some b \<Rightarrow> b))"
    by (simp add: fun_eq_iff bytes_call_def)
  then show ?thesis
    using comparison_pullback [OF set_of_order.comparison_axioms, of "\<lambda>x. case x of None \<Rightarrow> [] | Some a \<Rightarrow> a"] by simp
qed

lemma ptr_allocates_null: "ptr_allocates null_alloc"
  by (simp add: ptr_allocates_def null_alloc_def)

lemma small_stack_good: "sk_good bytes_call small_stack" "sk_inv small_stack"
  by (simp_all add: sk_good_def sk_inv_def small_stack_def)

theorem sk_sort_sorts_witness:
  "\<exists>s'. OPENSSL_sk_sort bytes_call (Some small_stack) = Some s' \<and> sorted_flag s' \<and>
     mset (sk_list s') = {#Some [3], Some [5], Some [7]#}"
  using sk_sort_sorts [OF small_stack_good(1) bytes_comparison]
  by (auto simp: small_stack_def sk_list_def add_mset_commute)

theorem sk_find_first_witness: "OPENSSL_sk_find bytes_call (Some small_stack) (Some [5]) = Some 2"
  unfolding sk_find_first [OF small_stack_good(1) bytes_comparison, of "Some [5]"]
  by (simp add: small_stack_def sk_list_def upt_conv_Cons bytes_call_def compare_set_of_element_def)

theorem sk_insert_list_witness:
  "\<exists>s'. OPENSSL_sk_insert null_alloc (Some small_stack) (Some [1]) 1 = (4, Some s') \<and>
     sk_list s' = [Some [7], Some [1], Some [3], Some [5]]"
  using sk_insert_list [OF small_stack_good(2) ptr_allocates_null, of "Some [1]" 1]
  by (auto simp: null_alloc_def small_stack_def sk_list_def)

theorem sk_reachable_good_witness:
  "\<exists>s. sk_reach bytes_call null_alloc False s \<and> sorted_flag s \<and> sk_list s = [Some [3], Some [7]] \<and> sk_ordered bytes_call s"
proof -
  define s0 :: "byte list stack_st" where "s0 = \<lparr>num = 0, sk_data = [None, None, None, None], sorted_flag = False, num_alloc = 4, sk_comp = 1\<rparr>"
  define s1 where "s1 = s0\<lparr>num := 1, sk_data := [Some [7], None, None, None]\<rparr>"
  define s2 where "s2 = s0\<lparr>num := 2, sk_data := [Some [7], Some [3], None, None]\<rparr>"
  define s3 where "s3 = s0\<lparr>num := 2, sk_data := [Some [3], Some [7], None, None], sorted_flag := True\<rparr>"
  have "replicate 4 (None :: byte list option) = [None, None, None, None]" by (simp add: numeral_eq_Suc)
  then have "OPENSSL_sk_new True null_alloc 1 = Some s0" by (simp add: OPENSSL_sk_new_def null_alloc_def s0_def)
  then have r0: "sk_reach bytes_call null_alloc False s0" by (rule sk_reach.new)
  have "OPENSSL_sk_push null_alloc (Some s0) (Some [7]) = Ret (1, Some s1)"
    by (simp add: OPENSSL_sk_push_def OPENSSL_sk_insert_def sk_grow_def Let_def s0_def s1_def)
  from sk_reach.step [OF r0 sk_step.push [OF this]] have r1: "sk_reach bytes_call null_alloc False s1" by simp
  have "OPENSSL_sk_insert null_alloc (Some s1) (Some [3]) 1 = (2, Some s2)"
    by (simp add: OPENSSL_sk_insert_def sk_grow_def Let_def s0_def s1_def s2_def)
  from sk_reach.step [OF r1 sk_step.insert [OF this]] have r2: "sk_reach bytes_call null_alloc False s2" by simp
  have "OPENSSL_sk_sort bytes_call (Some s2) = Some s3" unfolding s2_def s3_def s0_def by code_simp
  from sk_reach.step [OF r2 sk_step.sort [OF this]] have r3: "sk_reach bytes_call null_alloc False s3" by simp
  have "sorted_flag s3" "sk_list s3 = [Some [3], Some [7]]" by (simp_all add: s3_def s0_def sk_list_def)
  with sk_reachable_good [OF ptr_allocates_null bytes_comparison r3] r3 show ?thesis by blast
qed

text \<open>C40: \<open>OPENSSL_sk_set\<close> stores the element but leaves the \<open>sorted\<close> flag as it was, so
  a sorted stack can end up marked as sorted with its elements out of order, and \<open>OPENSSL_sk_find\<close>
  does not find an element that the stack holds.\<close>

theorem sk_set_keeps_flag:
  "\<exists>s s'. sk_good bytes_call s \<and> sorted_flag s \<and> OPENSSL_sk_set (Some s) 0 (Some [9]) = (Some [9], Some s') \<and>
     sorted_flag s' \<and> Some [9] \<in> set (sk_list s') \<and> OPENSSL_sk_find bytes_call (Some s') (Some [9]) = None"
proof -
  define s :: "byte list stack_st" where "s = \<lparr>num = 3, sk_data = [Some [3], Some [5], Some [7], None], sorted_flag = True, num_alloc = 4, sk_comp = 1\<rparr>"
  define s' where "s' = s\<lparr>sk_data := [Some [9], Some [5], Some [7], None]\<rparr>"
  have "sk_good bytes_call s"
    unfolding s_def by (simp add: sk_good_def sk_inv_def sk_ordered_def sk_list_def bytes_call_def compare_set_of_element_def)
  moreover have "OPENSSL_sk_set (Some s) 0 (Some [9]) = (Some [9], Some s')" "Some [9] \<in> set (sk_list s')" "sorted_flag s" "sorted_flag s'"
    by (simp_all add: s_def s'_def OPENSSL_sk_set_def sk_list_def)
  moreover have "OPENSSL_sk_find bytes_call (Some s') (Some [9]) = None"
    unfolding s'_def s_def by code_simp
  ultimately show ?thesis by blast
qed

section \<open>Hash tables\<close>

text \<open>C9: the hash table is a map, for every comparison that decides an equivalence and
  every hash that respects it. Any sequence of \<open>OPENSSL_lh_insert\<close>, \<open>OPENSSL_lh_delete\<close> and
  \<open>OPENSSL_lh_retrieve\<close> on a new table, each call with an allocator of its own, returns what the same
  calls return on a map, and leaves the elements of that map, through all the resizes and whether they
  succeed or not. An insertion fails, without an effect, exactly when the key is new and the memory for
  its item is refused.\<close>

theorem lhash_updates:
  assumes "hashing hash cmp" and "OPENSSL_lh_new ok struct_ok = Some lh" and "lh_run hash cmp us lh = (rs, lh')"
  shows "map_run (\<lambda>x y. cmp x y = 0) (\<lambda>ok. ok 24) us (\<lambda>_. None) = (rs, OPENSSL_lh_retrieve hash cmp lh') \<and>
    lh_inv hash cmp lh'"
  using hashing.lh_run_refines [OF assms] by simp

theorem lhash_updates_witness:
  "\<exists>lh lh' v w. OPENSSL_lh_new (\<lambda>_. True) True = Some lh \<and> v \<noteq> w \<and>
    lh_run conf_value_hash conf_value_cmp [Put (\<lambda>_. False) v, Put (\<lambda>_. True) v, Put (\<lambda>_. False) w, Find v] lh =
      ([(False, None), (True, None), (True, Some v), (True, Some w)], lh') \<and>
    OPENSSL_lh_retrieve conf_value_hash conf_value_cmp lh' v = Some w"
proof -
  obtain lh :: "conf_value lhash_st" where lh: "OPENSSL_lh_new (\<lambda>_. True) True = Some lh" by (simp add: OPENSSL_lh_new_def)
  define v where "v = \<lparr>cv_section = [97], cv_name = [98], cv_value = [99]\<rparr>"
  define w where "w = \<lparr>cv_section = [97], cv_name = [98], cv_value = [100]\<rparr>"
  have e: "conf_value_cmp v v = 0" "conf_value_cmp w v = 0" "v \<noteq> w" by (simp_all add: conf_value_cmp_def v_def w_def)
  let ?us = "[Put (\<lambda>_. False) v, Put (\<lambda>_. True) v, Put (\<lambda>_. False) w, Find v]"
  obtain rs lh' where r: "lh_run conf_value_hash conf_value_cmp ?us lh = (rs, lh')" by fastforce
  have vw: "conf_value_cmp v w = 0" using conf_values.cmp_sym [OF e(2)] .
  have m: "map_run (\<lambda>x y. conf_value_cmp x y = 0) (\<lambda>ok. ok (24 :: nat)) ?us (\<lambda>_. None) =
      (rs, OPENSSL_lh_retrieve conf_value_hash conf_value_cmp lh')"
    by (rule conjunct1 [OF lhash_updates [OF conf_values.hashing_axioms lh r]])
  then have "rs = [(False, None), (True, None), (True, Some v), (True, Some w)]"
    "OPENSSL_lh_retrieve conf_value_hash conf_value_cmp lh' v = Some w"
    using e vw by (auto simp: map_run_def map_put_def dest!: fun_cong [of _ _ v])
  then show ?thesis using lh r e(3) by blast
qed

text \<open>C32: for every comparison that decides an equivalence and every hash that
  respects it, \<open>OPENSSL_lh_insert\<close> replaces the element equal to the new one, returns that element,
  and keeps all others; it fails, changing nothing, only when the item is new and its memory is
  refused.\<close>

theorem lhash_insert_replaces:
  assumes "hashing hash cmp" and "lh_inv hash cmp lh"
  shows "OPENSSL_lh_insert hash cmp ok lh d = (False, None, lh) \<and> \<not> ok 24 \<and> OPENSSL_lh_retrieve hash cmp lh d = None \<or>
    (\<exists>lh'. OPENSSL_lh_insert hash cmp ok lh d = (True, OPENSSL_lh_retrieve hash cmp lh d, lh') \<and> lh_inv hash cmp lh' \<and>
       lh_bag lh' = add_mset d {#x \<in># lh_bag lh. cmp x d \<noteq> 0#})"
  using hashing.insert_spec [OF assms, of ok d] by (elim disjE) blast+

theorem lhash_insert_replaces_witness:
  "\<exists>lh lh' v. OPENSSL_lh_new (\<lambda>_. True) True = Some lh \<and>
    OPENSSL_lh_insert conf_value_hash conf_value_cmp (\<lambda>_. True) lh v = (True, None, lh') \<and> lh_bag lh' = {#v#}"
proof -
  obtain lh :: "conf_value lhash_st" where lh: "OPENSSL_lh_new (\<lambda>_. True) True = Some lh" by (simp add: OPENSSL_lh_new_def)
  define v where "v = \<lparr>cv_section = [97], cv_name = [98], cv_value = [99]\<rparr>"
  have inv: "lh_inv conf_value_hash conf_value_cmp lh" "lh_bag lh = {#}" using conf_values.new_inv [OF lh] by simp_all
  have n: "OPENSSL_lh_retrieve conf_value_hash conf_value_cmp lh v = None"
    using conf_values.retrieve_Some [OF inv(1), of v] inv(2) by (metis empty_iff option.exhaust set_mset_empty)
  from lhash_insert_replaces [OF conf_values.hashing_axioms inv(1), of "\<lambda>_. True" v] show ?thesis
    using lh n inv(2) by auto
qed

text \<open>C33: \<open>OPENSSL_lh_delete\<close> removes exactly the element equal to its argument and
  returns it, and leaves the table as it was when there is none.\<close>

theorem lhash_delete_removes:
  assumes "hashing hash cmp" and "lh_inv hash cmp lh"
  shows "\<exists>lh'. OPENSSL_lh_delete hash cmp ok lh d = (OPENSSL_lh_retrieve hash cmp lh d, lh') \<and> lh_inv hash cmp lh' \<and>
     lh_bag lh' = {#x \<in># lh_bag lh. cmp x d \<noteq> 0#}"
  using hashing.delete_spec [OF assms, of ok d] by blast

theorem lhash_delete_removes_witness:
  "\<exists>lh lh'. OPENSSL_lh_new (\<lambda>_. True) True = Some lh \<and>
     snd (OPENSSL_lh_delete conf_section_hash conf_section_cmp (\<lambda>_. True) lh \<lparr>cs_name = [97], cs_values = []\<rparr>) = lh' \<and> lh_bag lh' = {#}"
proof -
  obtain lh :: "conf_section lhash_st" where lh: "OPENSSL_lh_new (\<lambda>_. True) True = Some lh" by (simp add: OPENSSL_lh_new_def)
  have inv: "lh_inv conf_section_hash conf_section_cmp lh" "lh_bag lh = {#}" using conf_sections.new_inv [OF lh] by simp_all
  from lhash_delete_removes [OF conf_sections.hashing_axioms inv(1), of "\<lambda>_. True" "\<lparr>cs_name = [97], cs_values = []\<rparr>"]
  show ?thesis using inv(2) lh by auto
qed

text \<open>Remark: \<open>OPENSSL_lh_doall_arg\<close> calls the function once for every stored element,
  in some order, does not change what the table holds and ends with the callback depth it began with.\<close>

theorem lhash_doall_visits_all:
  assumes "hashing hash cmp" and "lh_inv hash cmp lh" and "callback_depth lh + 1 < UINT_MAX"
  shows "\<exists>xs lh'. mset xs = lh_bag lh \<and> OPENSSL_lh_doall_arg ok f a (Some lh) = (fold f xs a, Some lh') \<and>
     lh_inv hash cmp lh' \<and> lh_bag lh' = lh_bag lh \<and> callback_depth lh' = callback_depth lh"
proof -
  have "mset (map item_data (concat (buckets lh))) = lh_bag lh" by (simp add: lh_bag_def)
  then show ?thesis using hashing.doall_spec [OF assms, of ok f a] by blast
qed

theorem lhash_doall_visits_all_witness:
  "\<exists>(lh :: conf_value lhash_st) xs lh'. OPENSSL_lh_new (\<lambda>_. True) True = Some lh \<and> mset xs = lh_bag lh \<and>
     OPENSSL_lh_doall_arg (\<lambda>_. True) (\<lambda>v n. n + length (cv_name v)) 0 (Some lh) = (fold (\<lambda>v n. n + length (cv_name v)) xs 0, Some lh')"
proof -
  obtain lh :: "conf_value lhash_st" where lh: "OPENSSL_lh_new (\<lambda>_. True) True = Some lh" "callback_depth lh = 0"
    by (simp add: OPENSSL_lh_new_def)
  have "lh_inv conf_value_hash conf_value_cmp lh" using conf_values.new_inv [OF lh(1)] by simp
  from lhash_doall_visits_all [OF conf_values.hashing_axioms this, of "\<lambda>_. True" "\<lambda>v n. n + length (cv_name v)" 0]
  show ?thesis using lh by auto
qed

text \<open>C11: a BIO pair is two bounded queues. Whatever reads, writes and control commands are called on
  the ends of a new pair, in any order, every call returns, each direction delivers the accepted bytes in
  order, what is in transit never exceeds the buffer, and one more large enough read on each end delivers
  everything that was accepted.\<close>

theorem bio_pair_fifo:
  assumes "allocates al" and "BIO_new_bio_pair al ok1 ok2 n1 n2 = Some (b1, b2)"
  shows "\<exists>t b1' b2' t' b1'' b2''.
     pair_run ops (\<lparr>sent1 = [], got1 = [], sent2 = [], got2 = []\<rparr>, b1, b2) = Some (t, b1', b2') \<and>
     sent1 t = got2 t @ queue (bio_ptr b1') \<and> length (queue (bio_ptr b1')) \<le> (if n1 = 0 then 17 * 1024 else n1) \<and>
     sent2 t = got1 t @ queue (bio_ptr b2') \<and> length (queue (bio_ptr b2')) \<le> (if n2 = 0 then 17 * 1024 else n2) \<and>
     pair_run [(False, Read True (b_size (bio_ptr b1'))), (True, Read True (b_size (bio_ptr b2')))] (t, b1', b2') = Some (t', b1'', b2'') \<and>
     got2 t' = sent1 t \<and> got1 t' = sent2 t"
proof -
  note l = BIO_new_bio_pair_linked [OF assms]
  have "fifo (\<lparr>sent1 = [], got1 = [], sent2 = [], got2 = []\<rparr>, b1, b2)" using l by (simp add: fifo_def)
  from pair_run_fifo [OF this, of ops] obtain t b1' b2' where
    r: "pair_run ops (\<lparr>sent1 = [], got1 = [], sent2 = [], got2 = []\<rparr>, b1, b2) = Some (t, b1', b2')" and f: "fifo (t, b1', b2')" and
    sz: "b_size (bio_ptr b1') = b_size (bio_ptr b1)" "b_size (bio_ptr b2') = b_size (bio_ptr b2)" by blast
  from pair_drain [OF f] obtain t' b1'' b2'' where
    d: "pair_run [(False, Read True (b_size (bio_ptr b1'))), (True, Read True (b_size (bio_ptr b2')))] (t, b1', b2') = Some (t', b1'', b2'')"
      "got2 t' = sent1 t" "got1 t' = sent2 t" by metis
  have "length (queue (bio_ptr b1')) \<le> (if n1 = 0 then 17 * 1024 else n1)" "length (queue (bio_ptr b2')) \<le> (if n2 = 0 then 17 * 1024 else n2)"
    using fifo_bound [OF f] l(5,6) sz by simp_all
  moreover have "sent1 t = got2 t @ queue (bio_ptr b1')" "sent2 t = got1 t @ queue (bio_ptr b2')" using f by (simp_all add: fifo_def)
  ultimately show ?thesis using r d by blast
qed

theorem bio_pair_fifo_witness:
  "\<exists>b1 b2 t b1' b2'. BIO_new_bio_pair zero_alloc True True 4 3 = Some (b1, b2) \<and>
     pair_run [(True, Write (Some [1, 2, 3])), (False, Read True 2), (True, Write (Some [4, 5, 6]))]
       (\<lparr>sent1 = [], got1 = [], sent2 = [], got2 = []\<rparr>, b1, b2) = Some (t, b1', b2') \<and>
     sent1 t = got2 t @ queue (bio_ptr b1') \<and> sent1 t = [1, 2, 3, 4, 5, 6] \<and> got2 t = [1, 2]"
proof -
  let ?ops = "[(True, Write (Some [1, 2, 3])), (False, Read True 2), (True, Write (Some [4, 5, 6]))]"
  let ?fin = "\<lambda>m. \<lparr>bio_init = True, bio_shutdown = 1, bio_retry = No_retry,
    bio_ptr = \<lparr>peer = True, closed = False, b_len = 0, b_offset = 0, b_size = length m, b_buf = Some m, request = 0\<rparr>\<rparr>"
  let ?b1 = "?fin [0, 0, 0, 0]" and ?b2 = "?fin [0, 0, 0]"
  have z: "zero_alloc 4 = Some [0, 0, 0, 0]" "zero_alloc 3 = Some [0, 0, 0]" by (simp_all add: zero_alloc_def numeral_eq_Suc)
  have p: "BIO_new_bio_pair zero_alloc True True 4 3 = Some (?b1, ?b2)" by (simp add: pair_run_eval z)
  have "map_option (\<lambda>(t, _). (sent1 t, got2 t)) (pair_run ?ops (\<lparr>sent1 = [], got1 = [], sent2 = [], got2 = []\<rparr>, ?b1, ?b2)) =
      Some ([1, 2, 3, 4, 5, 6], [1, 2])"
    by (simp add: pair_run_eval)
  moreover obtain t b1' b2' where r: "pair_run ?ops (\<lparr>sent1 = [], got1 = [], sent2 = [], got2 = []\<rparr>, ?b1, ?b2) = Some (t, b1', b2')"
    and q: "sent1 t = got2 t @ queue (bio_ptr b1')"
    using bio_pair_fifo [OF allocates_zero_alloc p, of ?ops] by metis
  ultimately show ?thesis using p by auto
qed

section \<open>Protocol Buffers\<close>

text \<open>C14: a message of fields is written with exactly the number of bytes the
  counting stream gives and nothing behind them is touched; the reading loop gives back the fields whose tags
  the receiver knows, in order, and skips all others.\<close>

theorem pb_fields_round_trip:
  assumes "\<forall>f \<in> set fs. sendable f" and "length (fields_bytes fs) \<le> bufsize" and "bufsize \<le> length buf" and "bufsize < object_max"
  shows "\<exists>sz s. pb_put_fields fs PB_OSTREAM_SIZING = (True, sz) \<and>
     pb_put_fields fs (pb_ostream_from_buffer buf bufsize) = (True, s) \<and> bytes_written s = bytes_written sz \<and>
     length (os_mem s) = length buf \<and> drop (bytes_written s) (os_mem s) = drop (bytes_written s) buf \<and>
     fst (pb_get_fields known (pb_istream_from_buffer (os_mem s) (bytes_written s))) = Some (filter (\<lambda>f. known (fst f)) fs)"
proof -
  obtain sz where sz: "pb_put_fields fs PB_OSTREAM_SIZING = (True, sz)" "bytes_written sz = length (fields_bytes fs)"
    using sizing_fields [of fs] assms(2,4) by auto
  obtain s where s: "pb_put_fields fs (pb_ostream_from_buffer buf bufsize) = (True, s)" "os_mem s = write_at buf 0 (fields_bytes fs)"
    "bytes_written s = length (fields_bytes fs)" using buffer_fields [OF assms(2-4)] by blast
  have m: "os_mem s = fields_bytes fs @ drop (length (fields_bytes fs)) buf" by (simp add: s(2) write_at_def)
  have "fst (pb_get_fields known (pb_istream_from_buffer (os_mem s) (bytes_written s))) = Some (filter (\<lambda>f. known (fst f)) fs)"
    using get_fields [OF assms(1) buffer_window(2,1)] by (simp add: m s(3))
  moreover have "length (os_mem s) = length buf \<and> drop (bytes_written s) (os_mem s) = drop (bytes_written s) buf"
    using assms(2,3) by (simp add: m s(3))
  ultimately show ?thesis using sz s(1,3) by (intro exI [of _ sz] exI [of _ s]) simp
qed

theorem pb_fields_round_trip_witness:
  "\<exists>s. pb_put_fields [(1, Varint 300), (2, Delimited [7, 8]), (3, Fixed32 5)] (pb_ostream_from_buffer (replicate 16 0) 16) = (True, s) \<and>
     fst (pb_get_fields (\<lambda>tag. tag \<noteq> 2) (pb_istream_from_buffer (os_mem s) (bytes_written s))) = Some [(1, Varint 300), (3, Fixed32 5)]"
  using pb_fields_round_trip [of "[(1, Varint 300), (2, Delimited [7, 8]), (3, Fixed32 5)]" 16 "replicate 16 0" "\<lambda>tag. tag \<noteq> 2"]
  by (fastforce simp: wire_types leb.simps fixed32_bytes_def)

text \<open>C16: a message that does not fit is refused, and no byte behind the given size is
  written.\<close>

theorem pb_fields_overflow:
  assumes "bufsize < length (fields_bytes fs)" and "length (fields_bytes fs) < object_max" and "bufsize \<le> length buf"
  shows "fst (pb_put_fields fs (pb_ostream_from_buffer buf bufsize)) = False \<and>
     length (os_mem (snd (pb_put_fields fs (pb_ostream_from_buffer buf bufsize)))) = length buf \<and>
     drop bufsize (os_mem (snd (pb_put_fields fs (pb_ostream_from_buffer buf bufsize)))) = drop bufsize buf"
proof -
  have "fs \<noteq> []" using assms(1) by auto
  have "\<not> has_room (pb_ostream_from_buffer buf bufsize) (length (fields_bytes fs))"
    using assms(1) by (simp add: has_room_def pb_ostream_from_buffer_def)
  from writes_fails [OF writes_fields [OF assms(2) \<open>fs \<noteq> []\<close>] buffer_stream [OF assms(3)] this] assms(1,2)
  show ?thesis by (simp add: contained_def pb_ostream_from_buffer_def)
qed

theorem pb_fields_overflow_witness:
  "fst (pb_put_fields [(1, Varint 300)] (pb_ostream_from_buffer [9, 9, 9] 2)) = False \<and>
     drop 2 (os_mem (snd (pb_put_fields [(1, Varint 300)] (pb_ostream_from_buffer [9, 9, 9] 2)))) = [9]"
  using pb_fields_overflow [of 2 "[(1, Varint 300)]" "[9, 9, 9]"] by (simp add: wire_types leb.simps)

text \<open>C15: every 64-bit number that \<open>pb_encode_varint\<close> writes is read back by
  \<open>pb_decode_varint\<close>. \<open>pb_decode_varint32\<close> accepts the varint exactly when \<open>accepts32\<close> holds of the number and
  then gives its low 32 bits: all numbers below \<open>2 ^ 32\<close> and all sign-extended negative 32-bit numbers, but also
  the other numbers with bits 63 and 31 set whose whole groups between these bits are 0 or all ones. It refuses
  the rest.\<close>

theorem pb_varint32_canonical:
  assumes "length buf = 10"
  shows "(\<exists>s. pb_encode_varint v (pb_ostream_from_buffer buf 10) = (True, s) \<and>
     fst (pb_decode_varint (pb_istream_from_buffer (os_mem s) (bytes_written s))) = Some v \<and>
     fst (pb_decode_varint32 (pb_istream_from_buffer (os_mem s) (bytes_written s))) =
       (if accepts32 (unat v) then Some (ucast v) else None)) \<and>
     (unat v < 2 ^ 32 \<or> 2 ^ 64 - 2 ^ 31 \<le> unat v \<longrightarrow> accepts32 (unat v))"
proof -
  let ?l = "leb (unat v)" and ?o = "pb_ostream_from_buffer buf 10"
  have len: "length ?l \<le> 10" by (rule length_leb_u64)
  have "out_stream ?o" using assms(1) by (intro buffer_stream) simp_all
  moreover have "has_room ?o (length ?l)" using len by (simp add: has_room_def pb_ostream_from_buffer_def)
  ultimately have w: "pb_encode_varint v ?o = (True, put ?l ?o)" by (rule writesD [OF writes_varint])
  have m: "os_mem (put ?l ?o) = ?l @ drop (length ?l) buf" "bytes_written (put ?l ?o) = length ?l"
    by (simp_all add: put_def pb_ostream_from_buffer_def write_at_def)
  let ?i = "pb_istream_from_buffer (?l @ drop (length ?l) buf) (length ?l)"
  have i: "in_stream ?i" "window ?i = ?l @ []" by (simp_all add: buffer_window)
  have u: "(word_of_nat (unat v) :: u32) = ucast v" by simp
  have l: "unat v < 2 ^ 64" using unat_u64_less [of v] by simp
  have "fst (pb_decode_varint32 ?i) = (if accepts32 (unat v) then Some (ucast v) else None)"
  proof (cases "accepts32 (unat v)")
    case True
    from varint32_eof_leb(1) [OF i l this] True show ?thesis by (simp only: pb_decode_varint32_def prod.case fst_conv u if_True)
  next
    case False
    from varint32_eof_leb(2) [OF i l this] False show ?thesis
      by (cases "pb_decode_varint32_eof ?i") (auto simp: pb_decode_varint32_def)
  qed
  moreover have "accepts32 (unat v)" if "unat v < 2 ^ 32 \<or> 2 ^ 64 - 2 ^ 31 \<le> unat v"
    using that
  proof
    assume "unat v < 2 ^ 32"
    then show ?thesis unfolding accepts32_def by (rule disjI1)
  qed (rule accepts32_negative [OF _ l])
  ultimately show ?thesis using w m readsD [OF reads_varint i] by (intro conjI exI [of _ "put ?l ?o"] impI) (simp_all only: m fst_conv)
qed

theorem pb_varint32_canonical_witness:
  "\<exists>s t. pb_encode_varint (- 2) (pb_ostream_from_buffer (replicate 10 0) 10) = (True, s) \<and>
     fst (pb_decode_varint32 (pb_istream_from_buffer (os_mem s) (bytes_written s))) = Some (- 2) \<and>
     pb_encode_varint 0x8000000080000000 (pb_ostream_from_buffer (replicate 10 0) 10) = (True, t) \<and>
     fst (pb_decode_varint32 (pb_istream_from_buffer (os_mem t) (bytes_written t))) = Some 0x80000000"
proof -
  have "accepts32 (unat (- 2 :: u64))" "accepts32 (unat (0x8000000080000000 :: u64))" by (simp_all add: accepts32_def)
  then show ?thesis
    using pb_varint32_canonical [of "replicate 10 0" "- 2"] pb_varint32_canonical [of "replicate 10 0" "0x8000000080000000"] by auto
qed

text \<open>C17: a submessage written by \<open>pb_encode_submessage\<close> is delimited exactly by
  \<open>pb_make_string_substream\<close>: its fields are read inside the substream, and closing it ends the stream.\<close>

theorem pb_submessage_round_trip:
  assumes "\<forall>f \<in> set fs. sendable f" and "fs \<noteq> []" and "length (fields_bytes fs) < 2 ^ 32"
    and "length (fields_bytes fs) + 5 \<le> bufsize" and "bufsize \<le> length buf" and "bufsize < object_max"
  shows "\<exists>s sub r sub' t. pb_encode_submessage (pb_put_fields fs) (pb_ostream_from_buffer buf bufsize) = (True, s) \<and>
     pb_make_string_substream (pb_istream_from_buffer (os_mem s) (bytes_written s)) = (Some sub, r) \<and>
     pb_get_fields known sub = (Some (filter (\<lambda>f. known (fst f)) fs), sub') \<and>
     pb_close_string_substream sub' r = (Some (), t) \<and> bytes_left t = 0"
proof -
  let ?b = "fields_bytes fs" and ?o = "pb_ostream_from_buffer buf bufsize"
  let ?l = "leb (length ?b)"
  have len: "length ?l \<le> 5" using assms(3) by (intro length_leb) simp_all
  have "writes (pb_put_fields fs) ?b" using assms(2,3) by (intro writes_fields) simp_all
  hence enc: "writes (pb_encode_submessage (pb_put_fields fs)) (?l @ ?b)" using len assms(3) by (intro writes_submessage) simp_all
  have "has_room ?o (length (?l @ ?b))" using len assms(4) by (simp add: has_room_def pb_ostream_from_buffer_def)
  from writesD [OF enc buffer_stream [OF assms(5,6)] this]
  have w: "pb_encode_submessage (pb_put_fields fs) ?o = (True, put (?l @ ?b) ?o)" .
  have m: "os_mem (put (?l @ ?b) ?o) = (?l @ ?b) @ drop (length (?l @ ?b)) buf" "bytes_written (put (?l @ ?b) ?o) = length (?l @ ?b)"
    by (simp_all add: put_def pb_ostream_from_buffer_def write_at_def)
  let ?i = "pb_istream_from_buffer ((?l @ ?b) @ drop (length (?l @ ?b)) buf) (length (?l @ ?b))"
  have i: "in_stream ?i" "window ?i = ?l @ ?b @ []" by (simp_all only: buffer_window append_Nil2)
  obtain sub r where mk: "pb_make_string_substream ?i = (Some sub, r)" "in_stream sub" "window sub = ?b" "bytes_left sub = length ?b"
    "\<forall>n \<le> length ?b. pb_close_string_substream (advance n sub) r = (Some (), advance (length (?l @ ?b)) ?i)"
    using make_substream [OF i assms(3)] by blast
  have "bytes_left (advance (length (?l @ ?b)) ?i) = 0" by (simp add: advance_def pb_istream_from_buffer_def)
  thus ?thesis using w m mk(1,5) get_fields [OF assms(1) mk(2,3), of known] by (metis le_refl)
qed

theorem pb_submessage_round_trip_witness:
  "\<exists>s sub r sub'. pb_encode_submessage (pb_put_fields [(1, Varint 300)]) (pb_ostream_from_buffer (replicate 8 0) 8) = (True, s) \<and>
     pb_make_string_substream (pb_istream_from_buffer (os_mem s) (bytes_written s)) = (Some sub, r) \<and>
     pb_get_fields (\<lambda>_. True) sub = (Some [(1, Varint 300)], sub')"
  using pb_submessage_round_trip [of "[(1, Varint 300)]" 8 "replicate 8 0" "\<lambda>_. True"] by (auto simp: wire_types leb.simps)

text \<open>C39: varints with empty groups in them, \<open>k + 1\<close> bytes \<open>0x80\<close> and a last byte \<open>b\<close>.
  \<open>pb_decode_varint\<close> reads at most ten bytes and puts \<open>b\<close> where it belongs. \<open>pb_decode_varint32\<close> has no limit on
  the length: its bit position wraps after 256 bits, so a byte far behind bit 31 is put into the result as if it
  were one of the first five.\<close>

theorem pb_varint32_wraps:
  assumes "unat b < 128"
  shows "fst (pb_decode_varint32 (pb_istream_from_buffer (replicate (k + 1) 0x80 @ [b]) (k + 2))) =
      (let j = 7 * (k + 1) mod 256
       in if j < 32 then (if j = 28 \<and> 16 \<le> unat b then None else Some (push_bit j (ucast b)))
          else if b = 0 then Some 0 else None) \<and>
    fst (pb_decode_varint (pb_istream_from_buffer (replicate (k + 1) 0x80 @ [b]) (k + 2))) =
      (if k + 2 \<le> 10 then Some (push_bit (7 * (k + 1)) (ucast b)) else None)"
proof -
  let ?i = "pb_istream_from_buffer (replicate (k + 1) 0x80 @ [b]) (k + 2)"
  have i: "in_stream ?i" "window ?i = replicate (Suc k) 0x80 @ [b]"
    using buffer_window [of "replicate (k + 1) 0x80 @ [b]" "[]"] by simp_all
  show ?thesis using varint32_overlong [OF i assms] varint_overlong [OF i assms] by (simp add: Let_def)
qed

theorem pb_varint32_wraps_witness:
  "fst (pb_decode_varint32 (pb_istream_from_buffer (replicate 37 0x80 @ [1]) 38)) = Some 8 \<and>
   fst (pb_decode_varint (pb_istream_from_buffer (replicate 37 0x80 @ [1]) 38)) = None"
  using pb_varint32_wraps [of 1 36] by simp

end
